theory Spec2Isabelle
  imports
    Complex_Main
    "HOL-Library.Multiset"
    "HOL-Library.Char_ord"
    "HOL-Library.List_Lexorder"
begin

section \<open>The host language's Map\<close>

text \<open>
  An ECMAScript \<^verbatim>\<open>Map\<close> is a list of entry slots in insertion order. \<^verbatim>\<open>set\<close> on a
  present key overwrites the value in its slot, on an absent key appends a slot;
  \<^verbatim>\<open>delete\<close> empties the slot and leaves it in the list. An iterator is an index into the
  slot list: \<^verbatim>\<open>next()\<close> skips empty slots, so an iterator stays valid while the map is
  mutated. \<open>None\<close> is an emptied slot.
\<close>

type_synonym ('k, 'v) jsmap = "('k \<times> 'v) option list"

fun Map_entries :: "('k, 'v) jsmap \<Rightarrow> ('k \<times> 'v) list" where
  "Map_entries [] = []"
| "Map_entries (None # m) = Map_entries m"
| "Map_entries (Some e # m) = e # Map_entries m"

definition Map_get :: "('k, 'v) jsmap \<Rightarrow> 'k \<Rightarrow> 'v option" where
  "Map_get m k = map_of (Map_entries m) k"

definition Map_has :: "('k, 'v) jsmap \<Rightarrow> 'k \<Rightarrow> bool" where
  "Map_has m k = (Map_get m k \<noteq> None)"

definition Map_keys :: "('k, 'v) jsmap \<Rightarrow> 'k list" where
  "Map_keys m = map fst (Map_entries m)"

definition Map_size :: "('k, 'v) jsmap \<Rightarrow> nat" where
  "Map_size m = length (Map_entries m)"

fun slot_set :: "'k \<Rightarrow> 'v \<Rightarrow> ('k \<times> 'v) option \<Rightarrow> ('k \<times> 'v) option" where
  "slot_set k v None = None"
| "slot_set k v (Some (k', v')) = (if k' = k then Some (k, v) else Some (k', v'))"

fun slot_delete :: "'k \<Rightarrow> ('k \<times> 'v) option \<Rightarrow> ('k \<times> 'v) option" where
  "slot_delete k None = None"
| "slot_delete k (Some (k', v')) = (if k' = k then None else Some (k', v'))"

definition Map_set :: "('k, 'v) jsmap \<Rightarrow> 'k \<Rightarrow> 'v \<Rightarrow> ('k, 'v) jsmap" where
  "Map_set m k v = (if Map_has m k then map (slot_set k v) m else m @ [Some (k, v)])"

definition Map_delete :: "('k, 'v) jsmap \<Rightarrow> 'k \<Rightarrow> ('k, 'v) jsmap" where
  "Map_delete m k = map (slot_delete k) m"

text \<open>
  \<open>iter_next m i\<close> is \<^verbatim>\<open>it.next()\<close> for an iterator at slot index \<open>i\<close> of map \<open>m\<close>:
  \<open>None\<close> when the iterator is done, otherwise the entry and the advanced index.
\<close>

fun iter_scan :: "'a option list \<Rightarrow> nat \<Rightarrow> ('a \<times> nat) option" where
  "iter_scan [] i = None"
| "iter_scan (None # m) i = iter_scan m (Suc i)"
| "iter_scan (Some e # m) i = Some (e, Suc i)"

definition iter_next :: "'a option list \<Rightarrow> nat \<Rightarrow> ('a \<times> nat) option" where
  "iter_next m i = iter_scan (drop i m) i"

section \<open>Dictionary with incremental rehash\<close>

record ('k, 'v) dictionary =
  ht0 :: "('k, 'v) jsmap"
  ht1 :: "('k, 'v) jsmap option"
  rehashidx :: int
  rehashStepSize :: nat
  rehashIterator :: "nat option"

definition Dictionary :: "nat \<Rightarrow> ('k, 'v) dictionary" where
  "Dictionary stepSize =
     \<lparr>ht0 = [], ht1 = None, rehashidx = -1, rehashStepSize = stepSize, rehashIterator = None\<rparr>"

definition isRehashing :: "('k, 'v) dictionary \<Rightarrow> bool" where
  "isRehashing d = (rehashidx d \<ge> 0)"

definition startRehash :: "('k, 'v) dictionary \<Rightarrow> ('k, 'v) dictionary" where
  "startRehash d =
     (if isRehashing d then d
      else d\<lparr>ht1 := Some [], rehashidx := 0, rehashIterator := Some 0\<rparr>)"

text \<open>The \<^verbatim>\<open>while (moved < stepSize)\<close> loop of \<^verbatim>\<open>_rehashStep\<close>; the first argument is
  \<open>stepSize - moved\<close>, \<open>it\<close> the iterator over \<open>ht0\<close> and \<open>h1\<close> the table \<open>ht1\<close>.\<close>

fun rehashLoop :: "nat \<Rightarrow> nat \<Rightarrow> ('k, 'v) jsmap \<Rightarrow> ('k, 'v) dictionary \<Rightarrow> bool \<times> ('k, 'v) dictionary" where
  "rehashLoop 0 it h1 d = (False, d)"
| "rehashLoop (Suc n) it h1 d =
     (case iter_next (ht0 d) it of
        None \<Rightarrow> (True, d\<lparr>ht0 := h1, ht1 := None, rehashidx := -1, rehashIterator := None\<rparr>)
      | Some ((key, val), it') \<Rightarrow>
          rehashLoop n it' (Map_set h1 key val)
            (d\<lparr>ht1 := Some (Map_set h1 key val), ht0 := Map_delete (ht0 d) key,
               rehashidx := rehashidx d + 1, rehashIterator := Some it'\<rparr>))"

definition rehashStepN :: "nat \<Rightarrow> ('k, 'v) dictionary \<Rightarrow> bool \<times> ('k, 'v) dictionary" where
  "rehashStepN stepSize d =
     (if \<not> isRehashing d then (True, d)
      else case (rehashIterator d, ht1 d) of
             (Some it, Some h1) \<Rightarrow> rehashLoop stepSize it h1 d
           | _ \<Rightarrow> (True, d))"

definition rehashStep :: "('k, 'v) dictionary \<Rightarrow> ('k, 'v) dictionary" where
  "rehashStep d = snd (rehashStepN (rehashStepSize d) d)"

text \<open>The reads and writes after the rehash step, on the stepped dictionary.\<close>

definition lookup2 :: "('k, 'v) dictionary \<Rightarrow> 'k \<Rightarrow> 'v option" where
  "lookup2 d key =
     (case (isRehashing d, ht1 d) of
        (True, Some h1) \<Rightarrow> (case Map_get h1 key of Some v \<Rightarrow> Some v | None \<Rightarrow> Map_get (ht0 d) key)
      | _ \<Rightarrow> Map_get (ht0 d) key)"

definition dict_get :: "('k, 'v) dictionary \<Rightarrow> 'k \<Rightarrow> 'v option \<times> ('k, 'v) dictionary" where
  "dict_get d key = (let d' = rehashStep d in (lookup2 d' key, d'))"

definition dict_set :: "('k, 'v) dictionary \<Rightarrow> 'k \<Rightarrow> 'v \<Rightarrow> ('k, 'v) dictionary" where
  "dict_set d key val =
     (let d' = rehashStep d in
      case (isRehashing d', ht1 d') of
        (True, Some h1) \<Rightarrow>
          d'\<lparr>ht0 := (if Map_has (ht0 d') key then Map_delete (ht0 d') key else ht0 d'),
             ht1 := Some (Map_set h1 key val)\<rparr>
      | _ \<Rightarrow>
          (let d2 = d'\<lparr>ht0 := Map_set (ht0 d') key val\<rparr> in
           if Map_size (ht0 d2) > 1000 \<and> \<not> isRehashing d2 then startRehash d2 else d2))"

definition dict_delete :: "('k, 'v) dictionary \<Rightarrow> 'k \<Rightarrow> bool \<times> ('k, 'v) dictionary" where
  "dict_delete d key =
     (let d' = rehashStep d in
      case (isRehashing d', ht1 d') of
        (True, Some h1) \<Rightarrow>
          (Map_has h1 key \<or> Map_has (ht0 d') key,
           d'\<lparr>ht1 := Some (Map_delete h1 key), ht0 := Map_delete (ht0 d') key\<rparr>)
      | _ \<Rightarrow> (Map_has (ht0 d') key, d'\<lparr>ht0 := Map_delete (ht0 d') key\<rparr>))"

definition dict_has :: "('k, 'v) dictionary \<Rightarrow> 'k \<Rightarrow> bool \<times> ('k, 'v) dictionary" where
  "dict_has d key =
     (let d' = rehashStep d in
      case (isRehashing d', ht1 d') of
        (True, Some h1) \<Rightarrow> (if Map_has h1 key then True else Map_has (ht0 d') key, d')
      | _ \<Rightarrow> (Map_has (ht0 d') key, d'))"

definition dict_keys :: "('k, 'v) dictionary \<Rightarrow> 'k list \<times> ('k, 'v) dictionary" where
  "dict_keys d =
     (let d' = rehashStep d in
      case (isRehashing d', ht1 d') of
        (True, Some h1) \<Rightarrow> (Map_keys (ht0 d') @ Map_keys h1, d')
      | _ \<Rightarrow> (Map_keys (ht0 d'), d'))"

definition dict_size :: "('k, 'v) dictionary \<Rightarrow> nat" where
  "dict_size d =
     (case (isRehashing d, ht1 d) of
        (True, Some h1) \<Rightarrow> Map_size (ht0 d) + Map_size h1
      | _ \<Rightarrow> Map_size (ht0 d))"

subsection \<open>Properties of the Map model\<close>

lemma Map_entries_append: "Map_entries (a @ b) = Map_entries a @ Map_entries b"
  by (induction a rule: Map_entries.induct) auto

lemma Map_entries_delete:
  "Map_entries (map (slot_delete k) m) = filter (\<lambda>e. fst e \<noteq> k) (Map_entries m)"
  by (induction m rule: Map_entries.induct) auto

lemma Map_entries_set:
  "Map_entries (map (slot_set k v) m) = map (\<lambda>e. if fst e = k then (k, v) else e) (Map_entries m)"
  by (induction m rule: Map_entries.induct) auto

lemma Map_has_keys: "Map_has m k \<longleftrightarrow> k \<in> set (Map_keys m)"
  by (simp add: Map_has_def Map_get_def Map_keys_def map_of_eq_None_iff)

lemma map_of_filter_neq: "map_of (filter (\<lambda>e. fst e \<noteq> k) xs) k' = (if k' = k then None else map_of xs k')"
  by (induction xs) auto

lemma map_of_map_upd:
  "map_of (map (\<lambda>e. if fst e = k then (k, v) else e) xs) k' =
     (if k' = k then (if k \<in> fst ` set xs then Some v else None) else map_of xs k')"
proof (induction xs)
  case (Cons e xs)
  then show ?case by (cases e) force+
qed simp

lemma Map_get_delete: "Map_get (Map_delete m k) k' = (if k' = k then None else Map_get m k')"
  unfolding Map_get_def Map_delete_def Map_entries_delete by (rule map_of_filter_neq)

lemma Map_get_set: "Map_get (Map_set m k v) k' = (if k' = k then Some v else Map_get m k')"
proof (cases "Map_has m k")
  case True
  then have "k \<in> fst ` set (Map_entries m)"
    by (simp add: Map_has_keys Map_keys_def)
  with True show ?thesis
    by (simp add: Map_get_def Map_set_def Map_entries_set map_of_map_upd)
next
  case False
  then have "map_of (Map_entries m) k = None"
    by (simp add: Map_has_def Map_get_def)
  with False show ?thesis
    by (auto simp: Map_get_def Map_set_def Map_entries_append map_add_def split: option.splits)
qed

lemma Map_keys_delete: "Map_keys (Map_delete m k) = filter (\<lambda>x. x \<noteq> k) (Map_keys m)"
  by (simp add: Map_keys_def Map_delete_def Map_entries_delete filter_map comp_def)

lemma Map_keys_set:
  "Map_keys (Map_set m k v) = (if k \<in> set (Map_keys m) then Map_keys m else Map_keys m @ [k])"
  by (auto simp: Map_keys_def Map_set_def Map_entries_set Map_entries_append Map_has_keys comp_def
      intro!: map_idI)

lemma Map_get_keys: "Map_get m k \<noteq> None \<longleftrightarrow> k \<in> set (Map_keys m)"
  by (simp add: Map_get_def Map_keys_def map_of_eq_None_iff)

lemma Map_get_None_keys: "Map_get m k = None \<longleftrightarrow> k \<notin> set (Map_keys m)"
  by (simp add: Map_get_def Map_keys_def map_of_eq_None_iff)

lemma Map_size_keys: "Map_size m = length (Map_keys m)"
  by (simp add: Map_size_def Map_keys_def)

lemma iter_scan_None: "iter_scan m i = None \<longleftrightarrow> Map_entries m = []"
  by (induction m i rule: iter_scan.induct) auto

lemma iter_scan_Some:
  "iter_scan m i = Some (e, j) \<Longrightarrow>
     \<exists>n. j = i + n + 1 \<and> n < length m \<and> Map_entries (take n m) = [] \<and> m ! n = Some e"
proof (induction m i rule: iter_scan.induct)
  case (2 m i)
  then obtain n where "j = Suc i + n + 1" "n < length m" "Map_entries (take n m) = []" "m ! n = Some e"
    by auto
  then show ?case by (intro exI[of _ "Suc n"]) auto
next
  case (3 e' m i)
  then show ?case by (intro exI[of _ 0]) auto
qed simp


definition all_keys :: "('k, 'v) dictionary \<Rightarrow> 'k list" where
  "all_keys d =
     (case (isRehashing d, ht1 d) of
        (True, Some h1) \<Rightarrow> Map_keys (ht0 d) @ Map_keys h1
      | _ \<Rightarrow> Map_keys (ht0 d))"

definition dict_inv :: "('k, 'v) dictionary \<Rightarrow> bool" where
  "dict_inv d =
     (distinct (Map_keys (ht0 d)) \<and>
      (if isRehashing d then
         (case (ht1 d, rehashIterator d) of
            (Some h1, Some it) \<Rightarrow>
               distinct (Map_keys h1) \<and> set (Map_keys (ht0 d)) \<inter> set (Map_keys h1) = {} \<and>
               Map_entries (take it (ht0 d)) = []
          | _ \<Rightarrow> False)
       else True))"

lemma iter_next_None: "iter_next m i = None \<Longrightarrow> Map_entries (take i m) = [] \<Longrightarrow> Map_entries m = []"
proof -
  assume a: "iter_next m i = None" and b: "Map_entries (take i m) = []"
  have "Map_entries m = Map_entries (take i m @ drop i m)" by simp
  also have "\<dots> = []" using a b unfolding Map_entries_append
    by (simp add: iter_next_def iter_scan_None)
  finally show ?thesis .
qed

lemma iter_next_Some:
  assumes "iter_next m i = Some (e, j)" and "Map_entries (take i m) = []"
  shows "j \<le> length m \<and> 0 < j \<and> Map_entries (take (j - 1) m) = [] \<and> m ! (j - 1) = Some e"
proof -
  from assms(1) obtain n where n: "j = i + n + 1" "n < length (drop i m)"
      "Map_entries (take n (drop i m)) = []" "drop i m ! n = Some e"
    unfolding iter_next_def by (blast dest: iter_scan_Some)
  have "take (i + n) m = take i m @ take n (drop i m)"
    by (simp add: take_add)
  with assms(2) n(3) have "Map_entries (take (i + n) m) = []"
    by (simp add: Map_entries_append)
  moreover have "m ! (i + n) = Some e" using n(2,4) by simp
  ultimately show ?thesis using n(1,2) by simp
qed

lemma Map_entries_nth: "i < length m \<Longrightarrow> m ! i = Some e \<Longrightarrow> e \<in> set (Map_entries m)"
proof (induction m arbitrary: i rule: Map_entries.induct)
  case (2 m) then show ?case by (cases i) auto
next
  case (3 e' m) then show ?case by (cases i) auto
qed simp

lemma Map_get_distinct:
  "distinct (Map_keys m) \<Longrightarrow> (k, v) \<in> set (Map_entries m) \<Longrightarrow> Map_get m k = Some v"
  by (simp add: Map_get_def Map_keys_def)

lemma mset_filter_notin: "k \<notin> set xs \<Longrightarrow> {#x \<in># mset xs. x \<noteq> k#} = mset xs"
  by (induction xs) auto

lemma mset_filter_neq:
  "distinct xs \<Longrightarrow> k \<in> set xs \<Longrightarrow> mset xs = mset (filter (\<lambda>x. x \<noteq> k) xs) + {#k#}"
  by (induction xs) (auto simp: mset_filter_notin)

lemma dict_inv_migrate:
  assumes inv: "dict_inv d" and r: "isRehashing d" and h1: "ht1 d = Some h1"
    and it: "rehashIterator d = Some it" and nx: "iter_next (ht0 d) it = Some ((k, v), it')"
  defines "d2 \<equiv> d\<lparr>ht1 := Some (Map_set h1 k v), ht0 := Map_delete (ht0 d) k,
               rehashidx := rehashidx d + 1, rehashIterator := Some it'\<rparr>"
  shows "dict_inv d2" and "lookup2 d2 = lookup2 d" and "isRehashing d2"
    and "mset (all_keys d2) = mset (all_keys d)"
proof -
  from inv r h1 it have d0: "distinct (Map_keys (ht0 d))" and d1: "distinct (Map_keys h1)"
    and dj: "set (Map_keys (ht0 d)) \<inter> set (Map_keys h1) = {}"
    and pre: "Map_entries (take it (ht0 d)) = []"
    by (simp_all add: dict_inv_def)
  from iter_next_Some[OF nx pre] have j: "it' \<le> length (ht0 d)" "0 < it'"
    "Map_entries (take (it' - 1) (ht0 d)) = []" "ht0 d ! (it' - 1) = Some (k, v)"
    by simp_all
  then have mem: "(k, v) \<in> set (Map_entries (ht0 d))"
    by (intro Map_entries_nth[of "it' - 1"]) auto
  then have g0: "Map_get (ht0 d) k = Some v" using d0 by (rule Map_get_distinct[rotated])
  have k0: "k \<in> set (Map_keys (ht0 d))" using mem by (force simp: Map_keys_def)
  then have k1: "k \<notin> set (Map_keys h1)" using dj by auto
  then have g1: "Map_get h1 k = None" by (simp add: Map_get_None_keys)
  show r2: "isRehashing d2" using r by (simp add: d2_def isRehashing_def)
  have "take it' (ht0 d) = take (it' - 1) (ht0 d) @ [ht0 d ! (it' - 1)]"
    using j(1,2) take_Suc_conv_app_nth[of "it' - 1" "ht0 d"] by simp
  then have "Map_entries (take it' (Map_delete (ht0 d) k)) = []"
    using j(3,4) by (simp add: Map_delete_def take_map Map_entries_delete Map_entries_append)
  moreover have "distinct (Map_keys (Map_delete (ht0 d) k))"
    using d0 by (simp add: Map_keys_delete)
  moreover have "distinct (Map_keys (Map_set h1 k v))"
    using d1 k1 by (simp add: Map_keys_set)
  moreover have "set (Map_keys (Map_delete (ht0 d) k)) \<inter> set (Map_keys (Map_set h1 k v)) = {}"
    using dj k1 by (auto simp: Map_keys_delete Map_keys_set)
  ultimately show "dict_inv d2" using r2 by (simp add: dict_inv_def d2_def)
  show "lookup2 d2 = lookup2 d"
  proof
    fix x
    show "lookup2 d2 x = lookup2 d x"
      using r r2 h1 g0 g1
      by (auto simp: lookup2_def d2_def Map_get_set Map_get_delete split: option.splits)
  qed
  have "mset (Map_keys (ht0 d)) = mset (filter (\<lambda>x. x \<noteq> k) (Map_keys (ht0 d))) + {#k#}"
    using d0 k0 by (rule mset_filter_neq)
  then show "mset (all_keys d2) = mset (all_keys d)"
    using r r2 h1 k1 by (simp add: all_keys_def d2_def Map_keys_delete Map_keys_set)
qed


lemma rehashLoop_inv:
  "dict_inv d \<Longrightarrow> isRehashing d \<Longrightarrow> ht1 d = Some h1 \<Longrightarrow> rehashIterator d = Some it \<Longrightarrow>
   rehashLoop n it h1 d = (b, d') \<Longrightarrow>
   dict_inv d' \<and> lookup2 d' = lookup2 d \<and> mset (all_keys d') = mset (all_keys d) \<and>
   rehashStepSize d' = rehashStepSize d"
proof (induction n arbitrary: it h1 d)
  case 0
  then show ?case by simp
next
  case (Suc n)
  show ?case
  proof (cases "iter_next (ht0 d) it")
    case None
    from Suc.prems(1-4) have d1: "distinct (Map_keys h1)" and pre: "Map_entries (take it (ht0 d)) = []"
      by (simp_all add: dict_inv_def)
    from iter_next_None[OF None pre] have e: "Map_entries (ht0 d) = []" .
    then have g: "\<And>x. Map_get (ht0 d) x = None" and ks: "Map_keys (ht0 d) = []"
      by (simp_all add: Map_get_def Map_keys_def)
    from None Suc.prems(5)
    have d': "d' = d\<lparr>ht0 := h1, ht1 := None, rehashidx := -1, rehashIterator := None\<rparr>"
      by simp
    have "lookup2 d' = lookup2 d"
    proof
      fix x show "lookup2 d' x = lookup2 d x"
        using Suc.prems(2,3) g by (simp add: d' lookup2_def isRehashing_def split: option.splits)
    qed
    then show ?thesis using d1 ks Suc.prems(2,3)
      by (simp add: d' dict_inv_def isRehashing_def all_keys_def)
  next
    case (Some r)
    then obtain k v it' where nx: "iter_next (ht0 d) it = Some ((k, v), it')"
      by (cases r) auto
    let ?d2 = "d\<lparr>ht1 := Some (Map_set h1 k v), ht0 := Map_delete (ht0 d) k,
               rehashidx := rehashidx d + 1, rehashIterator := Some it'\<rparr>"
    note m = dict_inv_migrate[OF Suc.prems(1-4) nx]
    from nx Suc.prems(5) have "rehashLoop n it' (Map_set h1 k v) ?d2 = (b, d')" by simp
    from Suc.IH[OF m(1) m(3) _ _ this] m(2,4) show ?thesis by simp
  qed
qed

lemma rehashStep_inv:
  assumes "dict_inv d"
  shows "dict_inv (rehashStep d)" and "lookup2 (rehashStep d) = lookup2 d"
    and "mset (all_keys (rehashStep d)) = mset (all_keys d)"
    and "rehashStepSize (rehashStep d) = rehashStepSize d"
proof -
  have "dict_inv (rehashStep d) \<and> lookup2 (rehashStep d) = lookup2 d \<and>
        mset (all_keys (rehashStep d)) = mset (all_keys d) \<and>
        rehashStepSize (rehashStep d) = rehashStepSize d"
  proof (cases "isRehashing d")
    case False
    with assms show ?thesis by (simp add: rehashStep_def rehashStepN_def)
  next
    case True
    with assms obtain h1 it where h: "ht1 d = Some h1" "rehashIterator d = Some it"
      by (auto simp: dict_inv_def split: option.splits)
    obtain b d' where l: "rehashLoop (rehashStepSize d) it h1 d = (b, d')"
      by (cases "rehashLoop (rehashStepSize d) it h1 d") auto
    from rehashLoop_inv[OF assms True h l] True h l show ?thesis
      by (simp add: rehashStep_def rehashStepN_def)
  qed
  then show "dict_inv (rehashStep d)" and "lookup2 (rehashStep d) = lookup2 d"
    and "mset (all_keys (rehashStep d)) = mset (all_keys d)"
    and "rehashStepSize (rehashStep d) = rehashStepSize d" by simp_all
qed

lemma all_keys_inv:
  assumes "dict_inv d"
  shows "distinct (all_keys d)" and "set (all_keys d) = dom (lookup2 d)"
proof -
  show "distinct (all_keys d)"
  proof (cases "isRehashing d")
    case True
    with assms obtain h1 it where h: "ht1 d = Some h1" "rehashIterator d = Some it"
      by (auto simp: dict_inv_def split: option.splits)
    with assms True show ?thesis by (simp add: all_keys_def dict_inv_def)
  next
    case False
    with assms show ?thesis by (simp add: all_keys_def dict_inv_def)
  qed
  show "set (all_keys d) = dom (lookup2 d)"
    by (auto simp: all_keys_def lookup2_def dom_def Map_get_keys[symmetric]
        split: option.splits bool.splits)
qed

lemma dict_size_all_keys: "dict_size d = length (all_keys d)"
  by (simp add: dict_size_def all_keys_def Map_size_keys split: option.splits bool.splits)

lemma dict_size_card: "dict_inv d \<Longrightarrow> dict_size d = card (dom (lookup2 d))"
  using all_keys_inv[of d] distinct_card[of "all_keys d"] by (simp add: dict_size_all_keys)

lemma dict_get_spec:
  assumes "dict_inv d"
  shows "fst (dict_get d k) = lookup2 d k" and "dict_inv (snd (dict_get d k))"
    and "lookup2 (snd (dict_get d k)) = lookup2 d"
  using rehashStep_inv[OF assms] by (simp_all add: dict_get_def Let_def)

lemma dict_has_spec:
  assumes "dict_inv d"
  shows "fst (dict_has d k) = (lookup2 d k \<noteq> None)" and "dict_inv (snd (dict_has d k))"
    and "lookup2 (snd (dict_has d k)) = lookup2 d"
proof -
  note s = rehashStep_inv[OF assms]
  have "fst (dict_has d k) = (lookup2 (rehashStep d) k \<noteq> None)"
    by (auto simp: dict_has_def Let_def lookup2_def Map_has_def split: option.splits bool.splits)
  then show "fst (dict_has d k) = (lookup2 d k \<noteq> None)" using s(2) by simp
  have "snd (dict_has d k) = rehashStep d"
    by (auto simp: dict_has_def Let_def split: option.splits bool.splits)
  then show "dict_inv (snd (dict_has d k))" "lookup2 (snd (dict_has d k)) = lookup2 d"
    using s by simp_all
qed

lemma dict_keys_spec:
  assumes "dict_inv d"
  shows "mset (fst (dict_keys d)) = mset (all_keys d)" and "dict_inv (snd (dict_keys d))"
    and "lookup2 (snd (dict_keys d)) = lookup2 d"
    and "fst (dict_keys d) = all_keys (snd (dict_keys d))"
proof -
  note s = rehashStep_inv[OF assms]
  have a: "fst (dict_keys d) = all_keys (rehashStep d)"
    by (auto simp: dict_keys_def Let_def all_keys_def split: option.splits bool.splits)
  have b: "snd (dict_keys d) = rehashStep d"
    by (auto simp: dict_keys_def Let_def split: option.splits bool.splits)
  show "mset (fst (dict_keys d)) = mset (all_keys d)" using a s(3) by simp
  show "dict_inv (snd (dict_keys d))" "lookup2 (snd (dict_keys d)) = lookup2 d" using b s by simp_all
  show "fst (dict_keys d) = all_keys (snd (dict_keys d))" using a b by simp
qed


lemma Map_entries_take_delete:
  "Map_entries (take n m) = [] \<Longrightarrow> Map_entries (take n (Map_delete m k)) = []"
  by (simp add: Map_delete_def take_map Map_entries_delete)

lemma dict_inv_Dictionary: "dict_inv (Dictionary n)" and lookup2_Dictionary: "lookup2 (Dictionary n) k = None"
  by (simp_all add: dict_inv_def Dictionary_def isRehashing_def lookup2_def Map_get_def Map_keys_def)

lemma isRehashing_upd [simp]:
  "isRehashing (d\<lparr>ht0 := a\<rparr>) = isRehashing d"
  "isRehashing (d\<lparr>ht1 := b\<rparr>) = isRehashing d"
  "isRehashing (d\<lparr>rehashIterator := c\<rparr>) = isRehashing d"
  by (simp_all add: isRehashing_def)

lemma dict_set_step:
  fixes key :: 'k and val :: 'v and d' :: "('k, 'v) dictionary"
  assumes "dict_inv d'"
  defines "r \<equiv> (case (isRehashing d', ht1 d') of
        (True, Some h1) \<Rightarrow>
          d'\<lparr>ht0 := (if Map_has (ht0 d') key then Map_delete (ht0 d') key else ht0 d'),
             ht1 := Some (Map_set h1 key val)\<rparr>
      | _ \<Rightarrow>
          (let d2 = d'\<lparr>ht0 := Map_set (ht0 d') key val\<rparr> in
           if Map_size (ht0 d2) > 1000 \<and> \<not> isRehashing d2 then startRehash d2 else d2))"
  shows "dict_inv r \<and> lookup2 r = (lookup2 d')(key \<mapsto> val)"
proof (cases "isRehashing d'")
  case True
  with assms(1) obtain h1 it where h: "ht1 d' = Some h1" "rehashIterator d' = Some it"
    by (auto simp: dict_inv_def split: option.splits)
  from assms(1) True h have d0: "distinct (Map_keys (ht0 d'))" and d1: "distinct (Map_keys h1)"
    and dj: "set (Map_keys (ht0 d')) \<inter> set (Map_keys h1) = {}"
    and pre: "Map_entries (take it (ht0 d')) = []"
    by (simp_all add: dict_inv_def)
  have r: "r = d'\<lparr>ht0 := (if Map_has (ht0 d') key then Map_delete (ht0 d') key else ht0 d'),
             ht1 := Some (Map_set h1 key val)\<rparr>"
    using True h by (simp add: r_def)
  have del: "(if Map_has (ht0 d') key then Map_delete (ht0 d') key else ht0 d') = Map_delete (ht0 d') key"
    (is "?l = _")
  proof (cases "Map_has (ht0 d') key")
    case False
    then have "key \<notin> fst ` set (Map_entries (ht0 d'))" by (simp add: Map_has_keys Map_keys_def)
    then have "filter (\<lambda>e. fst e \<noteq> key) (Map_entries (ht0 d')) = Map_entries (ht0 d')"
      by (auto simp: filter_id_conv)
    have "map (slot_delete key) (ht0 d') = ht0 d'"
    proof (rule map_idI)
      fix x assume "x \<in> set (ht0 d')"
      then obtain i where "i < length (ht0 d')" "ht0 d' ! i = x" by (auto simp: in_set_conv_nth)
      then show "slot_delete key x = x"
        using Map_entries_nth[of i "ht0 d'"] \<open>key \<notin> fst ` set (Map_entries (ht0 d'))\<close>
        by (cases x) force+
    qed
    with False show ?thesis by (simp add: Map_delete_def)
  qed simp
  have "dict_inv r"
    using True h d0 d1 dj pre unfolding r del
    by (auto simp: dict_inv_def isRehashing_def Map_keys_delete Map_keys_set Map_entries_take_delete)
  moreover have "lookup2 r = (lookup2 d')(key \<mapsto> val)"
  proof
    fix x show "lookup2 r x = ((lookup2 d')(key \<mapsto> val)) x"
      using True h unfolding r del
      by (auto simp: lookup2_def isRehashing_def Map_get_set Map_get_delete split: option.splits)
  qed
  ultimately show ?thesis by simp
next
  case False
  let ?d2 = "d'\<lparr>ht0 := Map_set (ht0 d') key val\<rparr>"
  have n2: "\<not> isRehashing ?d2" using False by (simp add: isRehashing_def)
  have i2: "dict_inv ?d2" using assms(1) False
    by (simp add: dict_inv_def isRehashing_def Map_keys_set)
  have l2: "lookup2 ?d2 = (lookup2 d')(key \<mapsto> val)"
  proof
    fix x show "lookup2 ?d2 x = ((lookup2 d')(key \<mapsto> val)) x"
      using False by (simp add: lookup2_def Map_get_set)
  qed
  have i3: "dict_inv (startRehash ?d2)" using i2 n2
    by (simp add: startRehash_def dict_inv_def isRehashing_def Map_keys_def)
  have l3: "lookup2 (startRehash ?d2) = lookup2 ?d2"
  proof
    fix x show "lookup2 (startRehash ?d2) x = lookup2 ?d2 x"
      using n2 by (simp add: startRehash_def lookup2_def isRehashing_def Map_get_def)
  qed
  have "r = (if Map_size (ht0 ?d2) > 1000 \<and> \<not> isRehashing ?d2 then startRehash ?d2 else ?d2)"
    using False by (simp add: r_def Let_def)
  then show ?thesis using i2 l2 i3 l3 by auto
qed

lemma dict_set_spec:
  assumes "dict_inv d"
  shows "dict_inv (dict_set d key val)" and "lookup2 (dict_set d key val) = (lookup2 d)(key \<mapsto> val)"
  using dict_set_step[OF rehashStep_inv(1)[OF assms], of key val] rehashStep_inv(2)[OF assms]
  by (simp_all add: dict_set_def Let_def)

lemma dict_delete_spec:
  assumes "dict_inv d"
  shows "fst (dict_delete d key) = (lookup2 d key \<noteq> None)"
    and "dict_inv (snd (dict_delete d key))"
    and "lookup2 (snd (dict_delete d key)) = (lookup2 d)(key := None)"
proof -
  let ?d = "rehashStep d"
  note s = rehashStep_inv[OF assms]
  have "fst (dict_delete d key) = (lookup2 d key \<noteq> None) \<and> dict_inv (snd (dict_delete d key)) \<and>
     lookup2 (snd (dict_delete d key)) = (lookup2 d)(key := None)"
  proof (cases "isRehashing ?d")
    case True
    with s(1) obtain h1 it where h: "ht1 ?d = Some h1" "rehashIterator ?d = Some it"
      by (auto simp: dict_inv_def split: option.splits)
    from s(1) True h have d0: "distinct (Map_keys (ht0 ?d))" and d1: "distinct (Map_keys h1)"
      and dj: "set (Map_keys (ht0 ?d)) \<inter> set (Map_keys h1) = {}"
      and pre: "Map_entries (take it (ht0 ?d)) = []"
      by (simp_all add: dict_inv_def)
    have r: "dict_delete d key = (Map_has h1 key \<or> Map_has (ht0 ?d) key,
           ?d\<lparr>ht1 := Some (Map_delete h1 key), ht0 := Map_delete (ht0 ?d) key\<rparr>)"
      using True h by (simp add: dict_delete_def Let_def)
    have "fst (dict_delete d key) = (lookup2 ?d key \<noteq> None)"
      using True h unfolding r by (auto simp: lookup2_def Map_has_def split: option.splits)
    moreover have "dict_inv (snd (dict_delete d key))"
      using True h d0 d1 dj pre unfolding r
      by (auto simp: dict_inv_def isRehashing_def Map_keys_delete Map_entries_take_delete)
    moreover have "lookup2 (snd (dict_delete d key)) = (lookup2 ?d)(key := None)"
    proof
      fix x show "lookup2 (snd (dict_delete d key)) x = ((lookup2 ?d)(key := None)) x"
        using True h unfolding r
        by (auto simp: lookup2_def isRehashing_def Map_get_delete split: option.splits)
    qed
    ultimately show ?thesis using s(2) by simp
  next
    case False
    have r: "dict_delete d key = (Map_has (ht0 ?d) key, ?d\<lparr>ht0 := Map_delete (ht0 ?d) key\<rparr>)"
      using False by (simp add: dict_delete_def Let_def)
    have "fst (dict_delete d key) = (lookup2 ?d key \<noteq> None)"
      using False unfolding r by (auto simp: lookup2_def Map_has_def)
    moreover have "dict_inv (snd (dict_delete d key))"
      using False s(1) unfolding r by (auto simp: dict_inv_def isRehashing_def Map_keys_delete)
    moreover have "lookup2 (snd (dict_delete d key)) = (lookup2 ?d)(key := None)"
    proof
      fix x show "lookup2 (snd (dict_delete d key)) x = ((lookup2 ?d)(key := None)) x"
        using False unfolding r by (auto simp: lookup2_def isRehashing_def Map_get_delete)
    qed
    ultimately show ?thesis using s(2) by simp
  qed
  then show "fst (dict_delete d key) = (lookup2 d key \<noteq> None)"
    and "dict_inv (snd (dict_delete d key))"
    and "lookup2 (snd (dict_delete d key)) = (lookup2 d)(key := None)" by simp_all
qed

subsection \<open>The dictionary against one plain Map\<close>

text \<open>
  A call of the dictionary's public interface and its result. \<open>plain_call\<close> is the same call
  on a single \<^verbatim>\<open>Map\<close>, the reference the dictionary is compared with.
\<close>

datatype ('k, 'v) dict_op = CSet 'k 'v | CGet 'k | CDelete 'k | CHas 'k | CKeys | CSize

datatype ('k, 'v) dict_result = RVoid | RValue "'v option" | RBool bool | RKeys "'k list" | RSize nat

fun dict_call :: "('k, 'v) dict_op \<Rightarrow> ('k, 'v) dictionary \<Rightarrow> ('k, 'v) dict_result \<times> ('k, 'v) dictionary" where
  "dict_call (CSet k v) d = (RVoid, dict_set d k v)"
| "dict_call (CGet k) d = (RValue (fst (dict_get d k)), snd (dict_get d k))"
| "dict_call (CDelete k) d = (RBool (fst (dict_delete d k)), snd (dict_delete d k))"
| "dict_call (CHas k) d = (RBool (fst (dict_has d k)), snd (dict_has d k))"
| "dict_call CKeys d = (RKeys (fst (dict_keys d)), snd (dict_keys d))"
| "dict_call CSize d = (RSize (dict_size d), d)"

fun plain_call :: "('k, 'v) dict_op \<Rightarrow> ('k, 'v) jsmap \<Rightarrow> ('k, 'v) dict_result \<times> ('k, 'v) jsmap" where
  "plain_call (CSet k v) m = (RVoid, Map_set m k v)"
| "plain_call (CGet k) m = (RValue (Map_get m k), m)"
| "plain_call (CDelete k) m = (RBool (Map_has m k), Map_delete m k)"
| "plain_call (CHas k) m = (RBool (Map_has m k), m)"
| "plain_call CKeys m = (RKeys (Map_keys m), m)"
| "plain_call CSize m = (RSize (Map_size m), m)"

fun dict_run :: "('k, 'v) dict_op list \<Rightarrow> ('k, 'v) dictionary \<Rightarrow> ('k, 'v) dict_result list \<times> ('k, 'v) dictionary" where
  "dict_run [] d = ([], d)"
| "dict_run (c # cs) d =
     (case dict_call c d of (r, d') \<Rightarrow> (case dict_run cs d' of (rs, d'') \<Rightarrow> (r # rs, d'')))"

fun plain_run :: "('k, 'v) dict_op list \<Rightarrow> ('k, 'v) jsmap \<Rightarrow> ('k, 'v) dict_result list \<times> ('k, 'v) jsmap" where
  "plain_run [] m = ([], m)"
| "plain_run (c # cs) m =
     (case plain_call c m of (r, m') \<Rightarrow> (case plain_run cs m' of (rs, m'') \<Rightarrow> (r # rs, m'')))"

fun same_result :: "('k, 'v) dict_result \<Rightarrow> ('k, 'v) dict_result \<Rightarrow> bool" where
  "same_result (RKeys a) (RKeys b) = (mset a = mset b)"
| "same_result r r' = (r = r')"

definition dict_sim :: "('k, 'v) dictionary \<Rightarrow> ('k, 'v) jsmap \<Rightarrow> bool" where
  "dict_sim d m = (dict_inv d \<and> lookup2 d = Map_get m \<and> distinct (Map_keys m))"

lemma dict_sim_keys:
  assumes "dict_sim d m"
  shows "mset (all_keys d) = mset (Map_keys m)" and "dict_size d = Map_size m"
    and "dict_size d = card (set (Map_keys m))"
proof -
  from assms have i: "dict_inv d" and l: "lookup2 d = Map_get m" and dm: "distinct (Map_keys m)"
    by (simp_all add: dict_sim_def)
  have "set (Map_keys m) = dom (Map_get m)"
    by (auto simp: dom_def Map_get_keys[symmetric])
  with all_keys_inv[OF i] l have s: "set (all_keys d) = set (Map_keys m)" by simp
  with all_keys_inv(1)[OF i] dm show m: "mset (all_keys d) = mset (Map_keys m)"
    by (simp add: set_eq_iff_mset_eq_distinct)
  then have "length (all_keys d) = length (Map_keys m)" by (metis size_mset)
  then show "dict_size d = Map_size m" by (simp add: dict_size_all_keys Map_size_keys)
  then show "dict_size d = card (set (Map_keys m))" using dm by (simp add: Map_size_keys distinct_card)
qed

lemma dict_call_sim:
  assumes "dict_sim d m"
  shows "same_result (fst (dict_call c d)) (fst (plain_call c m)) \<and>
         dict_sim (snd (dict_call c d)) (snd (plain_call c m))"
proof -
  from assms have i: "dict_inv d" and l: "lookup2 d = Map_get m" and dm: "distinct (Map_keys m)"
    by (simp_all add: dict_sim_def)
  show ?thesis
  proof (cases c)
    case (CSet k v)
    have "Map_get (Map_set m k v) = (Map_get m)(k \<mapsto> v)" by (rule ext) (simp add: Map_get_set)
    then show ?thesis using dict_set_spec[OF i, of k v] l dm CSet
      by (simp add: dict_sim_def Map_keys_set)
  next
    case (CGet k)
    then show ?thesis using dict_get_spec[OF i, of k] l dm by (simp add: dict_sim_def)
  next
    case (CDelete k)
    have "Map_get (Map_delete m k) = (Map_get m)(k := None)" by (rule ext) (simp add: Map_get_delete)
    then show ?thesis using dict_delete_spec[OF i, of k] l dm CDelete
      by (simp add: dict_sim_def Map_keys_delete Map_has_def)
  next
    case (CHas k)
    then show ?thesis using dict_has_spec[OF i, of k] l dm by (simp add: dict_sim_def Map_has_def)
  next
    case CKeys
    then show ?thesis using dict_keys_spec[OF i] dict_sim_keys(1)[OF assms] l dm
      by (simp add: dict_sim_def)
  next
    case CSize
    then show ?thesis using assms dict_sim_keys(2)[OF assms] by simp
  qed
qed

lemma dict_run_sim:
  "dict_sim d m \<Longrightarrow>
   list_all2 same_result (fst (dict_run cs d)) (fst (plain_run cs m)) \<and>
   dict_sim (snd (dict_run cs d)) (snd (plain_run cs m))"
proof (induction cs arbitrary: d m)
  case Nil
  then show ?case by simp
next
  case (Cons c cs)
  from dict_call_sim[OF Cons.prems, of c] Cons.IH[of "snd (dict_call c d)" "snd (plain_call c m)"]
  show ?case by (simp add: split_beta)
qed

lemma dict_sim_init: "dict_sim (Dictionary n) []"
  using dict_inv_Dictionary[of n] by (auto simp: dict_sim_def lookup2_Dictionary Map_get_def Map_keys_def)

text \<open>
  Claim C9, as amended: for every sequence of set, get, delete, has, keys and size calls on a
  new dictionary (so in every rehash state such a sequence reaches), each call returns what
  the same sequence returns on one plain Map, except that keys returns the same keys as a
  permutation; and size is the number of distinct live keys.
\<close>

theorem dictionary_refines_plain_map:
  "list_all2 same_result (fst (dict_run cs (Dictionary n))) (fst (plain_run cs [])) \<and>
   dict_size (snd (dict_run cs (Dictionary n))) = card (set (Map_keys (snd (plain_run cs []))))"
  using dict_run_sim[OF dict_sim_init, of cs n] dict_sim_keys(3) by blast

definition sets_upto :: "nat \<Rightarrow> (nat, unit) dict_op list" where
  "sets_upto n = map (\<lambda>k. CSet k ()) [0..<n]"

definition keys_after_1001_sets :: "(nat, unit) dict_op list" where
  "keys_after_1001_sets = sets_upto 1001 @ [CKeys]"

lemma dict_run_append:
  "dict_run (a @ b) d = (fst (dict_run a d) @ fst (dict_run b (snd (dict_run a d))),
                         snd (dict_run b (snd (dict_run a d))))"
  by (induction a arbitrary: d) (auto simp: split_beta)

lemma plain_run_append:
  "plain_run (a @ b) m = (fst (plain_run a m) @ fst (plain_run b (snd (plain_run a m))),
                         snd (plain_run b (snd (plain_run a m))))"
  by (induction a arbitrary: m) (auto simp: split_beta)

lemma Map_entries_Some: "Map_entries (map (\<lambda>k. Some (f k)) xs) = map f xs"
  by (induction xs) auto

lemma Map_keys_range: "Map_keys (map (\<lambda>k. Some (k, ())) xs) = xs"
  by (simp add: Map_keys_def Map_entries_Some comp_def)

lemma Map_set_fresh: "k \<notin> set xs \<Longrightarrow>
  Map_set (map (\<lambda>k. Some (k, ())) xs) k () = map (\<lambda>k. Some (k, ())) (xs @ [k])"
  by (simp add: Map_set_def Map_has_keys Map_keys_range)

lemma dict_sets_upto:
  "n \<le> b \<Longrightarrow> b = 1000 \<Longrightarrow> snd (dict_run (sets_upto n) (Dictionary 1)) =
     \<lparr>ht0 = map (\<lambda>k. Some (k, ())) [0..<n], ht1 = None, rehashidx = -1, rehashStepSize = 1,
      rehashIterator = None\<rparr>"
proof (induction n)
  case 0
  then show ?case by (simp add: sets_upto_def Dictionary_def)
next
  case (Suc n)
  then have IH: "snd (dict_run (sets_upto n) (Dictionary 1)) =
     \<lparr>ht0 = map (\<lambda>k. Some (k, ())) [0..<n], ht1 = None, rehashidx = -1, rehashStepSize = 1,
      rehashIterator = None\<rparr>" by simp
  have s: "sets_upto (Suc n) = sets_upto n @ [CSet n ()]" by (simp add: sets_upto_def)
  have m: "Map_set (map (\<lambda>k. Some (k, ())) [0..<n]) n () = map (\<lambda>k. Some (k, ())) [0..<Suc n]"
    using Map_set_fresh[of n "[0..<n]"] by simp
  have "\<not> 1000 < Map_size (map (\<lambda>k. Some (k, ())) [0..<Suc n])"
    using Suc.prems unfolding Map_size_keys Map_keys_range by simp
  then show ?case unfolding s dict_run_append IH
    by (simp add: dict_set_def rehashStep_def rehashStepN_def isRehashing_def Let_def m)
qed

lemma plain_sets_upto:
  "snd (plain_run (sets_upto n) []) = map (\<lambda>k. Some (k, ())) [0..<n]"
proof (induction n)
  case 0
  then show ?case by (simp add: sets_upto_def)
next
  case (Suc n)
  have s: "sets_upto (Suc n) = sets_upto n @ [CSet n ()]" by (simp add: sets_upto_def)
  have m: "Map_set (map (\<lambda>k. Some (k, ())) [0..<n]) n () = map (\<lambda>k. Some (k, ())) [0..<Suc n]"
    using Map_set_fresh[of n "[0..<n]"] by simp
  show ?case unfolding s plain_run_append Suc.IH by (simp add: m)
qed

lemma dict_after_sets:
  assumes "n = 1000"
  shows "snd (dict_run (sets_upto (Suc n)) (Dictionary 1)) =
     \<lparr>ht0 = map (\<lambda>k. Some (k, ())) [0..<Suc n], ht1 = Some [], rehashidx = 0, rehashStepSize = 1,
      rehashIterator = Some 0\<rparr>"
proof -
  have s: "sets_upto (Suc n) = sets_upto n @ [CSet n ()]" by (simp add: sets_upto_def)
  have m: "Map_set (map (\<lambda>k. Some (k, ())) [0..<n]) n () = map (\<lambda>k. Some (k, ())) [0..<Suc n]"
    using Map_set_fresh[of n "[0..<n]"] by simp
  have "1000 < Map_size (map (\<lambda>k. Some (k, ())) [0..<Suc n])"
    using assms unfolding Map_size_keys Map_keys_range by simp
  then show ?thesis unfolding s dict_run_append dict_sets_upto[OF order_refl assms]
    by (simp add: dict_set_def rehashStep_def rehashStepN_def isRehashing_def Let_def m startRehash_def)
qed

lemma dict_keys_rehashing:
  "fst (dict_keys \<lparr>ht0 = map (\<lambda>k. Some (k, ())) [0..<Suc n], ht1 = Some [], rehashidx = 0,
      rehashStepSize = Suc 0, rehashIterator = Some 0\<rparr>) = [Suc 0..<Suc n] @ [0]"
proof -
  define ms :: "(nat, unit) jsmap" where "ms = map (\<lambda>k. Some (k, ())) [Suc 0..<Suc n]"
  have u: "map (\<lambda>k. Some (k, ())) [0..<Suc n] = Some (0, ()) # ms"
    unfolding ms_def by (simp add: upt_conv_Cons del: upt_Suc)
  have d: "map (slot_delete 0) ms = ms"
    unfolding ms_def by (rule map_idI) auto
  have k: "Map_keys (None # ms) = [Suc 0..<Suc n]"
    using Map_keys_range[of "[Suc 0..<Suc n]"] by (simp add: Map_keys_def ms_def)
  have k1: "Map_keys [Some (0::nat, ())] = [0]" by (simp add: Map_keys_def)
  have s1: "Map_set [] (0::nat) () = [Some (0, ())]"
    by (simp add: Map_set_def Map_has_def Map_get_def)
  have "rehashStep \<lparr>ht0 = Some (0, ()) # ms, ht1 = Some [], rehashidx = 0,
      rehashStepSize = Suc 0, rehashIterator = Some 0\<rparr> =
     \<lparr>ht0 = None # ms, ht1 = Some [Some (0, ())], rehashidx = 1,
      rehashStepSize = Suc 0, rehashIterator = Some (Suc 0)\<rparr>"
    by (simp add: rehashStep_def rehashStepN_def isRehashing_def iter_next_def s1 Map_delete_def d)
  then show ?thesis unfolding u
    by (simp add: dict_keys_def Let_def isRehashing_def k k1)
qed

lemma keys_order_differs: "[1..<Suc (Suc n)] @ [0] \<noteq> [0..<Suc (Suc n)]"
proof
  assume "[1..<Suc (Suc n)] @ [0] = [0..<Suc (Suc n)]"
  then have "hd ([1..<Suc (Suc n)] @ [0]) = hd [0..<Suc (Suc n)]" by simp
  then show False by (simp add: upt_conv_Cons del: upt_Suc)
qed

text \<open>
  Claim C9 as stated fails on the order of keys: after 1001 insertions the rehash has started,
  the first keys call migrates key 0 into the second table and returns it last, while a plain
  Map returns the keys in insertion order.
\<close>

theorem keys_order_counterexample:
  "fst (dict_run keys_after_1001_sets (Dictionary 1)) \<noteq> fst (plain_run keys_after_1001_sets [])"
proof
  assume a: "fst (dict_run keys_after_1001_sets (Dictionary 1)) = fst (plain_run keys_after_1001_sets [])"
  obtain n :: nat where n: "n = 1000" by simp
  then have e: "(1001::nat) = Suc n" by simp
  from a have "last (fst (dict_run keys_after_1001_sets (Dictionary 1))) =
             last (fst (plain_run keys_after_1001_sets []))" by simp
  then have "[1..<Suc n] @ [0] = [0..<Suc n]"
    unfolding keys_after_1001_sets_def e dict_run_append plain_run_append plain_sets_upto
      dict_after_sets[OF n]
    using dict_keys_rehashing[of n] by (simp add: Map_keys_range del: upt_Suc)
  moreover from n obtain k where "n = Suc k" by (cases n) auto
  ultimately show False using keys_order_differs[of k] by simp
qed

section \<open>Numbers, time and randomness\<close>

text \<open>
  A score is a host-language number: NaN, an infinity or a finite value. Finite values are
  reals; rounding is not modelled. The code only compares scores and takes the sign of a
  difference of two distinct scores, and the floating-point difference of two distinct
  finite numbers has the sign of the exact difference. \<open>num_eq\<close> is \<^verbatim>\<open>===\<close>,
  \<open>num_lt\<close> is \<^verbatim>\<open><\<close>, \<open>num_le\<close> is \<^verbatim>\<open><=\<close>: all are false on NaN.
\<close>

datatype number = NaN | NegInf | Fin real | PosInf

fun num_eq :: "number \<Rightarrow> number \<Rightarrow> bool" where
  "num_eq NaN b = False"
| "num_eq a NaN = False"
| "num_eq a b = (a = b)"

fun num_lt :: "number \<Rightarrow> number \<Rightarrow> bool" where
  "num_lt NaN b = False"
| "num_lt a NaN = False"
| "num_lt PosInf b = False"
| "num_lt a NegInf = False"
| "num_lt NegInf b = True"
| "num_lt a PosInf = True"
| "num_lt (Fin x) (Fin y) = (x < y)"

definition num_le :: "number \<Rightarrow> number \<Rightarrow> bool" where
  "num_le a b = (num_lt a b \<or> num_eq a b)"

fun num_sub :: "number \<Rightarrow> number \<Rightarrow> number" where
  "num_sub NaN b = NaN"
| "num_sub a NaN = NaN"
| "num_sub PosInf PosInf = NaN"
| "num_sub NegInf NegInf = NaN"
| "num_sub PosInf b = PosInf"
| "num_sub NegInf b = NegInf"
| "num_sub a PosInf = NegInf"
| "num_sub a NegInf = PosInf"
| "num_sub (Fin x) (Fin y) = Fin (x - y)"

text \<open>
  \<^verbatim>\<open>Math.random()\<close> is an input of the model: a sequence of reals. A draw returns the
  fractional part of the head, so every draw lies in the interval from 0 (inclusive) to 1
  (exclusive) whatever the sequence is, and the rest of the sequence.
\<close>

type_synonym random_source = "nat \<Rightarrow> real"

definition Math_random :: "random_source \<Rightarrow> real \<times> random_source" where
  "Math_random r = (frac (r 0), \<lambda>n. r (Suc n))"

section \<open>Skip list\<close>

subsection \<open>utils: randomLevel and compareScoreMember\<close>

function randomLevelLoop :: "nat \<Rightarrow> nat \<Rightarrow> random_source \<Rightarrow> nat \<times> random_source" where
  "randomLevelLoop maxLevel lvl r =
     (case Math_random r of (u, r') \<Rightarrow>
        if u < 0.25 \<and> lvl < maxLevel then randomLevelLoop maxLevel (lvl + 1) r' else (lvl, r'))"
  by pat_completeness auto
termination
  by (relation "measure (\<lambda>(maxLevel, lvl, r). maxLevel - lvl)") auto

declare randomLevelLoop.simps [simp del]

definition randomLevel :: "nat \<Rightarrow> random_source \<Rightarrow> nat \<times> random_source" where
  "randomLevel maxLevel r = randomLevelLoop maxLevel 1 r"

definition compareScoreMember :: "number \<Rightarrow> string \<Rightarrow> number \<Rightarrow> string \<Rightarrow> number" where
  "compareScoreMember score1 member1 score2 member2 =
     (if \<not> num_eq score1 score2 then num_sub score1 score2
      else if member1 < member2 then Fin (-1) else if member1 > member2 then Fin 1 else Fin 0)"

subsection \<open>Nodes in a heap\<close>

text \<open>
  Nodes are objects shared between the forward arrays of several levels, so they live in an
  explicit heap: a list of nodes indexed by address. Allocation appends; the header of a skip
  list is allocated first, at address 0. A pointer is an address or \<open>None\<close> (null).
\<close>

record SkipListNode =
  score :: number
  member :: string
  nlevel :: nat
  forward :: "nat option list"
  spans :: "int list"
  backward :: "nat option"

definition new_SkipListNode :: "number \<Rightarrow> string \<Rightarrow> nat \<Rightarrow> SkipListNode" where
  "new_SkipListNode sc mb lvl =
     \<lparr>score = sc, member = mb, nlevel = lvl, forward = replicate lvl None,
      spans = replicate lvl 0, backward = None\<rparr>"

record SkipList =
  maxLevel :: nat
  level :: nat
  header :: nat
  tail :: "nat option"
  slength :: int
  heap :: "SkipListNode list"

definition new_SkipList :: SkipList where
  "new_SkipList =
     \<lparr>maxLevel = 32, level = 1, header = 0, tail = None, slength = 0,
      heap = [new_SkipListNode NegInf [] 32]\<rparr>"

text \<open>\<open>fwd h x i\<close> is \<^verbatim>\<open>x.forward[i]\<close>; an index past the array reads as undefined, which the
  loops treat like null.\<close>

definition fwd :: "SkipListNode list \<Rightarrow> nat \<Rightarrow> nat \<Rightarrow> nat option" where
  "fwd h x i = (if i < length (forward (h ! x)) then forward (h ! x) ! i else None)"

definition setForward :: "SkipListNode list \<Rightarrow> nat \<Rightarrow> nat \<Rightarrow> nat option \<Rightarrow> SkipListNode list" where
  "setForward h x i v = h[x := (h ! x)\<lparr>forward := (forward (h ! x))[i := v]\<rparr>]"

definition setSpan :: "SkipListNode list \<Rightarrow> nat \<Rightarrow> nat \<Rightarrow> int \<Rightarrow> SkipListNode list" where
  "setSpan h x i v = h[x := (h ! x)\<lparr>spans := (spans (h ! x))[i := v]\<rparr>]"

definition setBackward :: "SkipListNode list \<Rightarrow> nat \<Rightarrow> nat option \<Rightarrow> SkipListNode list" where
  "setBackward h x v = h[x := (h ! x)\<lparr>backward := v\<rparr>]"

definition lessThanKey :: "SkipListNode list \<Rightarrow> nat \<Rightarrow> number \<Rightarrow> string \<Rightarrow> bool" where
  "lessThanKey h y sc mb = num_lt (compareScoreMember (score (h ! y)) (member (h ! y)) sc mb) (Fin 0)"

definition atMostKey :: "SkipListNode list \<Rightarrow> nat \<Rightarrow> number \<Rightarrow> string \<Rightarrow> bool" where
  "atMostKey h y sc mb = num_le (compareScoreMember (score (h ! y)) (member (h ! y)) sc mb) (Fin 0)"

subsection \<open>insert\<close>

text \<open>
  The loops that follow forward pointers end only if the chain ends, so they are partial:
  \<open>None\<close> is a walk that does not return. The result type of every operation built on them is
  an option for that reason; \<open>None\<close> also stands for the run-time error of dereferencing a
  null \<^verbatim>\<open>update[i]\<close>.
\<close>

partial_function (option) insertWalk ::
  "SkipListNode list \<Rightarrow> nat \<Rightarrow> number \<Rightarrow> string \<Rightarrow> nat \<Rightarrow> int \<Rightarrow> (nat \<times> int) option" where
  "insertWalk h i sc mb x r =
     (case fwd h x i of
        None \<Rightarrow> Some (x, r)
      | Some y \<Rightarrow>
          if lessThanKey h y sc mb then insertWalk h i sc mb y (r + spans (h ! x) ! i)
          else Some (x, r))"

declare insertWalk.simps [code]

text \<open>The \<^verbatim>\<open>for (i = level - 1; i >= 0; i--)\<close> loop; the first argument is \<open>i + 1\<close>.\<close>

fun insertSearch ::
  "nat \<Rightarrow> SkipListNode list \<Rightarrow> nat \<Rightarrow> number \<Rightarrow> string \<Rightarrow> nat \<Rightarrow> nat option list \<Rightarrow> int list \<Rightarrow>
   (nat option list \<times> int list) option" where
  "insertSearch 0 h lvl sc mb x update rank = Some (update, rank)"
| "insertSearch (Suc i) h lvl sc mb x update rank =
     (case insertWalk h i sc mb x (if i = lvl - 1 then 0 else rank ! (i + 1)) of
        None \<Rightarrow> None
      | Some (x', r) \<Rightarrow> insertSearch i h lvl sc mb x' (update[i := Some x']) (rank[i := r]))"

text \<open>The loop over the new top levels when \<^verbatim>\<open>newLevel > this.level\<close>.\<close>

fun raiseLevels ::
  "nat list \<Rightarrow> SkipList \<Rightarrow> nat option list \<Rightarrow> int list \<Rightarrow> SkipListNode list \<times> nat option list \<times> int list" where
  "raiseLevels [] sl update rank = (heap sl, update, rank)"
| "raiseLevels (i # is) sl update rank =
     raiseLevels is (sl\<lparr>heap := setSpan (heap sl) (header sl) i (slength sl)\<rparr>)
       (update[i := Some (header sl)]) (rank[i := 0])"

text \<open>The splice loop \<^verbatim>\<open>for (i = 0; i < newLevel; i++)\<close>, over the list of its indices.\<close>

fun spliceLevels ::
  "nat list \<Rightarrow> nat \<Rightarrow> nat option list \<Rightarrow> int list \<Rightarrow> SkipListNode list \<Rightarrow> SkipListNode list option" where
  "spliceLevels [] newNode update rank h = Some h"
| "spliceLevels (i # is) newNode update rank h =
     (case update ! i of
        None \<Rightarrow> None
      | Some u \<Rightarrow>
          (let h1 = setForward h newNode i (fwd h u i);
               h2 = setForward h1 u i (Some newNode);
               h3 = setSpan h2 newNode i (spans (h2 ! u) ! i - (rank ! 0 - rank ! i));
               h4 = setSpan h3 u i ((rank ! 0 - rank ! i) + 1)
           in spliceLevels is newNode update rank h4))"

text \<open>The loop \<^verbatim>\<open>for (i = newLevel; i < this.level; i++) update[i].span[i]++\<close>.\<close>

fun bumpSpans :: "nat list \<Rightarrow> nat option list \<Rightarrow> SkipListNode list \<Rightarrow> SkipListNode list option" where
  "bumpSpans [] update h = Some h"
| "bumpSpans (i # is) update h =
     (case update ! i of
        None \<Rightarrow> None
      | Some u \<Rightarrow> bumpSpans is update (setSpan h u i (spans (h ! u) ! i + 1)))"

definition SkipList_insert ::
  "SkipList \<Rightarrow> number \<Rightarrow> string \<Rightarrow> random_source \<Rightarrow> (nat \<times> SkipList \<times> random_source) option" where
  "SkipList_insert sl sc mb rnd =
     (case insertSearch (level sl) (heap sl) (level sl) sc mb (header sl)
             (replicate (maxLevel sl) None) (replicate (maxLevel sl) 0) of
        None \<Rightarrow> None
      | Some (update0, rank0) \<Rightarrow>
          (case randomLevel (maxLevel sl) rnd of (newLevel, rnd') \<Rightarrow>
           (case (if newLevel > level sl
                  then (case raiseLevels [level sl..<newLevel] sl update0 rank0 of
                          (h, u, r) \<Rightarrow> (h, u, r, newLevel))
                  else (heap sl, update0, rank0, level sl)) of
              (h0, update, rank, lvl) \<Rightarrow>
                (let newNode = length h0;
                     h1 = h0 @ [new_SkipListNode sc mb newLevel]
                 in case spliceLevels [0..<newLevel] newNode update rank h1 of
                      None \<Rightarrow> None
                    | Some h2 \<Rightarrow>
                        (case bumpSpans [newLevel..<lvl] update h2 of
                           None \<Rightarrow> None
                         | Some h3 \<Rightarrow>
                             (case update ! 0 of
                                None \<Rightarrow> None
                              | Some u0 \<Rightarrow>
                                  (let h4 = setBackward h3 newNode
                                              (if u0 = header sl then None else Some u0)
                                   in case fwd h4 newNode 0 of
                                        Some nx \<Rightarrow>
                                          Some (newNode,
                                                sl\<lparr>level := lvl, slength := slength sl + 1,
                                                   heap := setBackward h4 nx (Some newNode)\<rparr>,
                                                rnd')
                                      | None \<Rightarrow>
                                          Some (newNode,
                                                sl\<lparr>level := lvl, tail := Some newNode,
                                                   slength := slength sl + 1, heap := h4\<rparr>,
                                                rnd'))))))))"


subsection \<open>delete\<close>

partial_function (option) deleteWalk ::
  "SkipListNode list \<Rightarrow> nat \<Rightarrow> number \<Rightarrow> string \<Rightarrow> nat \<Rightarrow> nat option" where
  "deleteWalk h i sc mb x =
     (case fwd h x i of
        None \<Rightarrow> Some x
      | Some y \<Rightarrow> if lessThanKey h y sc mb then deleteWalk h i sc mb y else Some x)"

declare deleteWalk.simps [code]

fun deleteSearch ::
  "nat \<Rightarrow> SkipListNode list \<Rightarrow> number \<Rightarrow> string \<Rightarrow> nat \<Rightarrow> nat option list \<Rightarrow>
   nat option list option" where
  "deleteSearch 0 h sc mb x update = Some update"
| "deleteSearch (Suc i) h sc mb x update =
     (case deleteWalk h i sc mb x of
        None \<Rightarrow> None
      | Some x' \<Rightarrow> deleteSearch i h sc mb x' (update[i := Some x']))"

text \<open>The unlink loop \<^verbatim>\<open>for (i = 0; i < this.level; i++)\<close> for the victim \<open>x\<close>.\<close>

fun unlinkLevels ::
  "nat list \<Rightarrow> nat \<Rightarrow> nat option list \<Rightarrow> SkipListNode list \<Rightarrow> SkipListNode list option" where
  "unlinkLevels [] x update h = Some h"
| "unlinkLevels (i # is) x update h =
     (case update ! i of
        None \<Rightarrow> None
      | Some u \<Rightarrow>
          if fwd h u i = Some x
          then unlinkLevels is x update
                 (setForward (setSpan h u i (spans (h ! u) ! i + (spans (h ! x) ! i - 1))) u i (fwd h x i))
          else unlinkLevels is x update (setSpan h u i (spans (h ! u) ! i - 1)))"

text \<open>\<^verbatim>\<open>while (this.level > 1 && !this.header.forward[this.level - 1]) this.level--\<close>\<close>

fun trimLevel :: "SkipListNode list \<Rightarrow> nat \<Rightarrow> nat \<Rightarrow> nat" where
  "trimLevel h hdr lvl =
     (if lvl > 1 \<and> fwd h hdr (lvl - 1) = None then trimLevel h hdr (lvl - 1) else lvl)"

declare trimLevel.simps [simp del]

definition SkipList_delete :: "SkipList \<Rightarrow> number \<Rightarrow> string \<Rightarrow> (bool \<times> SkipList) option" where
  "SkipList_delete sl sc mb =
     (case deleteSearch (level sl) (heap sl) sc mb (header sl) (replicate (maxLevel sl) None) of
        None \<Rightarrow> None
      | Some update \<Rightarrow>
          (case update ! 0 of
             None \<Rightarrow> None
           | Some u0 \<Rightarrow>
               (case fwd (heap sl) u0 0 of
                  None \<Rightarrow> Some (False, sl)
                | Some x \<Rightarrow>
                    if \<not> num_eq (score (heap sl ! x)) sc \<or> member (heap sl ! x) \<noteq> mb
                    then Some (False, sl)
                    else
                      (case unlinkLevels [0..<level sl] x update (heap sl) of
                         None \<Rightarrow> None
                       | Some h1 \<Rightarrow>
                           (let sl1 = (case fwd h1 x 0 of
                                         Some nx \<Rightarrow> sl\<lparr>heap := setBackward h1 nx (backward (h1 ! x))\<rparr>
                                       | None \<Rightarrow> sl\<lparr>tail := backward (h1 ! x), heap := h1\<rparr>)
                            in Some (True,
                                     sl1\<lparr>level := trimLevel (heap sl1) (header sl1) (level sl1),
                                         slength := slength sl1 - 1\<rparr>))))))"

subsection \<open>getRank and getByScoreRange\<close>

text \<open>The inner loop of \<^verbatim>\<open>getRank\<close>: \<open>Inl\<close> is the early \<^verbatim>\<open>return rank - 1\<close>, \<open>Inr\<close> the loop's
  normal end with the node and rank reached.\<close>

partial_function (option) rankWalk ::
  "SkipListNode list \<Rightarrow> nat \<Rightarrow> number \<Rightarrow> string \<Rightarrow> nat \<Rightarrow> int \<Rightarrow> (int + nat \<times> int) option" where
  "rankWalk h i sc mb x rank =
     (case fwd h x i of
        None \<Rightarrow> Some (Inr (x, rank))
      | Some y \<Rightarrow>
          if atMostKey h y sc mb
          then (if num_eq (score (h ! y)) sc \<and> member (h ! y) = mb
                then Some (Inl (rank + spans (h ! x) ! i - 1))
                else rankWalk h i sc mb y (rank + spans (h ! x) ! i))
          else Some (Inr (x, rank)))"

declare rankWalk.simps [code]

fun rankSearch :: "nat \<Rightarrow> SkipListNode list \<Rightarrow> number \<Rightarrow> string \<Rightarrow> nat \<Rightarrow> int \<Rightarrow> int option" where
  "rankSearch 0 h sc mb x rank = Some (-1)"
| "rankSearch (Suc i) h sc mb x rank =
     (case rankWalk h i sc mb x rank of
        None \<Rightarrow> None
      | Some (Inl r) \<Rightarrow> Some r
      | Some (Inr (x', rank')) \<Rightarrow> rankSearch i h sc mb x' rank')"

definition SkipList_getRank :: "SkipList \<Rightarrow> number \<Rightarrow> string \<Rightarrow> int option" where
  "SkipList_getRank sl sc mb = rankSearch (level sl) (heap sl) sc mb (header sl) 0"

partial_function (option) skipBelow :: "SkipListNode list \<Rightarrow> number \<Rightarrow> nat option \<Rightarrow> nat option option" where
  "skipBelow h mn x =
     (case x of
        None \<Rightarrow> Some None
      | Some a \<Rightarrow> if num_lt (score (h ! a)) mn then skipBelow h mn (fwd h a 0) else Some (Some a))"

declare skipBelow.simps [code]

text \<open>\<open>limit\<close> is a number; the default \<^verbatim>\<open>Infinity\<close> is \<open>PosInf\<close>.\<close>

partial_function (option) collectRange ::
  "SkipListNode list \<Rightarrow> number \<Rightarrow> number \<Rightarrow> nat option \<Rightarrow> (string \<times> number) list \<Rightarrow>
   (string \<times> number) list option" where
  "collectRange h mx limit x result =
     (case x of
        None \<Rightarrow> Some result
      | Some a \<Rightarrow>
          if num_le (score (h ! a)) mx \<and> num_lt (Fin (real (length result))) limit
          then collectRange h mx limit (fwd h a 0) (result @ [(member (h ! a), score (h ! a))])
          else Some result)"

declare collectRange.simps [code]

definition SkipList_getByScoreRange ::
  "SkipList \<Rightarrow> number \<Rightarrow> number \<Rightarrow> number option \<Rightarrow> (string \<times> number) list option" where
  "SkipList_getByScoreRange sl mn mx limit =
     (case skipBelow (heap sl) mn (fwd (heap sl) (header sl) 0) of
        None \<Rightarrow> None
      | Some x \<Rightarrow>
          collectRange (heap sl) mx (case limit of None \<Rightarrow> PosInf | Some l \<Rightarrow> l) x [])"

section \<open>ZSet: member index and skip list\<close>

record ZSet =
  dict :: "(string, number) jsmap"
  skiplist :: SkipList

definition new_ZSet :: ZSet where
  "new_ZSet = \<lparr>dict = [], skiplist = new_SkipList\<rparr>"

definition ZSet_zadd :: "ZSet \<Rightarrow> string \<Rightarrow> number \<Rightarrow> random_source \<Rightarrow> (bool \<times> ZSet \<times> random_source) option" where
  "ZSet_zadd z mb sc rnd =
     (case Map_get (dict z) mb of
        Some existing \<Rightarrow>
          if num_eq existing sc then Some (False, z, rnd)
          else
            (case SkipList_delete (skiplist z) existing mb of
               None \<Rightarrow> None
             | Some (_, sl1) \<Rightarrow>
                 (case SkipList_insert sl1 sc mb rnd of
                    None \<Rightarrow> None
                  | Some (_, sl2, rnd') \<Rightarrow>
                      Some (False, \<lparr>dict = Map_set (dict z) mb sc, skiplist = sl2\<rparr>, rnd')))
      | None \<Rightarrow>
          (case SkipList_insert (skiplist z) sc mb rnd of
             None \<Rightarrow> None
           | Some (_, sl2, rnd') \<Rightarrow>
               Some (True, \<lparr>dict = Map_set (dict z) mb sc, skiplist = sl2\<rparr>, rnd')))"

definition ZSet_zrem :: "ZSet \<Rightarrow> string \<Rightarrow> (bool \<times> ZSet) option" where
  "ZSet_zrem z mb =
     (case Map_get (dict z) mb of
        None \<Rightarrow> Some (False, z)
      | Some sc \<Rightarrow>
          (case SkipList_delete (skiplist z) sc mb of
             None \<Rightarrow> None
           | Some (_, sl1) \<Rightarrow> Some (True, \<lparr>dict = Map_delete (dict z) mb, skiplist = sl1\<rparr>)))"

definition ZSet_zscore :: "ZSet \<Rightarrow> string \<Rightarrow> number option" where
  "ZSet_zscore z mb = Map_get (dict z) mb"

definition ZSet_zrank :: "ZSet \<Rightarrow> string \<Rightarrow> int option option" where
  "ZSet_zrank z mb =
     (case Map_get (dict z) mb of
        None \<Rightarrow> Some None
      | Some sc \<Rightarrow> map_option Some (SkipList_getRank (skiplist z) sc mb))"

definition ZSet_zrangeByScore ::
  "ZSet \<Rightarrow> number \<Rightarrow> number \<Rightarrow> number option \<Rightarrow> (string \<times> number) list option" where
  "ZSet_zrangeByScore z mn mx limit = SkipList_getByScoreRange (skiplist z) mn mx limit"

definition ZSet_zcard :: "ZSet \<Rightarrow> nat" where
  "ZSet_zcard z = Map_size (dict z)"

section \<open>IntSet: sorted integer array\<close>

text \<open>A member handed to \<^verbatim>\<open>sadd\<close> is any value; the model has numbers and strings.\<close>

datatype member_value = MNum number | MStr string

fun isInteger :: "member_value \<Rightarrow> bool" where
  "isInteger (MNum (Fin x)) = (real_of_int \<lfloor>x\<rfloor> = x)"
| "isInteger v = False"

fun intOf :: "member_value \<Rightarrow> int" where
  "intOf (MNum (Fin x)) = \<lfloor>x\<rfloor>"
| "intOf v = 0"

record IntSet =
  data :: "int list"
  maxSize :: nat
  isIntSet :: bool

definition new_IntSet :: "nat \<Rightarrow> IntSet" where
  "new_IntSet n = \<lparr>data = [], maxSize = n, isIntSet = True\<rparr>"

datatype add_result = Upgrade | AddedTrue | ExistsFalse

text \<open>The binary search of \<^verbatim>\<open>add\<close>: \<open>None\<close> when the value is found (the early
  \<^verbatim>\<open>return false\<close>), otherwise the insertion point \<open>low\<close>.\<close>

function intsetSearch :: "int list \<Rightarrow> int \<Rightarrow> nat \<Rightarrow> nat \<Rightarrow> nat option" where
  "intsetSearch d v low high =
     (if low < high then
        (let mid = (low + high) div 2 in
         if d ! mid = v then None
         else if d ! mid < v then intsetSearch d v (mid + 1) high
         else intsetSearch d v low mid)
      else Some low)"
  by pat_completeness auto
termination
  by (relation "measure (\<lambda>(d, v, low, high). high - low)") auto

declare intsetSearch.simps [simp del]

definition IntSet_add :: "IntSet \<Rightarrow> member_value \<Rightarrow> add_result \<times> IntSet" where
  "IntSet_add s v =
     (if \<not> isInteger v then (Upgrade, s)
      else case intsetSearch (data s) (intOf v) 0 (length (data s)) of
             None \<Rightarrow> (ExistsFalse, s)
           | Some low \<Rightarrow>
               if length (data s) \<ge> maxSize s then (Upgrade, s)
               else (AddedTrue, s\<lparr>data := take low (data s) @ [intOf v] @ drop low (data s)\<rparr>))"

definition IntSet_size :: "IntSet \<Rightarrow> nat" where
  "IntSet_size s = length (data s)"

definition IntSet_values :: "IntSet \<Rightarrow> member_value list" where
  "IntSet_values s = map (\<lambda>i. MNum (Fin (of_int i))) (data s)"

text \<open>\<^verbatim>\<open>new Set(this.data)\<close>: a Set is the list of its distinct members in insertion order.\<close>

definition Set_add :: "'a list \<Rightarrow> 'a \<Rightarrow> 'a list" where
  "Set_add xs x = (if x \<in> set xs then xs else xs @ [x])"

definition upgradeToSet :: "IntSet \<Rightarrow> member_value list" where
  "upgradeToSet s = foldl Set_add [] (IntSet_values s)"

section \<open>TTL manager\<close>

text \<open>A Map iterator that has reported done stays done.\<close>

datatype map_iterator = At nat | Done

fun iter_step :: "'a option list \<Rightarrow> map_iterator \<Rightarrow> 'a option \<times> map_iterator" where
  "iter_step m Done = (None, Done)"
| "iter_step m (At i) = (case iter_next m i of None \<Rightarrow> (None, Done) | Some (e, j) \<Rightarrow> (Some e, At j))"

text \<open>The arguments of \<^verbatim>\<open>startActiveExpiration\<close> that the running timer holds.\<close>

record timer =
  intervalMs :: int
  sampleSize :: nat
  maxRounds :: nat

record TTLManager =
  expirations :: "(string, int) jsmap"
  interval :: "timer option"
  keyIterator :: "map_iterator option"
  pendingDeletes :: "string list"

definition new_TTLManager :: TTLManager where
  "new_TTLManager = \<lparr>expirations = [], interval = None, keyIterator = None, pendingDeletes = []\<rparr>"

definition TTL_set :: "TTLManager \<Rightarrow> string \<Rightarrow> int \<Rightarrow> TTLManager" where
  "TTL_set t key expiresAtMs = t\<lparr>expirations := Map_set (expirations t) key expiresAtMs\<rparr>"

definition TTL_delete :: "TTLManager \<Rightarrow> string \<Rightarrow> TTLManager" where
  "TTL_delete t key = t\<lparr>expirations := Map_delete (expirations t) key\<rparr>"

definition isExpired :: "TTLManager \<Rightarrow> int \<Rightarrow> string \<Rightarrow> bool" where
  "isExpired t now key =
     (case Map_get (expirations t) key of None \<Rightarrow> False | Some expiresAt \<Rightarrow> now \<ge> expiresAt)"

text \<open>One visited key of the sampling loop: \<^verbatim>\<open>if (expiresAt && now >= expiresAt)\<close>, where a
  deadline 0 or a missing one is falsy.\<close>

definition sampleVisit ::
  "(string, int) jsmap \<Rightarrow> int \<Rightarrow> string \<Rightarrow> string list \<Rightarrow> nat \<Rightarrow> string list \<times> nat" where
  "sampleVisit exps now key pending cnt =
     (case Map_get exps key of
        Some expiresAt \<Rightarrow>
          if expiresAt \<noteq> 0 \<and> now \<ge> expiresAt then (pending @ [key], cnt + 1) else (pending, cnt)
      | None \<Rightarrow> (pending, cnt))"

text \<open>The \<^verbatim>\<open>for (i = 0; i < k; i++)\<close> loop of \<^verbatim>\<open>sampleAndPurge\<close>; the first argument is
  \<open>k - i\<close>. It returns the iterator, the pending buffer and the expired count.\<close>

fun sampleLoop ::
  "nat \<Rightarrow> (string, int) jsmap \<Rightarrow> int \<Rightarrow> map_iterator \<Rightarrow> string list \<Rightarrow> nat \<Rightarrow>
   map_iterator \<times> string list \<times> nat" where
  "sampleLoop 0 exps now it pending cnt = (it, pending, cnt)"
| "sampleLoop (Suc k) exps now it pending cnt =
     (case iter_step exps it of
        (None, _) \<Rightarrow>
          (case iter_step exps (At 0) of
             (None, it') \<Rightarrow> (it', pending, cnt)
           | (Some (key, _), it') \<Rightarrow>
               (case sampleVisit exps now key pending cnt of
                  (pending', cnt') \<Rightarrow> sampleLoop k exps now it' pending' cnt'))
      | (Some (key, _), it') \<Rightarrow>
          (case sampleVisit exps now key pending cnt of
             (pending', cnt') \<Rightarrow> sampleLoop k exps now it' pending' cnt'))"

text \<open>
  \<^verbatim>\<open>sampleAndPurge\<close> and the flush call \<^verbatim>\<open>onExpire\<close>, the owner's callback, which mutates the
  owner and through it this manager. The functions are therefore written over the owner's
  state \<open>'s\<close>, with the manager read and written through a getter and a setter.
\<close>

definition flushPending ::
  "('s \<Rightarrow> TTLManager) \<Rightarrow> (TTLManager \<Rightarrow> 's \<Rightarrow> 's) \<Rightarrow> (string \<Rightarrow> 's \<Rightarrow> 's) \<Rightarrow> 's \<Rightarrow> 's" where
  "flushPending getT putT onExpire s =
     (let s' = fold onExpire (pendingDeletes (getT s)) s
      in putT ((getT s')\<lparr>pendingDeletes := []\<rparr>) s')"

definition sampleAndPurge ::
  "('s \<Rightarrow> TTLManager) \<Rightarrow> (TTLManager \<Rightarrow> 's \<Rightarrow> 's) \<Rightarrow> nat \<Rightarrow> int \<Rightarrow> (string \<Rightarrow> 's \<Rightarrow> 's) \<Rightarrow> 's \<Rightarrow>
   nat \<times> 's" where
  "sampleAndPurge getT putT k now onExpire s =
     (let t = getT s in
      if Map_size (expirations t) = 0 then (0, s)
      else
        (case sampleLoop k (expirations t) now
                (case keyIterator t of None \<Rightarrow> At 0 | Some it \<Rightarrow> it) (pendingDeletes t) 0 of
           (it', pending', cnt) \<Rightarrow>
             (let s1 = putT (t\<lparr>keyIterator := Some it', pendingDeletes := pending'\<rparr>) s
              in if length pending' \<ge> 100 then (cnt, flushPending getT putT onExpire s1)
                 else (cnt, s1))))"

definition flushPendingDeletes ::
  "('s \<Rightarrow> TTLManager) \<Rightarrow> (TTLManager \<Rightarrow> 's \<Rightarrow> 's) \<Rightarrow> (string \<Rightarrow> 's \<Rightarrow> 's) \<Rightarrow> 's \<Rightarrow> 's" where
  "flushPendingDeletes getT putT onExpire s =
     (if length (pendingDeletes (getT s)) > 0 then flushPending getT putT onExpire s else s)"

text \<open>\<^verbatim>\<open>startActiveExpiration(onExpire, intervalMs = 100, sampleSize = 20, maxRounds = 4)\<close>:
  an omitted argument is \<open>None\<close> and takes the default.\<close>

definition startActiveExpiration :: "TTLManager \<Rightarrow> int option \<Rightarrow> nat option \<Rightarrow> nat option \<Rightarrow> TTLManager" where
  "startActiveExpiration t intervalArg sampleArg roundsArg =
     (case interval t of
        Some _ \<Rightarrow> t
      | None \<Rightarrow>
          t\<lparr>interval := Some \<lparr>intervalMs = (case intervalArg of None \<Rightarrow> 100 | Some v \<Rightarrow> v),
                               sampleSize = (case sampleArg of None \<Rightarrow> 20 | Some v \<Rightarrow> v),
                               maxRounds = (case roundsArg of None \<Rightarrow> 4 | Some v \<Rightarrow> v)\<rparr>\<rparr>)"

definition stopActiveExpiration :: "TTLManager \<Rightarrow> TTLManager" where
  "stopActiveExpiration t = t\<lparr>interval := None\<rparr>"

text \<open>
  The body of the timer callback, one tick: the \<^verbatim>\<open>do ... while\<close> loop. \<open>rounds\<close> counts the
  rounds done. Besides the state it returns, for each round it ran, the number of keys sampled
  and the number found expired.
\<close>

function activeRounds ::
  "('s \<Rightarrow> TTLManager) \<Rightarrow> (TTLManager \<Rightarrow> 's \<Rightarrow> 's) \<Rightarrow> (string \<Rightarrow> 's \<Rightarrow> 's) \<Rightarrow> nat \<Rightarrow> nat \<Rightarrow> int \<Rightarrow>
   nat \<Rightarrow> 's \<Rightarrow> (nat \<times> nat) list \<times> 's" where
  "activeRounds getT putT onExpire smpSize mxRounds now rounds s =
     (let sampled = min smpSize (Map_size (expirations (getT s))) in
      if sampled = 0 then ([], s)
      else
        (case sampleAndPurge getT putT sampled now onExpire s of
           (expiredCount, s') \<Rightarrow>
             if real expiredCount > real sampled * 0.25 \<and> rounds + 1 < mxRounds
             then (case activeRounds getT putT onExpire smpSize mxRounds now (rounds + 1) s' of
                     (tr, s'') \<Rightarrow> ((sampled, expiredCount) # tr, s''))
             else ([(sampled, expiredCount)], s')))"
  by pat_completeness auto
termination
  by (relation "measure (\<lambda>(getT, putT, onExpire, smpSize, mxRounds, now, rounds, s). mxRounds - rounds)") auto

declare activeRounds.simps [simp del]

definition activeExpirationTick ::
  "('s \<Rightarrow> TTLManager) \<Rightarrow> (TTLManager \<Rightarrow> 's \<Rightarrow> 's) \<Rightarrow> (string \<Rightarrow> 's \<Rightarrow> 's) \<Rightarrow> int \<Rightarrow> 's \<Rightarrow>
   (nat \<times> nat) list \<times> 's" where
  "activeExpirationTick getT putT onExpire now s =
     (case interval (getT s) of
        None \<Rightarrow> ([], s)
      | Some tm \<Rightarrow> activeRounds getT putT onExpire (sampleSize tm) (maxRounds tm) now 0 s)"

section \<open>Usage tracker\<close>

datatype EvictionPolicy = LRU | LFU

record UsageMetadata =
  lastAccess :: int
  freq :: int
  lastDecay :: int

record UsageTracker =
  policy :: EvictionPolicy
  metadata :: "(string, UsageMetadata) jsmap"
  decayInterval :: int
  decayAmount :: int
  decayTimer :: bool

definition new_UsageTracker :: "EvictionPolicy \<Rightarrow> UsageTracker" where
  "new_UsageTracker p =
     \<lparr>policy = p, metadata = [], decayInterval = 60000, decayAmount = 1, decayTimer = (p = LFU)\<rparr>"

definition touch :: "UsageTracker \<Rightarrow> int \<Rightarrow> string \<Rightarrow> random_source \<Rightarrow> UsageTracker \<times> random_source" where
  "touch u now key rnd =
     (let meta0 = (case Map_get (metadata u) key of
                     None \<Rightarrow> \<lparr>lastAccess = now, freq = 0, lastDecay = now\<rparr>
                   | Some m \<Rightarrow> m);
          meta1 = meta0\<lparr>lastAccess := now\<rparr>
      in if policy u = LFU then
           (case Math_random rnd of (r, rnd') \<Rightarrow>
              (u\<lparr>metadata := Map_set (metadata u) key
                    (if r < 1 / (1 + real_of_int (freq meta1)) \<and> freq meta1 < 255
                     then meta1\<lparr>freq := freq meta1 + 1\<rparr> else meta1)\<rparr>, rnd'))
         else (u\<lparr>metadata := Map_set (metadata u) key meta1\<rparr>, rnd))"

definition Usage_delete :: "UsageTracker \<Rightarrow> string \<Rightarrow> UsageTracker" where
  "Usage_delete u key = u\<lparr>metadata := Map_delete (metadata u) key\<rparr>"

definition getMetadata :: "UsageTracker \<Rightarrow> string \<Rightarrow> UsageMetadata option" where
  "getMetadata u key = Map_get (metadata u) key"

text \<open>One run of the LFU decay timer's callback.\<close>

definition decayTick :: "UsageTracker \<Rightarrow> int \<Rightarrow> UsageTracker" where
  "decayTick u now =
     u\<lparr>metadata := map (map_option (\<lambda>(k, m).
          (k, if now - lastDecay m \<ge> decayInterval u
              then m\<lparr>freq := max 0 (freq m - decayAmount u), lastDecay := now\<rparr> else m)))
        (metadata u)\<rparr>"

definition stopDecay :: "UsageTracker \<Rightarrow> UsageTracker" where
  "stopDecay u = u\<lparr>decayTimer := False\<rparr>"

section \<open>Cache\<close>

datatype DataType = TString | TZSet | TSet

datatype Encoding = Intset | Hashtable

text \<open>The \<^verbatim>\<open>value\<close> of an entry: a scalar (a string), a ZSet, an IntSet or a Set.\<close>

datatype entry_value =
  StringVal string | ZSetVal ZSet | IntSetVal IntSet | HashSetVal "member_value list"

record CacheEntry =
  etype :: DataType
  evalue :: entry_value
  encoding :: "Encoding option"
  memoryUsed :: "int option"

record CacheOptions =
  opt_maxmemory :: "int option"
  opt_evictionPolicy :: "EvictionPolicy option"
  opt_evictionSampleSize :: "nat option"

record CacheStats =
  hits :: nat
  misses :: nat
  evictions :: nat
  expired :: nat
  operations :: nat

record Cache =
  maxmemory :: int
  evictionPolicy :: EvictionPolicy
  evictionSampleSize :: nat
  store :: "(string, CacheEntry) dictionary"
  ttl :: TTLManager
  usage :: UsageTracker
  currentMemoryUsed :: int
  evictionPool :: "string list"
  operationCount :: nat
  stats :: CacheStats
  random :: random_source

datatype error = WRONGTYPE

definition LAZY_EXPIRE_FREQ :: nat where
  "LAZY_EXPIRE_FREQ = 100"

text \<open>The constructor; \<open>rnd\<close> is what \<^verbatim>\<open>Math.random()\<close> will return. \<^verbatim>\<open>x || d\<close> takes the
  default for a missing option and for 0.\<close>

definition new_Cache :: "CacheOptions \<Rightarrow> random_source \<Rightarrow> Cache" where
  "new_Cache options rnd =
     (let pol = (case opt_evictionPolicy options of None \<Rightarrow> LRU | Some p \<Rightarrow> p) in
      \<lparr>maxmemory = (case opt_maxmemory options of None \<Rightarrow> 100000000
                     | Some m \<Rightarrow> if m = 0 then 100000000 else m),
       evictionPolicy = pol,
       evictionSampleSize = (case opt_evictionSampleSize options of None \<Rightarrow> 8
                             | Some n \<Rightarrow> if n = 0 then 8 else n),
       store = Dictionary 1,
       ttl = startActiveExpiration new_TTLManager (Some 200) (Some 10) (Some 2),
       usage = new_UsageTracker pol,
       currentMemoryUsed = 0,
       evictionPool = [],
       operationCount = 0,
       stats = \<lparr>hits = 0, misses = 0, evictions = 0, expired = 0, operations = 0\<rparr>,
       random = rnd\<rparr>)"

definition dynamicPoolSize :: "Cache \<Rightarrow> nat" where
  "dynamicPoolSize c =
     (let size = dict_size (store c) in
      if size < 1000 then 8 else if size < 10000 then 16 else if size < 100000 then 32 else 64)"

definition estimateMemberSize :: "string \<Rightarrow> int" where
  "estimateMemberSize mb = int (length mb) * 2 + 80"

definition calculateMemoryUsed :: "string \<Rightarrow> CacheEntry \<Rightarrow> int" where
  "calculateMemoryUsed key entry =
     int (length key) * 2 +
     (case etype entry of
        TString \<Rightarrow> (case evalue entry of StringVal v \<Rightarrow> int (length v) * 2 + 48 | _ \<Rightarrow> 48)
      | TZSet \<Rightarrow> (case evalue entry of ZSetVal z \<Rightarrow> int (ZSet_zcard z) * 80 | _ \<Rightarrow> 0)
      | TSet \<Rightarrow>
          (case evalue entry of
             IntSetVal s \<Rightarrow> int (IntSet_size s) * (if encoding entry = Some Intset then 8 else 40)
           | HashSetVal xs \<Rightarrow> int (length xs) * (if encoding entry = Some Intset then 8 else 40)
           | _ \<Rightarrow> 0))"

text \<open>\<^verbatim>\<open>if (entry && entry.memoryUsed)\<close>: the amount to subtract, 0 when the field is missing
  or 0.\<close>

definition truthyMemory :: "CacheEntry option \<Rightarrow> int" where
  "truthyMemory e = (case e of None \<Rightarrow> 0 | Some entry \<Rightarrow> (case memoryUsed entry of None \<Rightarrow> 0 | Some m \<Rightarrow> m))"

text \<open>
  An entry is an object the dictionary refers to: a write to a field of an entry that
  \<^verbatim>\<open>store.get\<close> returned changes the entry in the table. \<open>mutateEntry\<close> is that write; it
  is no call of the dictionary.
\<close>

fun slot_map :: "'k \<Rightarrow> ('v \<Rightarrow> 'v) \<Rightarrow> ('k \<times> 'v) option \<Rightarrow> ('k \<times> 'v) option" where
  "slot_map k f None = None"
| "slot_map k f (Some (k', v)) = (if k' = k then Some (k', f v) else Some (k', v))"

definition mutateEntry :: "('k, 'v) dictionary \<Rightarrow> 'k \<Rightarrow> ('v \<Rightarrow> 'v) \<Rightarrow> ('k, 'v) dictionary" where
  "mutateEntry d key f =
     d\<lparr>ht0 := map (slot_map key f) (ht0 d), ht1 := map_option (map (slot_map key f)) (ht1 d)\<rparr>"

subsection \<open>Internal operations\<close>

definition deleteKey :: "Cache \<Rightarrow> string \<Rightarrow> Cache" where
  "deleteKey c key =
     (case dict_get (store c) key of
        (entry, st1) \<Rightarrow>
          c\<lparr>currentMemoryUsed := currentMemoryUsed c - truthyMemory entry,
            store := snd (dict_delete st1 key),
            ttl := TTL_delete (ttl c) key,
            usage := Usage_delete (usage c) key\<rparr>)"

text \<open>The callback handed to the TTL manager: \<^verbatim>\<open>(k) => { this._deleteKey(k); this.stats.expirations++ }\<close>\<close>

definition expireCallback :: "string \<Rightarrow> Cache \<Rightarrow> Cache" where
  "expireCallback key c =
     (let c' = deleteKey c key in c'\<lparr>stats := (stats c')\<lparr>expired := expired (stats c') + 1\<rparr>\<rparr>)"

definition putTtl :: "TTLManager \<Rightarrow> Cache \<Rightarrow> Cache" where
  "putTtl t c = c\<lparr>ttl := t\<rparr>"

text \<open>The lazy purge at the head of \<^verbatim>\<open>_checkExpired\<close>, every \<open>LAZY_EXPIRE_FREQ\<close>-th call.\<close>

definition lazyPurge :: "Cache \<Rightarrow> int \<Rightarrow> Cache" where
  "lazyPurge c now =
     (let c1 = c\<lparr>operationCount := operationCount c + 1\<rparr>
      in if operationCount c1 mod LAZY_EXPIRE_FREQ = 0
         then snd (sampleAndPurge ttl putTtl 5 now expireCallback c1) else c1)"

definition checkExpired :: "Cache \<Rightarrow> int \<Rightarrow> string \<Rightarrow> bool \<times> Cache" where
  "checkExpired c now key =
     (let c2 = lazyPurge c now
      in if isExpired (ttl c2) now key
         then (True, expireCallback key c2)
         else (False, c2))"

definition getEntry :: "Cache \<Rightarrow> int \<Rightarrow> string \<Rightarrow> CacheEntry option \<times> Cache" where
  "getEntry c now key =
     (case checkExpired c now key of
        (True, c1) \<Rightarrow> (None, c1)
      | (False, c1) \<Rightarrow>
          (case dict_get (store c1) key of
             (None, st) \<Rightarrow> (None, c1\<lparr>store := st\<rparr>)
           | (Some entry, st) \<Rightarrow>
               (case touch (usage c1) now key (random c1) of
                  (u, rnd) \<Rightarrow> (Some entry, c1\<lparr>store := st, usage := u, random := rnd\<rparr>))))"

subsection \<open>Eviction\<close>

text \<open>The sampling loop \<^verbatim>\<open>while (sampled.size < sampleSize)\<close>; \<open>sampled\<close> is the Set, in
  insertion order. It ends only if the draws hit enough distinct keys.\<close>

partial_function (option) drawSample ::
  "string list \<Rightarrow> nat \<Rightarrow> string list \<Rightarrow> random_source \<Rightarrow> (string list \<times> random_source) option" where
  "drawSample allKeys sampleSz sampled rnd =
     (if length sampled < sampleSz then
        (case Math_random rnd of (r, rnd') \<Rightarrow>
           drawSample allKeys sampleSz
             (Set_add sampled (allKeys ! nat \<lfloor>r * real (length allKeys)\<rfloor>)) rnd')
      else Some (sampled, rnd))"

declare drawSample.simps [code]

text \<open>The comparator of \<^verbatim>\<open>samples.sort\<close>.\<close>

definition evictCompare :: "Cache \<Rightarrow> string \<Rightarrow> string \<Rightarrow> int" where
  "evictCompare c a b =
     (case getMetadata (usage c) a of
        None \<Rightarrow> -1
      | Some metaA \<Rightarrow>
          (case getMetadata (usage c) b of
             None \<Rightarrow> 1
           | Some metaB \<Rightarrow>
               if evictionPolicy c = LRU then lastAccess metaA - lastAccess metaB
               else if freq metaA \<noteq> freq metaB then freq metaA - freq metaB
               else lastAccess metaA - lastAccess metaB))"

text \<open>\<^verbatim>\<open>Array.prototype.sort\<close> with a comparator, as a stable insertion sort.\<close>

fun insertBy :: "('a \<Rightarrow> 'a \<Rightarrow> int) \<Rightarrow> 'a \<Rightarrow> 'a list \<Rightarrow> 'a list" where
  "insertBy cmp x [] = [x]"
| "insertBy cmp x (y # ys) = (if cmp x y < 0 then x # y # ys else y # insertBy cmp x ys)"

definition sortBy :: "('a \<Rightarrow> 'a \<Rightarrow> int) \<Rightarrow> 'a list \<Rightarrow> 'a list" where
  "sortBy cmp xs = foldl (\<lambda>acc x. insertBy cmp x acc) [] xs"

text \<open>The refill of an empty pool. The flag is the \<^verbatim>\<open>break\<close> on an empty key list.\<close>

definition refillPool :: "Cache \<Rightarrow> (bool \<times> Cache) option" where
  "refillPool c =
     (case dict_keys (store c) of
        (allKeys, st) \<Rightarrow>
          (let c1 = c\<lparr>store := st\<rparr> in
           if length allKeys = 0 then Some (True, c1)
           else
             (case drawSample allKeys (min (evictionSampleSize c1 * 2) (length allKeys)) []
                     (random c1) of
                None \<Rightarrow> None
              | Some (sampled, rnd) \<Rightarrow>
                  Some (False,
                        c1\<lparr>random := rnd,
                           evictionPool := take (dynamicPoolSize c1)
                                                (sortBy (evictCompare c1) sampled)\<rparr>))))"

text \<open>One pass of the body of the eviction loop after the refill: the shift of the victim
  and its validation. The flag is the \<^verbatim>\<open>break\<close>; the empty string is falsy.\<close>

definition evictVictim :: "Cache \<Rightarrow> bool \<times> Cache" where
  "evictVictim c =
     (case evictionPool c of
        [] \<Rightarrow> (True, c)
      | victim # rest \<Rightarrow>
          (let c1 = c\<lparr>evictionPool := rest\<rparr> in
           if victim \<noteq> [] then
             (case dict_has (store c1) victim of
                (True, st) \<Rightarrow>
                  (let c2 = deleteKey (c1\<lparr>store := st\<rparr>) victim
                   in (False, c2\<lparr>stats := (stats c2)\<lparr>evictions := evictions (stats c2) + 1\<rparr>\<rparr>))
              | (False, st) \<Rightarrow> (False, c1\<lparr>store := st\<rparr>))
           else (True, c1)))"

partial_function (option) evictLoop :: "Cache \<Rightarrow> Cache option" where
  "evictLoop c =
     (if currentMemoryUsed c > maxmemory c \<and> dict_size (store c) > 0 then
        (case (if evictionPool c = [] then refillPool c else Some (False, c)) of
           None \<Rightarrow> None
         | Some (brk1, c1) \<Rightarrow>
             if brk1 then Some c1
             else (case evictVictim c1 of (brk2, c2) \<Rightarrow> if brk2 then Some c2 else evictLoop c2))
      else Some c)"

declare evictLoop.simps [code]

definition evictIfNeeded :: "Cache \<Rightarrow> Cache option" where
  "evictIfNeeded c = (if currentMemoryUsed c \<le> maxmemory c then Some c else evictLoop c)"

subsection \<open>Public operations\<close>

text \<open>
  Every operation takes the cache, the value of \<^verbatim>\<open>Date.now()\<close> and its arguments, and
  returns the result with the cache after the call. A thrown \<^verbatim>\<open>WRONGTYPE\<close> is the result
  \<open>Inl WRONGTYPE\<close>, returned with the state the call left behind. Operations that run the
  eviction loop or walk a skip list return an option: \<open>None\<close> when a loop does not end.
\<close>

definition bumpOperations :: "Cache \<Rightarrow> Cache" where
  "bumpOperations c = c\<lparr>stats := (stats c)\<lparr>operations := operations (stats c) + 1\<rparr>\<rparr>"

definition bumpHits :: "Cache \<Rightarrow> Cache" where
  "bumpHits c = c\<lparr>stats := (stats c)\<lparr>hits := hits (stats c) + 1\<rparr>\<rparr>"

definition bumpMisses :: "Cache \<Rightarrow> Cache" where
  "bumpMisses c = c\<lparr>stats := (stats c)\<lparr>misses := misses (stats c) + 1\<rparr>\<rparr>"

definition Cache_set :: "Cache \<Rightarrow> int \<Rightarrow> string \<Rightarrow> string \<Rightarrow> int option \<Rightarrow> Cache option" where
  "Cache_set c now key val px =
     (case evictIfNeeded (bumpOperations c) of
        None \<Rightarrow> None
      | Some c1 \<Rightarrow>
          (case dict_get (store c1) key of
             (oldEntry, st1) \<Rightarrow>
               (let entry0 = \<lparr>etype = TString, evalue = StringVal val, encoding = None,
                              memoryUsed = None\<rparr>;
                    entry = entry0\<lparr>memoryUsed := Some (calculateMemoryUsed key entry0)\<rparr>;
                    mem = currentMemoryUsed c1 - truthyMemory oldEntry + calculateMemoryUsed key entry0
                in case touch (usage c1) now key (random c1) of
                     (u, rnd) \<Rightarrow>
                       Some (c1\<lparr>currentMemoryUsed := mem,
                                store := dict_set st1 key entry,
                                usage := u,
                                random := rnd,
                                ttl := (case px of
                                          Some p \<Rightarrow> if p > 0 then TTL_set (ttl c1) key (now + p)
                                                    else TTL_delete (ttl c1) key
                                        | None \<Rightarrow> TTL_delete (ttl c1) key)\<rparr>))))"

definition Cache_get :: "Cache \<Rightarrow> int \<Rightarrow> string \<Rightarrow> (error + string option) \<times> Cache" where
  "Cache_get c now key =
     (case getEntry (bumpOperations c) now key of
        (None, c1) \<Rightarrow> (Inr None, bumpMisses c1)
      | (Some entry, c1) \<Rightarrow>
          if etype entry \<noteq> TString then (Inl WRONGTYPE, c1)
          else (Inr (case evalue entry of StringVal v \<Rightarrow> Some v | _ \<Rightarrow> None), bumpHits c1))"

definition Cache_del :: "Cache \<Rightarrow> string \<Rightarrow> nat \<times> Cache" where
  "Cache_del c key =
     (let c0 = bumpOperations c in
      case dict_has (store c0) key of
        (True, st) \<Rightarrow> (1, deleteKey (c0\<lparr>store := st\<rparr>) key)
      | (False, st) \<Rightarrow> (0, c0\<lparr>store := st\<rparr>))"

definition Cache_zadd ::
  "Cache \<Rightarrow> int \<Rightarrow> string \<Rightarrow> number \<Rightarrow> string \<Rightarrow> ((error + nat) \<times> Cache) option" where
  "Cache_zadd c now key sc mb =
     (case evictIfNeeded (snd (checkExpired (bumpOperations c) now key)) of
        None \<Rightarrow> None
      | Some c1 \<Rightarrow>
          (case dict_get (store c1) key of
             (None, st1) \<Rightarrow>
               (case ZSet_zadd new_ZSet mb sc (random c1) of
                  None \<Rightarrow> None
                | Some (added, zset, rnd1) \<Rightarrow>
                    (let entry0 = \<lparr>etype = TZSet, evalue = ZSetVal zset, encoding = None,
                                   memoryUsed = None\<rparr>;
                         entry = entry0\<lparr>memoryUsed := Some (calculateMemoryUsed key entry0)\<rparr>
                     in case touch (usage c1) now key rnd1 of
                          (u, rnd2) \<Rightarrow>
                            Some (Inr (if added then 1 else 0),
                                  c1\<lparr>currentMemoryUsed :=
                                        currentMemoryUsed c1 + calculateMemoryUsed key entry0,
                                     store := dict_set st1 key entry,
                                     usage := u,
                                     random := rnd2\<rparr>)))
           | (Some entry, st1) \<Rightarrow>
               if etype entry \<noteq> TZSet then Some (Inl WRONGTYPE, c1\<lparr>store := st1\<rparr>)
               else
                 (case evalue entry of
                    ZSetVal zset \<Rightarrow>
                      (case ZSet_zadd zset mb sc (random c1) of
                         None \<Rightarrow> None
                       | Some (added, zset', rnd1) \<Rightarrow>
                           (let delta = (if added then estimateMemberSize mb else 0);
                                entry' = (if added
                                          then entry\<lparr>evalue := ZSetVal zset',
                                                     memoryUsed := Some ((case memoryUsed entry of
                                                        None \<Rightarrow> 0 | Some m \<Rightarrow> m) + delta)\<rparr>
                                          else entry\<lparr>evalue := ZSetVal zset'\<rparr>)
                            in case touch (usage c1) now key rnd1 of
                                 (u, rnd2) \<Rightarrow>
                                   Some (Inr (if added then 1 else 0),
                                         c1\<lparr>currentMemoryUsed := currentMemoryUsed c1 + delta,
                                            store := mutateEntry st1 key (\<lambda>_. entry'),
                                            usage := u,
                                            random := rnd2\<rparr>)))
                  | _ \<Rightarrow> None)))"

definition Cache_zrem :: "Cache \<Rightarrow> int \<Rightarrow> string \<Rightarrow> string \<Rightarrow> ((error + nat) \<times> Cache) option" where
  "Cache_zrem c now key mb =
     (case getEntry (bumpOperations c) now key of
        (None, c1) \<Rightarrow> Some (Inr 0, c1)
      | (Some entry, c1) \<Rightarrow>
          if etype entry \<noteq> TZSet then Some (Inl WRONGTYPE, c1)
          else
            (case evalue entry of
               ZSetVal zset \<Rightarrow>
                 (case ZSet_zrem zset mb of
                    None \<Rightarrow> None
                  | Some (removed, zset') \<Rightarrow>
                      if removed \<and> truthyMemory (Some entry) \<noteq> 0 then
                        (let delta = estimateMemberSize mb;
                             entry' = entry\<lparr>evalue := ZSetVal zset',
                                             memoryUsed := Some (max 0 (truthyMemory (Some entry) - delta))\<rparr>
                         in Some (Inr 1,
                                  c1\<lparr>store := mutateEntry (store c1) key (\<lambda>_. entry'),
                                     currentMemoryUsed := max 0 (currentMemoryUsed c1 - delta)\<rparr>))
                      else
                        Some (Inr (if removed then 1 else 0),
                              c1\<lparr>store := mutateEntry (store c1) key
                                             (\<lambda>_. entry\<lparr>evalue := ZSetVal zset'\<rparr>)\<rparr>))
             | _ \<Rightarrow> None))"

definition Cache_zscore :: "Cache \<Rightarrow> int \<Rightarrow> string \<Rightarrow> string \<Rightarrow> (error + number option) \<times> Cache" where
  "Cache_zscore c now key mb =
     (case getEntry (bumpOperations c) now key of
        (None, c1) \<Rightarrow> (Inr None, bumpMisses c1)
      | (Some entry, c1) \<Rightarrow>
          if etype entry \<noteq> TZSet then (Inl WRONGTYPE, c1)
          else (Inr (case evalue entry of ZSetVal zset \<Rightarrow> ZSet_zscore zset mb | _ \<Rightarrow> None),
                bumpHits c1))"

definition Cache_zrank ::
  "Cache \<Rightarrow> int \<Rightarrow> string \<Rightarrow> string \<Rightarrow> ((error + int option) \<times> Cache) option" where
  "Cache_zrank c now key mb =
     (case getEntry (bumpOperations c) now key of
        (None, c1) \<Rightarrow> Some (Inr None, bumpMisses c1)
      | (Some entry, c1) \<Rightarrow>
          if etype entry \<noteq> TZSet then Some (Inl WRONGTYPE, c1)
          else
            (case evalue entry of
               ZSetVal zset \<Rightarrow>
                 (case ZSet_zrank zset mb of
                    None \<Rightarrow> None
                  | Some r \<Rightarrow> Some (Inr r, bumpHits c1))
             | _ \<Rightarrow> None))"

definition Cache_zrangeByScore ::
  "Cache \<Rightarrow> int \<Rightarrow> string \<Rightarrow> number \<Rightarrow> number \<Rightarrow> number option \<Rightarrow>
   ((error + (string \<times> number) list) \<times> Cache) option" where
  "Cache_zrangeByScore c now key mn mx limit =
     (case getEntry (bumpOperations c) now key of
        (None, c1) \<Rightarrow> Some (Inr [], bumpMisses c1)
      | (Some entry, c1) \<Rightarrow>
          if etype entry \<noteq> TZSet then Some (Inl WRONGTYPE, c1)
          else
            (case evalue entry of
               ZSetVal zset \<Rightarrow>
                 (case ZSet_zrangeByScore zset mn mx limit of
                    None \<Rightarrow> None
                  | Some items \<Rightarrow> Some (Inr items, bumpHits c1))
             | _ \<Rightarrow> None))"

text \<open>The loop over the members of \<^verbatim>\<open>sadd\<close>, on the entry's value and encoding.\<close>

fun saddMembers ::
  "member_value list \<Rightarrow> entry_value \<Rightarrow> Encoding option \<Rightarrow> nat \<Rightarrow> entry_value \<times> Encoding option \<times> nat" where
  "saddMembers [] v enc addedCount = (v, enc, addedCount)"
| "saddMembers (m # ms) v enc addedCount =
     (case v of
        IntSetVal s \<Rightarrow>
          (case IntSet_add s m of
             (Upgrade, _) \<Rightarrow>
               (let xs = upgradeToSet s in
                if m \<in> set xs then saddMembers ms (HashSetVal xs) (Some Hashtable) addedCount
                else saddMembers ms (HashSetVal (Set_add xs m)) (Some Hashtable) (addedCount + 1))
           | (AddedTrue, s') \<Rightarrow> saddMembers ms (IntSetVal s') enc (addedCount + 1)
           | (ExistsFalse, s') \<Rightarrow> saddMembers ms (IntSetVal s') enc addedCount)
      | HashSetVal xs \<Rightarrow>
          if m \<in> set xs then saddMembers ms v enc addedCount
          else saddMembers ms (HashSetVal (Set_add xs m)) enc (addedCount + 1)
      | _ \<Rightarrow> (v, enc, addedCount))"

definition setSize :: "entry_value \<Rightarrow> int" where
  "setSize v = (case v of IntSetVal s \<Rightarrow> int (IntSet_size s) | HashSetVal xs \<Rightarrow> int (length xs) | _ \<Rightarrow> 0)"

definition Cache_sadd ::
  "Cache \<Rightarrow> int \<Rightarrow> string \<Rightarrow> member_value list \<Rightarrow> ((error + nat) \<times> Cache) option" where
  "Cache_sadd c now key members =
     (case evictIfNeeded (snd (checkExpired (bumpOperations c) now key)) of
        None \<Rightarrow> None
      | Some c1 \<Rightarrow>
          (case dict_get (store c1) key of
             (found, st1) \<Rightarrow>
               (let fresh0 = \<lparr>etype = TSet, evalue = IntSetVal (new_IntSet 512),
                              encoding = Some Intset, memoryUsed = None\<rparr>;
                    fresh = fresh0\<lparr>memoryUsed := Some (calculateMemoryUsed key fresh0)\<rparr>;
                    entry = (case found of None \<Rightarrow> fresh | Some e \<Rightarrow> e);
                    c2 = (case found of
                            None \<Rightarrow> c1\<lparr>currentMemoryUsed :=
                                           currentMemoryUsed c1 + calculateMemoryUsed key fresh0,
                                        store := dict_set st1 key fresh\<rparr>
                          | Some e \<Rightarrow> c1\<lparr>store := st1\<rparr>)
                in if etype entry \<noteq> TSet then Some (Inl WRONGTYPE, c2)
                   else
                     (case saddMembers members (evalue entry) (encoding entry) 0 of
                        (v, enc, addedCount) \<Rightarrow>
                          (let memoryDelta = (if addedCount > 0
                                              then (setSize v - setSize (evalue entry)) *
                                                   (if enc = Some Intset then 8 else 40)
                                              else 0);
                               entry' = (if addedCount > 0
                                         then entry\<lparr>evalue := v, encoding := enc,
                                                    memoryUsed := Some ((case memoryUsed entry of
                                                       None \<Rightarrow> 0 | Some m \<Rightarrow> m) + memoryDelta)\<rparr>
                                         else entry\<lparr>evalue := v, encoding := enc\<rparr>)
                           in case touch (usage c2) now key (random c2) of
                                (u, rnd) \<Rightarrow>
                                  Some (Inr addedCount,
                                        c2\<lparr>currentMemoryUsed := currentMemoryUsed c2 + memoryDelta,
                                           store := mutateEntry (store c2) key (\<lambda>_. entry'),
                                           usage := u,
                                           random := rnd\<rparr>))))))"

definition Cache_smembers :: "Cache \<Rightarrow> int \<Rightarrow> string \<Rightarrow> (error + member_value list) \<times> Cache" where
  "Cache_smembers c now key =
     (case getEntry (bumpOperations c) now key of
        (None, c1) \<Rightarrow> (Inr [], bumpMisses c1)
      | (Some entry, c1) \<Rightarrow>
          if etype entry \<noteq> TSet then (Inl WRONGTYPE, c1)
          else (Inr (case evalue entry of
                       IntSetVal s \<Rightarrow> IntSet_values s
                     | HashSetVal xs \<Rightarrow> xs
                     | _ \<Rightarrow> []),
                bumpHits c1))"

definition Cache_shutdown :: "Cache \<Rightarrow> Cache" where
  "Cache_shutdown c =
     (let c1 = flushPendingDeletes ttl putTtl expireCallback c
      in c1\<lparr>ttl := stopActiveExpiration (ttl c1), usage := stopDecay (usage c1)\<rparr>)"

text \<open>The two background tasks: one tick of the active expiration timer, with the callback of
  the constructor, and one tick of the decay timer.\<close>

definition Cache_activeExpirationTick :: "Cache \<Rightarrow> int \<Rightarrow> (nat \<times> nat) list \<times> Cache" where
  "Cache_activeExpirationTick c now = activeExpirationTick ttl putTtl expireCallback now c"

definition Cache_decayTick :: "Cache \<Rightarrow> int \<Rightarrow> Cache" where
  "Cache_decayTick c now = (if decayTimer (usage c) then c\<lparr>usage := decayTick (usage c) now\<rparr> else c)"

section \<open>Properties of the cache\<close>

subsection \<open>Deleting a key\<close>

lemma truthyMemory_None [simp]: "truthyMemory None = 0"
  by (simp add: truthyMemory_def)

lemma deleteKey_store:
  assumes "dict_inv (store c)"
  shows "dict_inv (store (deleteKey c key))"
    and "lookup2 (store (deleteKey c key)) = (lookup2 (store c))(key := None)"
proof -
  note g = dict_get_spec[OF assms, of key]
  note d = dict_delete_spec[OF g(2), of key]
  have s: "store (deleteKey c key) = snd (dict_delete (snd (dict_get (store c) key)) key)"
    by (simp add: deleteKey_def split_beta)
  show "dict_inv (store (deleteKey c key))" using d(2) s by simp
  show "lookup2 (store (deleteKey c key)) = (lookup2 (store c))(key := None)"
    using d(3) g(3) s by simp
qed

lemma deleteKey_fields:
  "ttl (deleteKey c key) = TTL_delete (ttl c) key"
  "usage (deleteKey c key) = Usage_delete (usage c) key"
  "stats (deleteKey c key) = stats c"
  "evictionPool (deleteKey c key) = evictionPool c"
  "operationCount (deleteKey c key) = operationCount c"
  "maxmemory (deleteKey c key) = maxmemory c"
  "evictionPolicy (deleteKey c key) = evictionPolicy c"
  "evictionSampleSize (deleteKey c key) = evictionSampleSize c"
  "random (deleteKey c key) = random c"
  by (simp_all add: deleteKey_def split_beta)

lemma deleteKey_memory:
  assumes "dict_inv (store c)"
  shows "currentMemoryUsed (deleteKey c key) = currentMemoryUsed c - truthyMemory (lookup2 (store c) key)"
  using dict_get_spec(1)[OF assms, of key] by (simp add: deleteKey_def split_beta)

lemma TTL_delete_get:
  "Map_get (expirations (TTL_delete t key)) = (Map_get (expirations t))(key := None)"
  by (rule ext) (simp add: TTL_delete_def Map_get_delete)

lemma TTL_delete_fields:
  "interval (TTL_delete t key) = interval t"
  "keyIterator (TTL_delete t key) = keyIterator t"
  "pendingDeletes (TTL_delete t key) = pendingDeletes t"
  by (simp_all add: TTL_delete_def)

lemma Usage_delete_get:
  "Map_get (metadata (Usage_delete u key)) = (Map_get (metadata u))(key := None)"
  by (rule ext) (simp add: Usage_delete_def Map_get_delete)

text \<open>What one key sees of a step that only deletes keys: its entry, TTL record and usage
  metadata are all kept, or all gone.\<close>

definition kept_or_gone :: "string \<Rightarrow> Cache \<Rightarrow> Cache \<Rightarrow> bool" where
  "kept_or_gone key c c' =
     ((lookup2 (store c') key = lookup2 (store c) key \<and>
       Map_get (expirations (ttl c')) key = Map_get (expirations (ttl c)) key \<and>
       Map_get (metadata (usage c')) key = Map_get (metadata (usage c)) key) \<or>
      (lookup2 (store c') key = None \<and>
       Map_get (expirations (ttl c')) key = None \<and>
       Map_get (metadata (usage c')) key = None))"

lemma kept_or_gone_refl: "kept_or_gone key c c"
  by (simp add: kept_or_gone_def)

lemma kept_or_gone_trans:
  "kept_or_gone key a b \<Longrightarrow> kept_or_gone key b c \<Longrightarrow> kept_or_gone key a c"
  by (auto simp: kept_or_gone_def)

lemma kept_or_gone_deleteKey:
  "dict_inv (store c) \<Longrightarrow> kept_or_gone key c (deleteKey c k)"
  by (simp add: kept_or_gone_def deleteKey_store deleteKey_fields TTL_delete_get Usage_delete_get)

lemma gone_deleteKey:
  assumes "dict_inv (store c)"
  shows "lookup2 (store (deleteKey c key)) key = None"
    and "Map_get (expirations (ttl (deleteKey c key))) key = None"
    and "Map_get (metadata (usage (deleteKey c key))) key = None"
  using assms by (simp_all add: deleteKey_store deleteKey_fields TTL_delete_get Usage_delete_get)

lemma expireCallback_store:
  "store (expireCallback key c) = store (deleteKey c key)"
  "ttl (expireCallback key c) = ttl (deleteKey c key)"
  "usage (expireCallback key c) = usage (deleteKey c key)"
  "currentMemoryUsed (expireCallback key c) = currentMemoryUsed (deleteKey c key)"
  "evictionPool (expireCallback key c) = evictionPool c"
  "operationCount (expireCallback key c) = operationCount c"
  "maxmemory (expireCallback key c) = maxmemory c"
  "evictionPolicy (expireCallback key c) = evictionPolicy c"
  "evictionSampleSize (expireCallback key c) = evictionSampleSize c"
  "random (expireCallback key c) = random c"
  by (simp_all add: expireCallback_def Let_def deleteKey_fields)

lemma kept_or_gone_expireCallback:
  "dict_inv (store c) \<Longrightarrow> kept_or_gone key c (expireCallback k c)"
  using kept_or_gone_deleteKey[of c key k] by (simp add: kept_or_gone_def expireCallback_store)

lemma dict_inv_expireCallback:
  "dict_inv (store c) \<Longrightarrow> dict_inv (store (expireCallback k c))"
  by (simp add: expireCallback_store deleteKey_store)

lemma fold_expireCallback:
  "dict_inv (store c) \<Longrightarrow>
   dict_inv (store (fold expireCallback ks c)) \<and> kept_or_gone key c (fold expireCallback ks c) \<and>
   pendingDeletes (ttl (fold expireCallback ks c)) = pendingDeletes (ttl c) \<and>
   keyIterator (ttl (fold expireCallback ks c)) = keyIterator (ttl c) \<and>
   interval (ttl (fold expireCallback ks c)) = interval (ttl c) \<and>
   operationCount (fold expireCallback ks c) = operationCount c \<and>
   evictionPool (fold expireCallback ks c) = evictionPool c \<and>
   maxmemory (fold expireCallback ks c) = maxmemory c \<and>
   evictionSampleSize (fold expireCallback ks c) = evictionSampleSize c"
proof (induction ks arbitrary: c)
  case Nil
  then show ?case by (simp add: kept_or_gone_refl)
next
  case (Cons k ks)
  note i = dict_inv_expireCallback[OF Cons.prems, of k]
  from Cons.IH[OF i] kept_or_gone_expireCallback[OF Cons.prems, of key k]
  show ?case
    by (auto simp: expireCallback_store deleteKey_fields TTL_delete_fields intro: kept_or_gone_trans)
qed

lemma kept_or_gone_ttl_fields:
  "store c' = store c \<Longrightarrow> usage c' = usage c \<Longrightarrow> expirations (ttl c') = expirations (ttl c) \<Longrightarrow>
   kept_or_gone key c c'"
  by (simp add: kept_or_gone_def)

lemma sampleAndPurge_cache:
  fixes k :: nat and now :: int and c :: Cache
  assumes "dict_inv (store c)"
  defines "c' \<equiv> snd (sampleAndPurge ttl putTtl k now expireCallback c)"
  shows "dict_inv (store c')" and "kept_or_gone key c c'"
    and "operationCount c' = operationCount c" and "evictionPool c' = evictionPool c"
    and "maxmemory c' = maxmemory c" and "evictionSampleSize c' = evictionSampleSize c"
proof -
  obtain it' pending' cnt where sl: "sampleLoop k (expirations (ttl c)) now
        (case keyIterator (ttl c) of None \<Rightarrow> At 0 | Some it \<Rightarrow> it) (pendingDeletes (ttl c)) 0
        = (it', pending', cnt)"
    by (metis prod_cases3)
  define s1 where "s1 = putTtl ((ttl c)\<lparr>keyIterator := Some it', pendingDeletes := pending'\<rparr>) c"
  have s1: "dict_inv (store s1)" "kept_or_gone key c s1" "operationCount s1 = operationCount c"
    "evictionPool s1 = evictionPool c" "maxmemory s1 = maxmemory c"
    "evictionSampleSize s1 = evictionSampleSize c"
    using assms(1) by (simp_all add: s1_def putTtl_def kept_or_gone_def)
  define s2 where "s2 = fold expireCallback (pendingDeletes (ttl s1)) s1"
  note f = fold_expireCallback[OF s1(1), where key=key and ks="pendingDeletes (ttl s1)", folded s2_def]
  have fl: "flushPending ttl putTtl expireCallback s1 = putTtl ((ttl s2)\<lparr>pendingDeletes := []\<rparr>) s2"
    by (simp add: flushPending_def Let_def s2_def)
  have s3: "dict_inv (store (flushPending ttl putTtl expireCallback s1))"
    "kept_or_gone key c (flushPending ttl putTtl expireCallback s1)"
    "operationCount (flushPending ttl putTtl expireCallback s1) = operationCount c"
    "evictionPool (flushPending ttl putTtl expireCallback s1) = evictionPool c"
    "maxmemory (flushPending ttl putTtl expireCallback s1) = maxmemory c"
    "evictionSampleSize (flushPending ttl putTtl expireCallback s1) = evictionSampleSize c"
    using f s1 unfolding fl by (auto simp: putTtl_def kept_or_gone_def)
  have "c' = c \<or> c' = s1 \<or> c' = flushPending ttl putTtl expireCallback s1"
    unfolding c'_def sampleAndPurge_def Let_def sl s1_def by simp
  then show "dict_inv (store c')" and "kept_or_gone key c c'"
    and "operationCount c' = operationCount c" and "evictionPool c' = evictionPool c"
    and "maxmemory c' = maxmemory c" and "evictionSampleSize c' = evictionSampleSize c"
    using assms(1) s1 s3 by (auto simp: kept_or_gone_refl)
qed

text \<open>A step that only deletes keys and leaves the configuration alone.\<close>

definition shrinks :: "Cache \<Rightarrow> Cache \<Rightarrow> bool" where
  "shrinks c c' =
     (dict_inv (store c') \<and> (\<forall>key. kept_or_gone key c c') \<and> maxmemory c' = maxmemory c \<and>
      evictionSampleSize c' = evictionSampleSize c \<and> evictionPolicy c' = evictionPolicy c)"

lemma shrinks_refl: "dict_inv (store c) \<Longrightarrow> shrinks c c"
  by (simp add: shrinks_def kept_or_gone_refl)

lemma shrinks_trans: "shrinks a b \<Longrightarrow> shrinks b c \<Longrightarrow> shrinks a c"
proof -
  assume a: "shrinks a b" and b: "shrinks b c"
  have "\<forall>key. kept_or_gone key a c"
    using a b unfolding shrinks_def by (meson kept_or_gone_trans)
  then show ?thesis using a b by (simp add: shrinks_def)
qed

lemma shrinks_same:
  "dict_inv (store c') \<Longrightarrow> lookup2 (store c') = lookup2 (store c) \<Longrightarrow>
   expirations (ttl c') = expirations (ttl c) \<Longrightarrow> metadata (usage c') = metadata (usage c) \<Longrightarrow>
   maxmemory c' = maxmemory c \<Longrightarrow> evictionSampleSize c' = evictionSampleSize c \<Longrightarrow>
   evictionPolicy c' = evictionPolicy c \<Longrightarrow> shrinks c c'"
  by (simp add: shrinks_def kept_or_gone_def)

lemma shrinks_deleteKey:
  assumes "dict_inv (store c)"
  shows "shrinks c (deleteKey c k)"
proof -
  have "dict_inv (store (deleteKey c k))" using assms by (rule deleteKey_store(1))
  moreover have "\<forall>key. kept_or_gone key c (deleteKey c k)"
    using assms by (simp add: kept_or_gone_deleteKey)
  ultimately show ?thesis by (simp add: shrinks_def deleteKey_fields)
qed

lemma shrinks_expireCallback: "dict_inv (store c) \<Longrightarrow> shrinks c (expireCallback k c)"
  by (simp add: shrinks_def kept_or_gone_expireCallback expireCallback_store deleteKey_store(1))

lemma evictionPolicy_fold_expireCallback:
  "evictionPolicy (fold expireCallback ks c) = evictionPolicy c"
  by (induction ks arbitrary: c) (simp_all add: expireCallback_store)

lemma evictionPolicy_sampleAndPurge:
  "evictionPolicy (snd (sampleAndPurge ttl putTtl k now expireCallback c)) = evictionPolicy c"
  by (simp add: sampleAndPurge_def Let_def flushPending_def putTtl_def split_beta
      evictionPolicy_fold_expireCallback)

lemma shrinks_sampleAndPurge:
  "dict_inv (store c) \<Longrightarrow> shrinks c (snd (sampleAndPurge ttl putTtl k now expireCallback c))"
  unfolding shrinks_def
  using sampleAndPurge_cache[where c=c and k=k and now=now] evictionPolicy_sampleAndPurge[of k now c]
  by simp

subsection \<open>Passive expiration\<close>

lemma shrinks_lazyPurge:
  assumes "dict_inv (store c)"
  shows "shrinks c (lazyPurge c now)"
proof -
  define c1 where "c1 = c\<lparr>operationCount := operationCount c + 1\<rparr>"
  have i1: "dict_inv (store c1)" using assms by (simp add: c1_def)
  have s1: "shrinks c c1" using assms by (intro shrinks_same) (simp_all add: c1_def)
  have "lazyPurge c now = c1 \<or> lazyPurge c now = snd (sampleAndPurge ttl putTtl 5 now expireCallback c1)"
    by (simp add: lazyPurge_def Let_def c1_def)
  then have "shrinks c1 (lazyPurge c now)"
    using shrinks_sampleAndPurge[OF i1] shrinks_refl[OF i1] by auto
  with s1 show ?thesis by (rule shrinks_trans)
qed

lemma shrinks_checkExpired:
  assumes "dict_inv (store c)"
  shows "shrinks c (snd (checkExpired c now key))"
proof -
  note s2 = shrinks_lazyPurge[OF assms, of now]
  then have i2: "dict_inv (store (lazyPurge c now))" by (simp add: shrinks_def)
  have "shrinks (lazyPurge c now) (snd (checkExpired c now key))"
    using shrinks_expireCallback[OF i2, of key] shrinks_refl[OF i2]
    by (simp add: checkExpired_def Let_def)
  with s2 show ?thesis by (rule shrinks_trans)
qed

definition absent :: "string \<Rightarrow> Cache \<Rightarrow> bool" where
  "absent key c =
     (lookup2 (store c) key = None \<and> Map_get (expirations (ttl c)) key = None \<and>
      Map_get (metadata (usage c)) key = None)"

lemma checkExpired_True:
  assumes "dict_inv (store c)" and "fst (checkExpired c now key)"
  shows "absent key (snd (checkExpired c now key))"
proof -
  from shrinks_lazyPurge[OF assms(1), of now]
  have i2: "dict_inv (store (lazyPurge c now))" by (simp add: shrinks_def)
  from assms(2) have "snd (checkExpired c now key) = expireCallback key (lazyPurge c now)"
    by (simp add: checkExpired_def Let_def split: if_splits)
  then show ?thesis using gone_deleteKey[OF i2, of key]
    by (simp add: absent_def expireCallback_store)
qed

lemma checkExpired_False:
  assumes "\<not> fst (checkExpired c now key)"
  shows "\<not> isExpired (ttl (snd (checkExpired c now key))) now key"
  using assms by (simp add: checkExpired_def Let_def split: if_splits)

lemma checkExpired_expired:
  assumes inv: "dict_inv (store c)" and e: "Map_get (expirations (ttl c)) key = Some deadline"
    and p: "deadline \<le> now"
  shows "absent key (snd (checkExpired c now key))"
proof (cases "fst (checkExpired c now key)")
  case True
  then show ?thesis by (rule checkExpired_True[OF inv])
next
  case False
  let ?c' = "snd (checkExpired c now key)"
  from shrinks_checkExpired[OF inv, of now key] have k: "kept_or_gone key c ?c'"
    by (simp add: shrinks_def)
  from checkExpired_False[OF False] e p
  have "Map_get (expirations (ttl ?c')) key \<noteq> Map_get (expirations (ttl c)) key"
    by (auto simp: isExpired_def split: option.splits)
  with k show ?thesis by (auto simp: kept_or_gone_def absent_def)
qed

lemma getEntry_expired:
  assumes inv: "dict_inv (store c)" and e: "Map_get (expirations (ttl c)) key = Some deadline"
    and p: "deadline \<le> now"
  shows "fst (getEntry c now key) = None" and "absent key (snd (getEntry c now key))"
    and "dict_inv (store (snd (getEntry c now key)))"
proof -
  let ?c1 = "snd (checkExpired c now key)"
  from shrinks_checkExpired[OF inv, of now key] have i1: "dict_inv (store ?c1)"
    by (simp add: shrinks_def)
  note a = checkExpired_expired[OF inv e p]
  note g = dict_get_spec[OF i1, of key]
  from a g(1) have n: "fst (dict_get (store ?c1) key) = None" by (simp add: absent_def)
  have r: "getEntry c now key =
    (if fst (checkExpired c now key) then (None, ?c1)
     else (None, ?c1\<lparr>store := snd (dict_get (store ?c1) key)\<rparr>))"
    using n by (cases "checkExpired c now key"; cases "dict_get (store ?c1) key")
               (auto simp: getEntry_def)
  show "fst (getEntry c now key) = None" unfolding r by simp
  show "absent key (snd (getEntry c now key))" unfolding r using a g(3) by (simp add: absent_def)
  show "dict_inv (store (snd (getEntry c now key)))" unfolding r using i1 g(2) by simp
qed

lemma absent_bump [simp]:
  "absent key (bumpMisses c) = absent key c"
  "absent key (bumpHits c) = absent key c"
  "absent key (bumpOperations c) = absent key c"
  by (simp_all add: absent_def bumpMisses_def bumpHits_def bumpOperations_def)

lemma bumpOperations_fields [simp]:
  "store (bumpOperations c) = store c" "ttl (bumpOperations c) = ttl c"
  "usage (bumpOperations c) = usage c" "currentMemoryUsed (bumpOperations c) = currentMemoryUsed c"
  "evictionPool (bumpOperations c) = evictionPool c" "maxmemory (bumpOperations c) = maxmemory c"
  "evictionSampleSize (bumpOperations c) = evictionSampleSize c"
  "evictionPolicy (bumpOperations c) = evictionPolicy c"
  "operationCount (bumpOperations c) = operationCount c" "random (bumpOperations c) = random c"
  "expired (stats (bumpOperations c)) = expired (stats c)"
  "evictions (stats (bumpOperations c)) = evictions (stats c)"
  by (simp_all add: bumpOperations_def)

lemma expired_reads:
  assumes inv: "dict_inv (store c)" and e: "Map_get (expirations (ttl c)) key = Some deadline"
    and p: "deadline \<le> now"
  shows "fst (Cache_get c now key) = Inr None \<and> absent key (snd (Cache_get c now key))"
    and "fst (Cache_zscore c now key mb) = Inr None \<and> absent key (snd (Cache_zscore c now key mb))"
    and "\<exists>c'. Cache_zrank c now key mb = Some (Inr None, c') \<and> absent key c'"
    and "\<exists>c'. Cache_zrangeByScore c now key mn mx limit = Some (Inr [], c') \<and> absent key c'"
    and "fst (Cache_smembers c now key) = Inr [] \<and> absent key (snd (Cache_smembers c now key))"
proof -
  have i: "dict_inv (store (bumpOperations c))"
    and e': "Map_get (expirations (ttl (bumpOperations c))) key = Some deadline"
    using inv e by simp_all
  note g = getEntry_expired[OF i e' p]
  obtain c1 where c1: "getEntry (bumpOperations c) now key = (None, c1)" and a: "absent key c1"
    using g(1,2) by (cases "getEntry (bumpOperations c) now key") auto
  show "fst (Cache_get c now key) = Inr None \<and> absent key (snd (Cache_get c now key))"
    using a by (simp add: Cache_get_def c1)
  show "fst (Cache_zscore c now key mb) = Inr None \<and> absent key (snd (Cache_zscore c now key mb))"
    using a by (simp add: Cache_zscore_def c1)
  show "\<exists>c'. Cache_zrank c now key mb = Some (Inr None, c') \<and> absent key c'"
    using a by (simp add: Cache_zrank_def c1)
  show "\<exists>c'. Cache_zrangeByScore c now key mn mx limit = Some (Inr [], c') \<and> absent key c'"
    using a by (simp add: Cache_zrangeByScore_def c1)
  show "fst (Cache_smembers c now key) = Inr [] \<and> absent key (snd (Cache_smembers c now key))"
    using a by (simp add: Cache_smembers_def c1)
qed

subsection \<open>Explicit delete\<close>

lemma Cache_del_present:
  assumes inv: "dict_inv (store c)" and p: "lookup2 (store c) key \<noteq> None"
  shows "fst (Cache_del c key) = 1" and "absent key (snd (Cache_del c key))"
    and "expired (stats (snd (Cache_del c key))) = expired (stats c)"
    and "dict_inv (store (snd (Cache_del c key)))"
proof -
  let ?c0 = "bumpOperations c"
  note h = dict_has_spec[OF inv, of key]
  let ?c1 = "?c0\<lparr>store := snd (dict_has (store ?c0) key)\<rparr>"
  have i1: "dict_inv (store ?c1)" using h(2) by simp
  from h(1) p have t: "fst (dict_has (store ?c0) key)" by simp
  then have r: "Cache_del c key = (1, deleteKey ?c1 key)"
    by (cases "dict_has (store ?c0) key") (auto simp: Cache_del_def Let_def)
  show "fst (Cache_del c key) = 1" unfolding r by simp
  show "absent key (snd (Cache_del c key))" unfolding r
    using gone_deleteKey[OF i1, of key] by (simp add: absent_def del: Cache.simps)
  show "expired (stats (snd (Cache_del c key))) = expired (stats c)" unfolding r
    by (simp add: deleteKey_fields)
  show "dict_inv (store (snd (Cache_del c key)))" unfolding r
    using deleteKey_store(1)[OF i1] by simp
qed

subsection \<open>Writes to an entry in place\<close>

lemma Map_entries_slot_map:
  "Map_entries (map (slot_map k f) m) = map (\<lambda>e. if fst e = k then (fst e, f (snd e)) else e) (Map_entries m)"
  by (induction m rule: Map_entries.induct) auto

lemma Map_keys_slot_map: "Map_keys (map (slot_map k f) m) = Map_keys m"
  by (simp add: Map_keys_def Map_entries_slot_map comp_def if_distrib cong: if_cong)

lemma map_of_slot_map:
  "map_of (map (\<lambda>e. if fst e = k then (fst e, f (snd e)) else e) xs) x =
     (if x = k then map_option f (map_of xs k) else map_of xs x)"
  by (induction xs) auto

lemma Map_get_slot_map:
  "Map_get (map (slot_map k f) m) x = (if x = k then map_option f (Map_get m k) else Map_get m x)"
  by (simp add: Map_get_def Map_entries_slot_map map_of_slot_map)

lemma mutateEntry_spec:
  assumes "dict_inv d"
  shows "dict_inv (mutateEntry d k f)"
    and "lookup2 (mutateEntry d k f) = (\<lambda>x. if x = k then map_option f (lookup2 d k) else lookup2 d x)"
proof -
  have r: "isRehashing (mutateEntry d k f) = isRehashing d"
    by (simp add: mutateEntry_def isRehashing_def)
  have e: "\<And>n m. Map_entries (take n m) = [] \<Longrightarrow> Map_entries (take n (map (slot_map k f) m)) = []"
    by (simp add: take_map Map_entries_slot_map)
  show "dict_inv (mutateEntry d k f)"
  proof (cases "isRehashing d")
    case True
    with assms obtain h1 it where h: "ht1 d = Some h1" "rehashIterator d = Some it"
      by (auto simp: dict_inv_def split: option.splits)
    with assms True show ?thesis
      using r by (simp add: dict_inv_def mutateEntry_def Map_keys_slot_map e)
  next
    case False
    with assms show ?thesis using r by (simp add: dict_inv_def mutateEntry_def Map_keys_slot_map)
  qed
  show "lookup2 (mutateEntry d k f) = (\<lambda>x. if x = k then map_option f (lookup2 d k) else lookup2 d x)"
  proof
    fix x
    show "lookup2 (mutateEntry d k f) x = (if x = k then map_option f (lookup2 d k) else lookup2 d x)"
      by (cases "isRehashing d"; cases "ht1 d")
         (auto simp: lookup2_def mutateEntry_def isRehashing_def Map_get_slot_map split: option.splits)
  qed
qed

subsection \<open>The eviction loop only deletes keys\<close>

lemma refillPool_same:
  assumes "dict_inv (store c)" and "refillPool c = Some (b, c1)"
  shows "dict_inv (store c1)" and "lookup2 (store c1) = lookup2 (store c)"
    and "ttl c1 = ttl c" and "usage c1 = usage c" and "currentMemoryUsed c1 = currentMemoryUsed c"
    and "stats c1 = stats c" and "maxmemory c1 = maxmemory c"
    and "evictionSampleSize c1 = evictionSampleSize c" and "evictionPolicy c1 = evictionPolicy c"
    and "operationCount c1 = operationCount c"
proof -
  note k = dict_keys_spec[OF assms(1)]
  from assms(2) have "store c1 = snd (dict_keys (store c)) \<and> ttl c1 = ttl c \<and> usage c1 = usage c \<and>
     currentMemoryUsed c1 = currentMemoryUsed c \<and> stats c1 = stats c \<and> maxmemory c1 = maxmemory c \<and>
     evictionSampleSize c1 = evictionSampleSize c \<and> evictionPolicy c1 = evictionPolicy c \<and>
     operationCount c1 = operationCount c"
    by (auto simp: refillPool_def Let_def split_beta split: if_splits option.splits)
  then show "dict_inv (store c1)" and "lookup2 (store c1) = lookup2 (store c)"
    and "ttl c1 = ttl c" and "usage c1 = usage c" and "currentMemoryUsed c1 = currentMemoryUsed c"
    and "stats c1 = stats c" and "maxmemory c1 = maxmemory c"
    and "evictionSampleSize c1 = evictionSampleSize c" and "evictionPolicy c1 = evictionPolicy c"
    and "operationCount c1 = operationCount c"
    using k by simp_all
qed

lemma shrinks_refillPool:
  "dict_inv (store c) \<Longrightarrow> refillPool c = Some (b, c1) \<Longrightarrow> shrinks c c1"
  using refillPool_same[of c b c1] by (intro shrinks_same) simp_all

lemma evictVictim_cases:
  "evictVictim c = (b, c') \<Longrightarrow>
   (b \<and> c' = c \<and> evictionPool c = []) \<or>
   (\<exists>victim rest. evictionPool c = victim # rest \<and>
      ((b \<and> victim = [] \<and> c' = c\<lparr>evictionPool := rest\<rparr>) \<or>
       (\<not> b \<and> victim \<noteq> [] \<and> fst (dict_has (store c) victim) \<and>
        c' = (let c2 = deleteKey (c\<lparr>evictionPool := rest, store := snd (dict_has (store c) victim)\<rparr>) victim
              in c2\<lparr>stats := (stats c2)\<lparr>evictions := evictions (stats c2) + 1\<rparr>\<rparr>)) \<or>
       (\<not> b \<and> victim \<noteq> [] \<and> \<not> fst (dict_has (store c) victim) \<and>
        c' = c\<lparr>evictionPool := rest, store := snd (dict_has (store c) victim)\<rparr>)))"
  by (cases "evictionPool c")
     (auto simp: evictVictim_def Let_def split_beta split: if_splits bool.splits prod.splits)

lemma shrinks_evictVictim:
  assumes "dict_inv (store c)" and "evictVictim c = (b, c')"
  shows "shrinks c c'"
proof -
  from evictVictim_cases[OF assms(2)]
  consider (empty) "c' = c"
    | (falsy) rest where "c' = c\<lparr>evictionPool := rest\<rparr>"
    | (evict) victim rest where
        "c' = (let c2 = deleteKey (c\<lparr>evictionPool := rest, store := snd (dict_has (store c) victim)\<rparr>) victim
              in c2\<lparr>stats := (stats c2)\<lparr>evictions := evictions (stats c2) + 1\<rparr>\<rparr>)"
    | (skip) victim rest where "c' = c\<lparr>evictionPool := rest, store := snd (dict_has (store c) victim)\<rparr>"
    by blast
  then show ?thesis
  proof cases
    case empty
    then show ?thesis using assms(1) by (simp add: shrinks_refl)
  next
    case (falsy rest)
    then show ?thesis using assms(1) by (intro shrinks_same) simp_all
  next
    case (evict victim rest)
    let ?c1 = "c\<lparr>evictionPool := rest, store := snd (dict_has (store c) victim)\<rparr>"
    note h = dict_has_spec[OF assms(1), of victim]
    have s1: "shrinks c ?c1" using h by (intro shrinks_same) simp_all
    have i1: "dict_inv (store ?c1)" using h by simp
    have s2: "shrinks ?c1 (deleteKey ?c1 victim)" by (rule shrinks_deleteKey[OF i1])
    have s3: "shrinks (deleteKey ?c1 victim) c'"
      using s2 unfolding evict by (intro shrinks_same) (simp_all add: Let_def shrinks_def)
    from s1 s2 s3 show ?thesis by (blast intro: shrinks_trans)
  next
    case (skip victim rest)
    note h = dict_has_spec[OF assms(1), of victim]
    show ?thesis unfolding skip using h by (intro shrinks_same) simp_all
  qed
qed

lemma shrinks_evictLoop_aux:
  assumes "evictLoop c0 = Some c0'"
  shows "dict_inv (store c0) \<longrightarrow> shrinks c0 c0'"
proof (rule evictLoop.raw_induct[where P="\<lambda>c c'. dict_inv (store c) \<longrightarrow> shrinks c c'"], goal_cases)
  case (1 evictLoop' c c')
  note IH = 1(1) and body = 1(2)
  show ?case
  proof
    assume inv: "dict_inv (store c)"
    show "shrinks c c'"
    proof (cases "maxmemory c < currentMemoryUsed c \<and> 0 < dict_size (store c)")
      case False
      with body have "c' = c" by simp
      then show ?thesis using inv by (simp add: shrinks_refl)
    next
      case True
      from True body obtain brk1 c1 where
        r: "(if evictionPool c = [] then refillPool c else Some (False, c)) = Some (brk1, c1)"
        by (auto split: option.splits)
      then have s1: "shrinks c c1"
        using shrinks_refillPool[OF inv] shrinks_refl[OF inv] by (auto split: if_splits)
      then have i1: "dict_inv (store c1)" by (simp add: shrinks_def)
      show ?thesis
      proof (cases brk1)
        case True
        with \<open>maxmemory c < currentMemoryUsed c \<and> 0 < dict_size (store c)\<close> body r
        have "c' = c1" by simp
        with s1 show ?thesis by simp
      next
        case False
        obtain brk2 c2 where v: "evictVictim c1 = (brk2, c2)" by (cases "evictVictim c1") auto
        note s2 = shrinks_evictVictim[OF i1 v]
        then have i2: "dict_inv (store c2)" by (simp add: shrinks_def)
        from False \<open>maxmemory c < currentMemoryUsed c \<and> 0 < dict_size (store c)\<close> body r v
        have "(if brk2 then Some c2 else evictLoop' c2) = Some c'" by simp
        then have "shrinks c2 c'"
          using IH[of c2 c'] i2 shrinks_refl[OF i2] by (auto split: if_splits)
        with s1 s2 show ?thesis by (blast intro: shrinks_trans)
      qed
    qed
  qed
next
  case 2
  show ?case by (rule assms)
qed

lemma shrinks_evictLoop:
  "evictLoop c = Some c' \<Longrightarrow> dict_inv (store c) \<Longrightarrow> shrinks c c'"
  using shrinks_evictLoop_aux by blast

lemma shrinks_evictIfNeeded:
  "evictIfNeeded c = Some c' \<Longrightarrow> dict_inv (store c) \<Longrightarrow> shrinks c c'"
  using shrinks_evictLoop[of c c'] shrinks_refl[of c]
  by (auto simp: evictIfNeeded_def split: if_splits)

subsection \<open>Reachable states\<close>

text \<open>
  The states of a cache: the constructor's, and those any public operation or background
  tick produces from a state of the cache, at any time and for any random draws.
\<close>

inductive reachable :: "Cache \<Rightarrow> bool" where
  r_new: "reachable (new_Cache options rnd)"
| r_set: "reachable c \<Longrightarrow> Cache_set c now key val px = Some c' \<Longrightarrow> reachable c'"
| r_get: "reachable c \<Longrightarrow> reachable (snd (Cache_get c now key))"
| r_del: "reachable c \<Longrightarrow> reachable (snd (Cache_del c key))"
| r_zadd: "reachable c \<Longrightarrow> Cache_zadd c now key sc mb = Some (r, c') \<Longrightarrow> reachable c'"
| r_zrem: "reachable c \<Longrightarrow> Cache_zrem c now key mb = Some (r, c') \<Longrightarrow> reachable c'"
| r_zscore: "reachable c \<Longrightarrow> reachable (snd (Cache_zscore c now key mb))"
| r_zrank: "reachable c \<Longrightarrow> Cache_zrank c now key mb = Some (ri, c') \<Longrightarrow> reachable c'"
| r_zrange: "reachable c \<Longrightarrow> Cache_zrangeByScore c now key mn mx limit = Some (rl, c') \<Longrightarrow> reachable c'"
| r_sadd: "reachable c \<Longrightarrow> Cache_sadd c now key members = Some (r, c') \<Longrightarrow> reachable c'"
| r_smembers: "reachable c \<Longrightarrow> reachable (snd (Cache_smembers c now key))"
| r_shutdown: "reachable c \<Longrightarrow> reachable (Cache_shutdown c)"
| r_expire: "reachable c \<Longrightarrow> reachable (snd (Cache_activeExpirationTick c now))"
| r_decay: "reachable c \<Longrightarrow> reachable (Cache_decayTick c now)"

definition cache_inv :: "Cache \<Rightarrow> bool" where
  "cache_inv c = (dict_inv (store c) \<and> 0 < evictionSampleSize c)"

lemma cache_inv_shrinks: "cache_inv c \<Longrightarrow> shrinks c c' \<Longrightarrow> cache_inv c'"
  by (simp add: cache_inv_def shrinks_def)

lemma cache_inv_new: "cache_inv (new_Cache options rnd)"
  by (simp add: cache_inv_def new_Cache_def Let_def dict_inv_Dictionary split: option.splits)

lemma cache_inv_bump [simp]:
  "cache_inv (bumpOperations c) = cache_inv c"
  "cache_inv (bumpHits c) = cache_inv c"
  "cache_inv (bumpMisses c) = cache_inv c"
  by (simp_all add: cache_inv_def bumpOperations_def bumpHits_def bumpMisses_def)

lemma cache_inv_upd [simp]:
  "cache_inv (c\<lparr>usage := u\<rparr>) = cache_inv c"
  "cache_inv (c\<lparr>random := r\<rparr>) = cache_inv c"
  "cache_inv (c\<lparr>ttl := t\<rparr>) = cache_inv c"
  "cache_inv (c\<lparr>currentMemoryUsed := m\<rparr>) = cache_inv c"
  "cache_inv (c\<lparr>stats := s\<rparr>) = cache_inv c"
  "cache_inv (c\<lparr>evictionPool := p\<rparr>) = cache_inv c"
  "cache_inv (c\<lparr>operationCount := n\<rparr>) = cache_inv c"
  by (simp_all add: cache_inv_def)

lemma cache_inv_store: "cache_inv c \<Longrightarrow> dict_inv d \<Longrightarrow> cache_inv (c\<lparr>store := d\<rparr>)"
  by (simp add: cache_inv_def)

lemma getEntry_cases:
  assumes "getEntry c now key = (e, c')"
  defines "c1 \<equiv> snd (checkExpired c now key)"
  shows "(e = None \<and> fst (checkExpired c now key) \<and> c' = c1) \<or>
   (e = None \<and> \<not> fst (checkExpired c now key) \<and> fst (dict_get (store c1) key) = None \<and>
      c' = c1\<lparr>store := snd (dict_get (store c1) key)\<rparr>) \<or>
   (\<exists>ent. e = Some ent \<and> \<not> fst (checkExpired c now key) \<and>
      fst (dict_get (store c1) key) = Some ent \<and>
      c' = c1\<lparr>store := snd (dict_get (store c1) key),
               usage := fst (touch (usage c1) now key (random c1)),
               random := snd (touch (usage c1) now key (random c1))\<rparr>)"
  using assms(1) unfolding c1_def
  by (cases "checkExpired c now key"; cases "dict_get (store (snd (checkExpired c now key))) key")
     (auto simp: getEntry_def split_beta split: bool.splits option.splits)

lemma getEntry_inv:
  assumes "cache_inv c" and "getEntry c now key = (e, c')"
  shows "cache_inv c'"
proof -
  let ?c1 = "snd (checkExpired c now key)"
  from assms(1) have "shrinks c ?c1" by (simp add: cache_inv_def shrinks_checkExpired)
  with assms(1) have i1: "cache_inv ?c1" by (rule cache_inv_shrinks)
  then have "dict_inv (snd (dict_get (store ?c1) key))"
    by (simp add: cache_inv_def dict_get_spec)
  with i1 getEntry_cases[OF assms(2)] show ?thesis by (auto simp: cache_inv_def)
qed

lemma cache_inv_deleteKey: "cache_inv c \<Longrightarrow> cache_inv (deleteKey c k)"
  using shrinks_deleteKey[of c k] by (auto simp: cache_inv_def shrinks_def)

lemma cache_inv_get: "cache_inv c \<Longrightarrow> cache_inv (snd (Cache_get c now key))"
  using getEntry_inv[of "bumpOperations c" now key]
  by (cases "getEntry (bumpOperations c) now key")
     (auto simp: Cache_get_def split: option.splits)

lemma cache_inv_zscore: "cache_inv c \<Longrightarrow> cache_inv (snd (Cache_zscore c now key mb))"
  using getEntry_inv[of "bumpOperations c" now key]
  by (cases "getEntry (bumpOperations c) now key")
     (auto simp: Cache_zscore_def split: option.splits)

lemma cache_inv_smembers: "cache_inv c \<Longrightarrow> cache_inv (snd (Cache_smembers c now key))"
  using getEntry_inv[of "bumpOperations c" now key]
  by (cases "getEntry (bumpOperations c) now key")
     (auto simp: Cache_smembers_def split: option.splits)

lemma cache_inv_zrank: "cache_inv c \<Longrightarrow> Cache_zrank c now key mb = Some (r, c') \<Longrightarrow> cache_inv c'"
  using getEntry_inv[of "bumpOperations c" now key]
  by (cases "getEntry (bumpOperations c) now key")
     (auto simp: Cache_zrank_def split: option.splits if_splits entry_value.splits)

lemma cache_inv_zrange:
  "cache_inv c \<Longrightarrow> Cache_zrangeByScore c now key mn mx limit = Some (r, c') \<Longrightarrow> cache_inv c'"
  using getEntry_inv[of "bumpOperations c" now key]
  by (cases "getEntry (bumpOperations c) now key")
     (auto simp: Cache_zrangeByScore_def split: option.splits if_splits entry_value.splits)

lemma cache_inv_mutate: "cache_inv c \<Longrightarrow> cache_inv (c\<lparr>store := mutateEntry (store c) k f\<rparr>)"
  by (simp add: cache_inv_def mutateEntry_spec)

lemma cache_inv_zrem: "cache_inv c \<Longrightarrow> Cache_zrem c now key mb = Some (r, c') \<Longrightarrow> cache_inv c'"
  using getEntry_inv[of "bumpOperations c" now key]
  by (cases "getEntry (bumpOperations c) now key")
     (auto simp: Cache_zrem_def Let_def cache_inv_mutate
           split: option.splits if_splits entry_value.splits)

lemma cache_inv_del: "cache_inv c \<Longrightarrow> cache_inv (snd (Cache_del c key))"
proof -
  assume a: "cache_inv c"
  then have "dict_inv (snd (dict_has (store c) key))" by (simp add: cache_inv_def dict_has_spec)
  with a have "cache_inv (bumpOperations c\<lparr>store := snd (dict_has (store c) key)\<rparr>)"
    by (simp add: cache_inv_store)
  then show ?thesis
    by (cases "dict_has (store c) key")
       (auto simp: Cache_del_def Let_def cache_inv_deleteKey split: bool.splits)
qed

lemma cache_inv_evictIfNeeded: "cache_inv c \<Longrightarrow> evictIfNeeded c = Some c' \<Longrightarrow> cache_inv c'"
  using shrinks_evictIfNeeded[of c c'] by (auto simp: cache_inv_def shrinks_def)

lemma cache_inv_set: "cache_inv c \<Longrightarrow> Cache_set c now key val px = Some c' \<Longrightarrow> cache_inv c'"
proof -
  assume a: "cache_inv c" and s: "Cache_set c now key val px = Some c'"
  from s obtain c1 where e: "evictIfNeeded (bumpOperations c) = Some c1"
    by (auto simp: Cache_set_def split: option.splits)
  with a have i1: "cache_inv c1" using cache_inv_evictIfNeeded[of "bumpOperations c" c1] by simp
  then have "dict_inv (dict_set (snd (dict_get (store c1) key)) key v)" for v
    by (simp add: cache_inv_def dict_get_spec dict_set_spec)
  with i1 s e show ?thesis
    by (auto simp: Cache_set_def Let_def split_beta cache_inv_def split: option.splits)
qed

lemma cache_inv_checkExpired: "cache_inv c \<Longrightarrow> cache_inv (snd (checkExpired c now key))"
  using shrinks_checkExpired[of c now key] by (auto simp: cache_inv_def shrinks_def)

lemma cache_inv_zadd: "cache_inv c \<Longrightarrow> Cache_zadd c now key sc mb = Some (r, c') \<Longrightarrow> cache_inv c'"
proof -
  assume a: "cache_inv c" and s: "Cache_zadd c now key sc mb = Some (r, c')"
  let ?c0 = "snd (checkExpired (bumpOperations c) now key)"
  from a have i0: "cache_inv ?c0" by (simp add: cache_inv_checkExpired)
  from s obtain c1 where e: "evictIfNeeded ?c0 = Some c1"
    by (auto simp: Cache_zadd_def split: option.splits)
  with i0 have i1: "cache_inv c1" by (rule cache_inv_evictIfNeeded)
  then have d: "dict_inv (snd (dict_get (store c1) key))" by (simp add: cache_inv_def dict_get_spec)
  then have "dict_inv (dict_set (snd (dict_get (store c1) key)) key v)"
    and "dict_inv (mutateEntry (snd (dict_get (store c1) key)) key f)" for v f
    by (simp_all add: dict_set_spec mutateEntry_spec)
  with i1 d s e show ?thesis
    by (auto simp: Cache_zadd_def Let_def split_beta cache_inv_def
        split: option.splits if_splits entry_value.splits)
qed

lemma cache_inv_sadd: "cache_inv c \<Longrightarrow> Cache_sadd c now key ms = Some (r, c') \<Longrightarrow> cache_inv c'"
proof -
  assume a: "cache_inv c" and s: "Cache_sadd c now key ms = Some (r, c')"
  let ?c0 = "snd (checkExpired (bumpOperations c) now key)"
  from a have i0: "cache_inv ?c0" by (simp add: cache_inv_checkExpired)
  from s obtain c1 where e: "evictIfNeeded ?c0 = Some c1"
    by (auto simp: Cache_sadd_def split: option.splits)
  with i0 have i1: "cache_inv c1" by (rule cache_inv_evictIfNeeded)
  then have d: "dict_inv (snd (dict_get (store c1) key))" by (simp add: cache_inv_def dict_get_spec)
  then have "dict_inv (dict_set (snd (dict_get (store c1) key)) key v)"
    and "dict_inv (mutateEntry (snd (dict_get (store c1) key)) key f)"
    and "dict_inv (mutateEntry (dict_set (snd (dict_get (store c1) key)) key v) key f)" for v f
    by (simp_all add: dict_set_spec mutateEntry_spec)
  with i1 d s e show ?thesis
    by (auto simp: Cache_sadd_def Let_def split_beta cache_inv_def
        split: option.splits if_splits)
qed

lemma shrinks_flushPending:
  assumes "dict_inv (store c)"
  shows "shrinks c (flushPending ttl putTtl expireCallback c)"
proof -
  define s2 where "s2 = fold expireCallback (pendingDeletes (ttl c)) c"
  have f: "dict_inv (store s2)" "\<forall>key. kept_or_gone key c s2" "maxmemory s2 = maxmemory c"
    "evictionSampleSize s2 = evictionSampleSize c" "evictionPolicy s2 = evictionPolicy c"
    using fold_expireCallback[OF assms, where ks="pendingDeletes (ttl c)"]
      evictionPolicy_fold_expireCallback[of "pendingDeletes (ttl c)" c]
    by (simp_all add: s2_def)
  then have "shrinks c s2" by (simp add: shrinks_def)
  moreover have "shrinks s2 (flushPending ttl putTtl expireCallback c)"
    using f(1) by (intro shrinks_same) (simp_all add: flushPending_def Let_def s2_def putTtl_def)
  ultimately show ?thesis by (rule shrinks_trans)
qed

lemma cache_inv_shutdown: "cache_inv c \<Longrightarrow> cache_inv (Cache_shutdown c)"
  using shrinks_flushPending[of c]
  by (auto simp: Cache_shutdown_def Let_def flushPendingDeletes_def cache_inv_def shrinks_def)

lemma shrinks_activeRounds:
  "dict_inv (store c) \<Longrightarrow>
   shrinks c (snd (activeRounds ttl putTtl expireCallback smp mx now rounds (c::Cache)))"
proof (induction "mx - rounds" arbitrary: rounds c rule: less_induct)
  case less
  let ?sampled = "min smp (Map_size (expirations (ttl c)))"
  let ?r = "sampleAndPurge ttl putTtl ?sampled now expireCallback c"
  note s1 = shrinks_sampleAndPurge[OF less.prems, of ?sampled now]
  then have i1: "dict_inv (store (snd ?r))" by (simp add: shrinks_def)
  show ?case
  proof (cases "?sampled = 0")
    case True
    then show ?thesis using less.prems
      by (subst activeRounds.simps) (simp add: Let_def shrinks_refl)
  next
    case False
    show ?thesis
    proof (cases "real (fst ?r) > real ?sampled * 0.25 \<and> rounds + 1 < mx")
      case True
      then have "rounds + 1 < mx" by blast
      then have "mx - (rounds + 1) < mx - rounds" by arith
      from less.hyps[OF this i1] s1
      have "shrinks c (snd (activeRounds ttl putTtl expireCallback smp mx now (rounds + 1) (snd ?r)))"
        by (rule shrinks_trans[rotated])
      then show ?thesis using False True
        by (subst activeRounds.simps) (auto simp: Let_def split_beta)
    next
      case False
      then show ?thesis using \<open>?sampled \<noteq> 0\<close> s1
        by (subst activeRounds.simps) (auto simp: Let_def split_beta)
    qed
  qed
qed

lemma cache_inv_activeTick: "cache_inv c \<Longrightarrow> cache_inv (snd (Cache_activeExpirationTick c now))"
  using shrinks_activeRounds[of c]
  by (auto simp: Cache_activeExpirationTick_def activeExpirationTick_def cache_inv_def shrinks_def
      split: option.splits)

lemma cache_inv_decayTick: "cache_inv c \<Longrightarrow> cache_inv (Cache_decayTick c now)"
  by (simp add: Cache_decayTick_def)

lemma reachable_inv: "reachable c \<Longrightarrow> cache_inv c"
proof (induction rule: reachable.induct)
  case (r_new options rnd)
  then show ?case by (rule cache_inv_new)
qed (auto intro: cache_inv_set cache_inv_get cache_inv_del cache_inv_zadd cache_inv_zrem
      cache_inv_zscore cache_inv_zrank cache_inv_zrange cache_inv_sadd cache_inv_smembers
      cache_inv_shutdown cache_inv_activeTick cache_inv_decayTick)

lemma reachable_dict_inv: "reachable c \<Longrightarrow> dict_inv (store c)"
  using reachable_inv by (simp add: cache_inv_def)

subsection \<open>Claims on expiration and delete\<close>

text \<open>An example state: a new cache with default options in which \<^verbatim>\<open>set("temp", "v", 100)\<close>
  ran at time 1000.\<close>

definition default_options :: CacheOptions where
  "default_options = \<lparr>opt_maxmemory = None, opt_evictionPolicy = None, opt_evictionSampleSize = None\<rparr>"

definition temp_cache :: Cache where
  "temp_cache = the (Cache_set (new_Cache default_options (\<lambda>n. 0)) 1000 ''temp'' ''v'' (Some 100))"

lemma temp_cache_set:
  "Cache_set (new_Cache default_options (\<lambda>n. 0)) 1000 ''temp'' ''v'' (Some 100) = Some temp_cache"
proof -
  have "\<not> Option.is_none (Cache_set (new_Cache default_options (\<lambda>n. 0)) 1000 ''temp'' ''v'' (Some 100))"
    by code_simp
  then show ?thesis by (auto simp: temp_cache_def Option.is_none_def)
qed

lemma temp_cache_reachable: "reachable temp_cache"
  using r_set[OF r_new temp_cache_set] .

lemma temp_cache_ttl: "Map_get (expirations (ttl temp_cache)) ''temp'' = Some 1100"
  unfolding temp_cache_def by code_simp

lemma temp_cache_entry: "lookup2 (store temp_cache) ''temp'' \<noteq> None"
  unfolding temp_cache_def by code_simp

text \<open>
  Claim C1: in a reachable state, for a key whose TTL record has a deadline at or before the
  current time, each of get, zscore, zrank, zrangeByScore and smembers returns the
  missing-key result (null or the empty list), and in the state it leaves the key has no
  entry, no TTL record and no usage metadata.
\<close>

theorem expired_key_reclaimed_before_read:
  assumes "reachable c" and "Map_get (expirations (ttl c)) key = Some deadline" and "deadline \<le> now"
  shows "(fst (Cache_get c now key) = Inr None \<and> absent key (snd (Cache_get c now key))) \<and>
         (fst (Cache_zscore c now key mb) = Inr None \<and> absent key (snd (Cache_zscore c now key mb))) \<and>
         (\<exists>c'. Cache_zrank c now key mb = Some (Inr None, c') \<and> absent key c') \<and>
         (\<exists>c'. Cache_zrangeByScore c now key mn mx limit = Some (Inr [], c') \<and> absent key c') \<and>
         (fst (Cache_smembers c now key) = Inr [] \<and> absent key (snd (Cache_smembers c now key)))"
  using expired_reads[OF reachable_dict_inv[OF assms(1)] assms(2,3)] by blast

theorem expired_key_reclaimed_before_read_witness:
  "reachable temp_cache \<and> Map_get (expirations (ttl temp_cache)) ''temp'' = Some 1100 \<and>
   (1100::int) \<le> 1150 \<and>
   fst (Cache_get temp_cache 1150 ''temp'') = Inr None \<and>
   absent ''temp'' (snd (Cache_get temp_cache 1150 ''temp'')) \<and>
   fst (Cache_smembers temp_cache 1150 ''temp'') = Inr [] \<and>
   (\<exists>c'. Cache_zrank temp_cache 1150 ''temp'' ''m'' = Some (Inr None, c') \<and> absent ''temp'' c')"
proof -
  have le: "(1100::int) \<le> 1150" by simp
  from expired_key_reclaimed_before_read[OF temp_cache_reachable temp_cache_ttl le]
  show ?thesis using temp_cache_reachable temp_cache_ttl by simp
qed

text \<open>
  Claim C10: del makes no expiration check. In a reachable state, for a key that still has
  an entry and whose TTL deadline has passed, del returns 1, removes the entry with its TTL
  record and usage metadata, and leaves the expirations counter as it was.
\<close>

theorem del_makes_no_expiration_check:
  assumes "reachable c" and "lookup2 (store c) key \<noteq> None" and "isExpired (ttl c) now key"
  shows "fst (Cache_del c key) = 1 \<and> absent key (snd (Cache_del c key)) \<and>
         expired (stats (snd (Cache_del c key))) = expired (stats c)"
  using Cache_del_present[OF reachable_dict_inv[OF assms(1)] assms(2)] by simp

lemma temp_cache_expired: "isExpired (ttl temp_cache) 1150 ''temp''"
  by (simp add: isExpired_def temp_cache_ttl)

theorem del_makes_no_expiration_check_witness:
  "reachable temp_cache \<and> lookup2 (store temp_cache) ''temp'' \<noteq> None \<and>
   isExpired (ttl temp_cache) 1150 ''temp'' \<and>
   fst (Cache_del temp_cache ''temp'') = 1 \<and> absent ''temp'' (snd (Cache_del temp_cache ''temp'')) \<and>
   expired (stats (snd (Cache_del temp_cache ''temp''))) = expired (stats temp_cache)"
  using del_makes_no_expiration_check[OF temp_cache_reachable temp_cache_entry temp_cache_expired]
    temp_cache_reachable temp_cache_entry temp_cache_expired by simp

subsection \<open>Claim on the memory counter\<close>

text \<open>
  The calls \<^verbatim>\<open>set("a", "")\<close>, \<^verbatim>\<open>zadd("z", 1, "mmmmmmmm")\<close>, \<^verbatim>\<open>zrem("z", "mmmmmmmm")\<close> and
  \<^verbatim>\<open>del("a")\<close> on a new cache with default options, and the states after each.
\<close>

definition drift1 :: Cache where
  "drift1 = the (Cache_set (new_Cache default_options (\<lambda>n. 0)) 1000 ''a'' [] None)"

definition drift2 :: Cache where
  "drift2 = snd (the (Cache_zadd drift1 1001 ''z'' (Fin 1) ''mmmmmmmm''))"

definition drift3 :: Cache where
  "drift3 = snd (the (Cache_zrem drift2 1002 ''z'' ''mmmmmmmm''))"

definition drift4 :: Cache where
  "drift4 = snd (Cache_del drift3 ''a'')"

lemma drift_steps:
  "\<not> Option.is_none (Cache_set (new_Cache default_options (\<lambda>n. 0)) 1000 ''a'' [] None)"
  "\<not> Option.is_none (Cache_zadd drift1 1001 ''z'' (Fin 1) ''mmmmmmmm'')"
  "\<not> Option.is_none (Cache_zrem drift2 1002 ''z'' ''mmmmmmmm'')"
  unfolding drift1_def drift2_def drift3_def by code_simp+

lemma drift_reachable: "reachable drift4"
proof -
  have 1: "reachable drift1"
    using drift_steps(1) r_set[OF r_new, of default_options "\<lambda>n. 0" 1000 "''a''" "[]" None drift1]
    by (auto simp: drift1_def Option.is_none_def)
  have 2: "reachable drift2"
    using drift_steps(2) r_zadd[OF 1, of 1001 "''z''" "Fin 1" "''mmmmmmmm''"]
    by (cases "Cache_zadd drift1 1001 ''z'' (Fin 1) ''mmmmmmmm''")
       (auto simp: drift2_def Option.is_none_def)
  have 3: "reachable drift3"
    using drift_steps(3) r_zrem[OF 2, of 1002 "''z''" "''mmmmmmmm''"]
    by (cases "Cache_zrem drift2 1002 ''z'' ''mmmmmmmm''")
       (auto simp: drift3_def Option.is_none_def)
  show ?thesis unfolding drift4_def by (rule r_del[OF 3])
qed

text \<open>
  Claim C4 fails on the code: the state after these four calls is reachable and its memory
  counter is -14. The new ordered collection is charged 80 for its first member, zrem
  subtracts 2 * 8 + 80 = 96 from the counter, and the unguarded subtraction in the internal
  delete then takes the 50 of the scalar from the remaining 36.
\<close>

theorem memory_counter_negative:
  "reachable drift4 \<and> currentMemoryUsed drift1 = 50 \<and> currentMemoryUsed drift2 = 132 \<and>
   currentMemoryUsed drift3 = 36 \<and> currentMemoryUsed drift4 = -14"
proof -
  have "currentMemoryUsed drift1 = 50 \<and> currentMemoryUsed drift2 = 132 \<and>
        currentMemoryUsed drift3 = 36 \<and> currentMemoryUsed drift4 = -14"
    unfolding drift1_def drift2_def drift3_def drift4_def by code_simp
  with drift_reachable show ?thesis by simp
qed

subsection \<open>Claim on the active expiration loop\<close>

text \<open>
  The timer itself belongs to the host: \<^verbatim>\<open>setInterval(f, ms)\<close> called at time \<open>start\<close> runs
  \<open>f\<close> once every \<open>ms\<close> milliseconds, at \<open>start + ms\<close>, \<open>start + 2 ms\<close> and so on, until the
  timer is cleared; a delay below 1 counts as 1. \<open>tickTimes\<close> lists the times up to \<open>until\<close>
  at which a timer registered at \<open>start\<close> runs, and \<open>Cache_elapse\<close> runs the ticks of the
  cache's timer that fall due while the clock goes from \<open>start\<close> to \<open>until\<close> and no other call
  is made.
\<close>

definition tickTimes :: "timer \<Rightarrow> int \<Rightarrow> int \<Rightarrow> int list" where
  "tickTimes tm start until =
     (let ms = max 1 (intervalMs tm)
      in map (\<lambda>i. start + int i * ms) [1..<Suc (nat ((until - start) div ms))])"

definition Cache_elapse :: "Cache \<Rightarrow> int \<Rightarrow> int \<Rightarrow> Cache" where
  "Cache_elapse c start until =
     (case interval (ttl c) of
        None \<Rightarrow> c
      | Some tm \<Rightarrow> fold (\<lambda>t c'. snd (Cache_activeExpirationTick c' t)) (tickTimes tm start until) c)"

lemma timer_fold_expireCallback:
  "interval (ttl (fold expireCallback ks c)) = interval (ttl c)"
  by (induction ks arbitrary: c) (simp_all add: expireCallback_store deleteKey_fields TTL_delete_fields)

lemma timer_sampleAndPurge:
  "interval (ttl (snd (sampleAndPurge ttl putTtl k now expireCallback c))) = interval (ttl c)"
  by (simp add: sampleAndPurge_def Let_def flushPending_def putTtl_def split_beta
      timer_fold_expireCallback)

lemma timer_lazyPurge: "interval (ttl (lazyPurge c now)) = interval (ttl c)"
  by (simp add: lazyPurge_def Let_def timer_sampleAndPurge)

lemma timer_checkExpired: "interval (ttl (snd (checkExpired c now key))) = interval (ttl c)"
  by (simp add: checkExpired_def Let_def timer_lazyPurge expireCallback_store deleteKey_fields
      TTL_delete_fields)

lemma timer_getEntry: "interval (ttl (snd (getEntry c now key))) = interval (ttl c)"
  using timer_checkExpired[of c now key]
  by (cases "checkExpired c now key")
     (auto simp: getEntry_def split_beta split: bool.splits option.splits prod.splits)

lemma timer_bump [simp]:
  "ttl (bumpHits c) = ttl c" "ttl (bumpMisses c) = ttl c"
  by (simp_all add: bumpHits_def bumpMisses_def)

lemma timer_reads:
  "interval (ttl (snd (Cache_get c now key))) = interval (ttl c)"
  "interval (ttl (snd (Cache_zscore c now key mb))) = interval (ttl c)"
  "interval (ttl (snd (Cache_smembers c now key))) = interval (ttl c)"
  "Cache_zrank c now key mb = Some (ri, c') \<Longrightarrow> interval (ttl c') = interval (ttl c)"
  "Cache_zrangeByScore c now key mn mx limit = Some (rl, c'') \<Longrightarrow> interval (ttl c'') = interval (ttl c)"
  "Cache_zrem c now key mb = Some (rr, c''') \<Longrightarrow> interval (ttl c''') = interval (ttl c)"
  using timer_getEntry[of "bumpOperations c" now key]
  by (cases "getEntry (bumpOperations c) now key";
      auto simp: Cache_get_def Cache_zscore_def Cache_smembers_def Cache_zrank_def
        Cache_zrangeByScore_def Cache_zrem_def Let_def
        split: option.splits if_splits entry_value.splits)+

lemma timer_del: "interval (ttl (snd (Cache_del c key))) = interval (ttl c)"
  by (cases "dict_has (store (bumpOperations c)) key")
     (auto simp: Cache_del_def Let_def deleteKey_fields TTL_delete_fields split: bool.splits)

lemma refillPool_ttl: "refillPool c = Some (b, c1) \<Longrightarrow> ttl c1 = ttl c"
  by (auto simp: refillPool_def Let_def split_beta split: if_splits option.splits)

lemma timer_evictVictim: "evictVictim c = (b, c') \<Longrightarrow> interval (ttl c') = interval (ttl c)"
  using evictVictim_cases[of c b c']
  by (auto simp: Let_def deleteKey_fields TTL_delete_fields)

lemma timer_evictLoop_aux:
  assumes "evictLoop c0 = Some c0'"
  shows "interval (ttl c0') = interval (ttl c0)"
proof (rule evictLoop.raw_induct[where P="\<lambda>c c'. interval (ttl c') = interval (ttl c)"], goal_cases)
  case (1 evictLoop' c c')
  note IH = 1(1) and body = 1(2)
  show "interval (ttl c') = interval (ttl c)"
  proof (cases "maxmemory c < currentMemoryUsed c \<and> 0 < dict_size (store c)")
    case False
    with body have "c' = c" by simp
    then show ?thesis by simp
  next
    case True
    from True body obtain brk1 c1 where
      r: "(if evictionPool c = [] then refillPool c else Some (False, c)) = Some (brk1, c1)"
      by (auto split: option.splits)
    then have t1: "ttl c1 = ttl c" using refillPool_ttl[of c brk1 c1] by (auto split: if_splits)
    show ?thesis
    proof (cases brk1)
      case True
      with \<open>maxmemory c < currentMemoryUsed c \<and> 0 < dict_size (store c)\<close> body r
      have "c' = c1" by simp
      with t1 show ?thesis by simp
    next
      case False
      obtain brk2 c2 where v: "evictVictim c1 = (brk2, c2)" by (cases "evictVictim c1") auto
      note t2 = timer_evictVictim[OF v]
      from False \<open>maxmemory c < currentMemoryUsed c \<and> 0 < dict_size (store c)\<close> body r v
      have "(if brk2 then Some c2 else evictLoop' c2) = Some c'" by simp
      then have "interval (ttl c') = interval (ttl c2)"
        using IH[of c2 c'] by (auto split: if_splits)
      with t1 t2 show ?thesis by simp
    qed
  qed
next
  case 2
  show ?case by (rule assms)
qed

lemma timer_evictIfNeeded: "evictIfNeeded c = Some c' \<Longrightarrow> interval (ttl c') = interval (ttl c)"
  using timer_evictLoop_aux[of c c'] by (auto simp: evictIfNeeded_def split: if_splits)

lemma timer_set: "Cache_set c now key val px = Some c' \<Longrightarrow> interval (ttl c') = interval (ttl c)"
proof -
  assume s: "Cache_set c now key val px = Some c'"
  then obtain c1 where e: "evictIfNeeded (bumpOperations c) = Some c1"
    by (auto simp: Cache_set_def split: option.splits)
  from timer_evictIfNeeded[OF e] have "interval (ttl c1) = interval (ttl c)" by simp
  with s e show ?thesis
    by (auto simp: Cache_set_def Let_def split_beta TTL_set_def TTL_delete_def split: option.splits)
qed

lemma timer_zadd:
  "Cache_zadd c now key sc mb = Some (r, c') \<Longrightarrow> interval (ttl c') = interval (ttl c)"
proof -
  assume s: "Cache_zadd c now key sc mb = Some (r, c')"
  let ?c0 = "snd (checkExpired (bumpOperations c) now key)"
  from s obtain c1 where e: "evictIfNeeded ?c0 = Some c1"
    by (auto simp: Cache_zadd_def split: option.splits)
  from timer_evictIfNeeded[OF e] timer_checkExpired[of "bumpOperations c" now key]
  have "interval (ttl c1) = interval (ttl c)" by simp
  moreover from s e have "ttl c' = ttl c1"
    by (auto simp: Cache_zadd_def Let_def split_beta
        split: option.splits if_splits entry_value.splits)
  ultimately show ?thesis by simp
qed

lemma timer_sadd:
  "Cache_sadd c now key ms = Some (r, c') \<Longrightarrow> interval (ttl c') = interval (ttl c)"
proof -
  assume s: "Cache_sadd c now key ms = Some (r, c')"
  let ?c0 = "snd (checkExpired (bumpOperations c) now key)"
  from s obtain c1 where e: "evictIfNeeded ?c0 = Some c1"
    by (auto simp: Cache_sadd_def split: option.splits)
  from timer_evictIfNeeded[OF e] timer_checkExpired[of "bumpOperations c" now key]
  have "interval (ttl c1) = interval (ttl c)" by simp
  moreover from s e have "ttl c' = ttl c1"
    by (auto simp: Cache_sadd_def Let_def split_beta split: option.splits if_splits)
  ultimately show ?thesis by simp
qed

lemma timer_activeRounds:
  "interval (ttl (snd (activeRounds ttl putTtl expireCallback smp mx now rounds (c::Cache)))) =
   interval (ttl c)"
proof (induction "mx - rounds" arbitrary: rounds c rule: less_induct)
  case less
  let ?sampled = "min smp (Map_size (expirations (ttl c)))"
  let ?r = "sampleAndPurge ttl putTtl ?sampled now expireCallback c"
  note s1 = timer_sampleAndPurge[of ?sampled now c]
  show ?case
  proof (cases "?sampled = 0")
    case True
    then show ?thesis by (subst activeRounds.simps) (simp add: Let_def)
  next
    case False
    show ?thesis
    proof (cases "real (fst ?r) > real ?sampled * 0.25 \<and> rounds + 1 < mx")
      case True
      then have "rounds + 1 < mx" by blast
      then have "mx - (rounds + 1) < mx - rounds" by arith
      from less.hyps[OF this, of "snd ?r"] s1
      have "interval (ttl (snd (activeRounds ttl putTtl expireCallback smp mx now (rounds + 1) (snd ?r)))) =
            interval (ttl c)" by simp
      then show ?thesis using False True
        by (subst activeRounds.simps) (auto simp: Let_def split_beta)
    next
      case False
      then show ?thesis using \<open>?sampled \<noteq> 0\<close> s1
        by (subst activeRounds.simps) (auto simp: Let_def split_beta)
    qed
  qed
qed

lemma timer_activeTick:
  "interval (ttl (snd (Cache_activeExpirationTick c now))) = interval (ttl c)"
  by (auto simp: Cache_activeExpirationTick_def activeExpirationTick_def timer_activeRounds
      split: option.splits)

definition timer_inv :: "Cache \<Rightarrow> bool" where
  "timer_inv c =
     (interval (ttl c) = None \<or>
      interval (ttl c) = Some \<lparr>intervalMs = 200, sampleSize = 10, maxRounds = 2\<rparr>)"

lemma new_Cache_timer:
  "interval (ttl (new_Cache options rnd)) = Some \<lparr>intervalMs = 200, sampleSize = 10, maxRounds = 2\<rparr>"
  by (simp add: new_Cache_def Let_def startActiveExpiration_def new_TTLManager_def)

lemma shutdown_timer: "interval (ttl (Cache_shutdown c)) = None"
  by (simp add: Cache_shutdown_def Let_def stopActiveExpiration_def)

lemma reachable_timer: "reachable c \<Longrightarrow> timer_inv c"
proof (induction rule: reachable.induct)
  case (r_new options rnd)
  then show ?case by (simp add: timer_inv_def new_Cache_timer)
next
  case (r_shutdown c)
  then show ?case by (simp add: timer_inv_def shutdown_timer)
next
  case (r_decay c now)
  then show ?case by (simp add: timer_inv_def Cache_decayTick_def)
qed (simp_all add: timer_inv_def timer_reads timer_del timer_set timer_zadd timer_sadd
      timer_activeTick)

lemma sampleVisit_count: "snd (sampleVisit exps now key pending cnt) \<le> cnt + 1"
  by (simp add: sampleVisit_def split: option.splits)

lemma sampleLoop_count: "snd (snd (sampleLoop k exps now it pending cnt)) \<le> cnt + k"
proof (induction k arbitrary: it pending cnt)
  case 0
  then show ?case by simp
next
  case (Suc k)
  have v: "snd (snd (sampleLoop k exps now it' (fst (sampleVisit exps now key pending cnt))
                (snd (sampleVisit exps now key pending cnt)))) \<le> cnt + Suc k" for it' key
    using Suc[of it' "fst (sampleVisit exps now key pending cnt)"
                "snd (sampleVisit exps now key pending cnt)"]
      sampleVisit_count[of exps now key pending cnt] by simp
  show ?case
    using v by (auto simp: split_beta split: option.splits prod.splits)
qed

lemma sampleAndPurge_count: "fst (sampleAndPurge getT putT k now onExpire s) \<le> k"
  using sampleLoop_count[of k "expirations (getT s)" now
      "case keyIterator (getT s) of None \<Rightarrow> At 0 | Some it \<Rightarrow> it" "pendingDeletes (getT s)" 0]
  by (simp add: sampleAndPurge_def Let_def split_beta)

lemma activeRounds_last:
  "\<not> rounds + 1 < mx \<Longrightarrow>
   activeRounds getT putT onExpire smp mx now rounds s =
     (if min smp (Map_size (expirations (getT s))) = 0 then ([], s)
      else ([(min smp (Map_size (expirations (getT s))),
              fst (sampleAndPurge getT putT (min smp (Map_size (expirations (getT s)))) now onExpire s))],
            snd (sampleAndPurge getT putT (min smp (Map_size (expirations (getT s)))) now onExpire s)))"
  by (subst activeRounds.simps) (auto simp: Let_def split_beta)

lemma min_ten_zero: "(min (10::nat) x = 0) = (x = 0)"
  by auto

lemma activeRounds_two:
  "activeRounds getT putT onExpire 10 2 now 0 s =
     (let n = Map_size (expirations (getT s)) in
      if n = 0 then ([], s)
      else
        (let r1 = sampleAndPurge getT putT (min 10 n) now onExpire s;
             n1 = Map_size (expirations (getT (snd r1)))
         in if real (fst r1) > 0.25 * real (min 10 n) \<and> n1 \<noteq> 0
            then (let r2 = sampleAndPurge getT putT (min 10 n1) now onExpire (snd r1)
                  in ([(min 10 n, fst r1), (min 10 n1, fst r2)], snd r2))
            else ([(min 10 n, fst r1)], snd r1)))"
proof -
  let ?n = "Map_size (expirations (getT s))"
  let ?r1 = "sampleAndPurge getT putT (min 10 ?n) now onExpire s"
  let ?n1 = "Map_size (expirations (getT (snd ?r1)))"
  let ?r2 = "sampleAndPurge getT putT (min 10 ?n1) now onExpire (snd ?r1)"
  have l: "activeRounds getT putT onExpire 10 2 now (0 + 1) (snd ?r1) =
      (if ?n1 = 0 then ([], snd ?r1) else ([(min 10 ?n1, fst ?r2)], snd ?r2))"
    by (subst activeRounds_last) (simp_all add: min_ten_zero)
  show ?thesis
  proof (cases "?n = 0")
    case True
    then show ?thesis by (subst activeRounds.simps) (simp add: Let_def)
  next
    case False
    then have m: "min 10 ?n \<noteq> 0" by (simp add: min_ten_zero)
    show ?thesis
    proof (cases "real (fst ?r1) > 0.25 * real (min 10 ?n)")
      case True
      then have "real (fst ?r1) > real (min 10 ?n) * 0.25 \<and> (0::nat) + 1 < 2" by simp
      then have "activeRounds getT putT onExpire 10 2 now 0 s =
          (case activeRounds getT putT onExpire 10 2 now (0 + 1) (snd ?r1) of
             (tr, s'') \<Rightarrow> ((min 10 ?n, fst ?r1) # tr, s''))"
        using m by (subst activeRounds.simps) (simp add: Let_def split_beta del: One_nat_def)
      then show ?thesis unfolding l using False True by (simp add: Let_def)
    next
      case False
      then have "\<not> (real (fst ?r1) > real (min 10 ?n) * 0.25 \<and> (0::nat) + 1 < 2)" by simp
      then have "activeRounds getT putT onExpire 10 2 now 0 s = ([(min 10 ?n, fst ?r1)], snd ?r1)"
        using m by (subst activeRounds.simps) (simp add: Let_def split_beta del: One_nat_def)
      then show ?thesis using False \<open>?n \<noteq> 0\<close> by (simp add: Let_def)
    qed
  qed
qed

lemma tickTimes_200:
  "intervalMs tm = 200 \<Longrightarrow>
   tickTimes tm start until = map (\<lambda>i. start + 200 * int i) [1..<Suc (nat ((until - start) div 200))]"
  by (simp add: tickTimes_def Let_def mult.commute)

text \<open>
  Claim C8: the constructor of the cache starts the active expiration loop with an interval
  of 200 ms, a sample size of 10 and at most 2 rounds, and in every reachable state the timer
  is either that one or stopped. While it runs, the host runs one tick every 200 ms. A tick on
  an empty TTL map runs no round and leaves the cache as it was. On a TTL map of n > 0 keys
  the first round is sampleAndPurge over min(10, n) keys; a second round, the last, over
  min(10, n1) keys of the n1 > 0 keys then left, runs exactly when the expired count of the
  first exceeded 0.25 times the number it sampled. The state after the tick is the state
  after the last round that ran, and the expired count of a round is at most the number of
  keys it sampled.
\<close>

theorem active_expiration_loop:
  assumes "reachable c"
  shows
    "interval (ttl (new_Cache options rnd)) =
       Some \<lparr>intervalMs = 200, sampleSize = 10, maxRounds = 2\<rparr> \<and>
     (interval (ttl c) = None \<or>
      interval (ttl c) = Some \<lparr>intervalMs = 200, sampleSize = 10, maxRounds = 2\<rparr>) \<and>
     (interval (ttl c) \<noteq> None \<longrightarrow>
        Cache_elapse c start until =
          fold (\<lambda>t c'. snd (Cache_activeExpirationTick c' t))
               (map (\<lambda>i. start + 200 * int i) [1..<Suc (nat ((until - start) div 200))]) c \<and>
        Cache_activeExpirationTick c now =
          (let n = Map_size (expirations (ttl c)) in
           if n = 0 then ([], c)
           else
             (let r1 = sampleAndPurge ttl putTtl (min 10 n) now expireCallback c;
                  n1 = Map_size (expirations (ttl (snd r1)))
              in if real (fst r1) > 0.25 * real (min 10 n) \<and> n1 \<noteq> 0
                 then (let r2 = sampleAndPurge ttl putTtl (min 10 n1) now expireCallback (snd r1)
                       in ([(min 10 n, fst r1), (min 10 n1, fst r2)], snd r2))
                 else ([(min 10 n, fst r1)], snd r1)))) \<and>
     fst (sampleAndPurge ttl putTtl k now expireCallback c) \<le> k"
proof -
  note t = reachable_timer[OF assms, unfolded timer_inv_def]
  have tick: "Cache_activeExpirationTick c now =
          (let n = Map_size (expirations (ttl c)) in
           if n = 0 then ([], c)
           else
             (let r1 = sampleAndPurge ttl putTtl (min 10 n) now expireCallback c;
                  n1 = Map_size (expirations (ttl (snd r1)))
              in if real (fst r1) > 0.25 * real (min 10 n) \<and> n1 \<noteq> 0
                 then (let r2 = sampleAndPurge ttl putTtl (min 10 n1) now expireCallback (snd r1)
                       in ([(min 10 n, fst r1), (min 10 n1, fst r2)], snd r2))
                 else ([(min 10 n, fst r1)], snd r1)))"
    if "interval (ttl c) \<noteq> None"
  proof -
    from t that have i: "interval (ttl c) = Some \<lparr>intervalMs = 200, sampleSize = 10, maxRounds = 2\<rparr>"
      by simp
    have e: "Cache_activeExpirationTick c now = activeRounds ttl putTtl expireCallback 10 2 now 0 c"
      using i by (simp add: Cache_activeExpirationTick_def activeExpirationTick_def)
    show ?thesis unfolding e by (rule activeRounds_two)
  qed
  have el: "Cache_elapse c start until =
          fold (\<lambda>t c'. snd (Cache_activeExpirationTick c' t))
               (map (\<lambda>i. start + 200 * int i) [1..<Suc (nat ((until - start) div 200))]) c"
    if "interval (ttl c) \<noteq> None"
  proof -
    from t that have i: "interval (ttl c) = Some \<lparr>intervalMs = 200, sampleSize = 10, maxRounds = 2\<rparr>"
      by simp
    show ?thesis unfolding Cache_elapse_def i by (simp add: tickTimes_200)
  qed
  from t tick el new_Cache_timer[of options rnd] sampleAndPurge_count[of ttl putTtl k now expireCallback c]
  show ?thesis by blast
qed

lemma temp_cache_tick:
  "\<not> Option.is_none (interval (ttl temp_cache))"
  "Map_size (expirations (ttl temp_cache)) = 1"
  "fst (sampleAndPurge ttl putTtl 1 1150 expireCallback temp_cache) = 1"
  "Map_size (expirations (ttl (snd (sampleAndPurge ttl putTtl 1 1150 expireCallback temp_cache)))) = 1"
  "fst (sampleAndPurge ttl putTtl 1 1050 expireCallback temp_cache) = 0"
  unfolding temp_cache_def by code_simp+

theorem active_expiration_loop_witness:
  "reachable temp_cache \<and> interval (ttl temp_cache) \<noteq> None \<and>
   Cache_elapse temp_cache 1000 1250 = snd (Cache_activeExpirationTick temp_cache 1200) \<and>
   Cache_activeExpirationTick temp_cache 1150 =
     ([(1, 1),
       (1, fst (sampleAndPurge ttl putTtl 1 1150 expireCallback
                  (snd (sampleAndPurge ttl putTtl 1 1150 expireCallback temp_cache))))],
      snd (sampleAndPurge ttl putTtl 1 1150 expireCallback
             (snd (sampleAndPurge ttl putTtl 1 1150 expireCallback temp_cache)))) \<and>
   Cache_activeExpirationTick temp_cache 1050 =
     ([(1, 0)], snd (sampleAndPurge ttl putTtl 1 1050 expireCallback temp_cache))"
proof -
  have i: "interval (ttl temp_cache) \<noteq> None"
    using temp_cache_tick(1) by (simp add: Option.is_none_def)
  have e: "Cache_elapse temp_cache 1000 1250 = snd (Cache_activeExpirationTick temp_cache 1200)"
    using active_expiration_loop[OF temp_cache_reachable, of default_options "\<lambda>n. 0" 1000 1250 0 0] i
    by simp
  have a: "Cache_activeExpirationTick temp_cache 1150 =
     ([(1, 1),
       (1, fst (sampleAndPurge ttl putTtl 1 1150 expireCallback
                  (snd (sampleAndPurge ttl putTtl 1 1150 expireCallback temp_cache))))],
      snd (sampleAndPurge ttl putTtl 1 1150 expireCallback
             (snd (sampleAndPurge ttl putTtl 1 1150 expireCallback temp_cache))))"
    using active_expiration_loop[OF temp_cache_reachable, of default_options "\<lambda>n. 0" 0 0 1150 0] i
    by (simp add: temp_cache_tick(2,3,4)[unfolded One_nat_def] Let_def)
  have b: "Cache_activeExpirationTick temp_cache 1050 =
     ([(1, 0)], snd (sampleAndPurge ttl putTtl 1 1050 expireCallback temp_cache))"
    using active_expiration_loop[OF temp_cache_reachable, of default_options "\<lambda>n. 0" 0 0 1050 0] i
    by (simp add: temp_cache_tick(2,5)[unfolded One_nat_def] Let_def)
  from temp_cache_reachable i e a b show ?thesis by blast
qed

subsection \<open>Claim on WRONGTYPE\<close>

lemma lookup_bump [simp]:
  "store (bumpHits c) = store c" "store (bumpMisses c) = store c"
  by (simp_all add: bumpHits_def bumpMisses_def)

text \<open>
  Every keyed operation other than set and del starts with \<^verbatim>\<open>stats.operations++\<close> and
  \<^verbatim>\<open>_checkExpired(key)\<close>; \<open>afterExpiry\<close> is the state these two steps leave. The reads and zrem
  then call \<^verbatim>\<open>usage.touch(key)\<close> on an entry they find, \<open>touchKey\<close>, before they look at its
  type; zadd and sadd run the eviction step instead, and touch the key only after the type
  check.
\<close>

definition afterExpiry :: "Cache \<Rightarrow> int \<Rightarrow> string \<Rightarrow> Cache" where
  "afterExpiry c now key = snd (checkExpired (bumpOperations c) now key)"

definition touchKey :: "Cache \<Rightarrow> int \<Rightarrow> string \<Rightarrow> Cache" where
  "touchKey c now key =
     (case touch (usage c) now key (random c) of (u, rnd) \<Rightarrow> c\<lparr>usage := u, random := rnd\<rparr>)"

text \<open>Two states that differ at most in the layout of the store (a lookup of the dictionary
  may move a bucket of a running rehash): the same entries, and every other field equal.\<close>

definition sameCache :: "Cache \<Rightarrow> Cache \<Rightarrow> bool" where
  "sameCache c1 c' = (lookup2 (store c') = lookup2 (store c1) \<and> c'\<lparr>store := store c1\<rparr> = c1)"

text \<open>The state with both operation counters incremented and nothing else changed.\<close>

definition counted :: "Cache \<Rightarrow> Cache" where
  "counted c =
     c\<lparr>stats := (stats c)\<lparr>operations := operations (stats c) + 1\<rparr>,
       operationCount := operationCount c + 1\<rparr>"

text \<open>No lazy purge is due at the next expiration check, and the key is not expired.\<close>

definition quiet :: "Cache \<Rightarrow> int \<Rightarrow> string \<Rightarrow> bool" where
  "quiet c now key =
     ((operationCount c + 1) mod LAZY_EXPIRE_FREQ \<noteq> 0 \<and> \<not> isExpired (ttl c) now key)"

text \<open>The counters that expiration leaves alone.\<close>

definition counters :: "Cache \<Rightarrow> nat \<times> nat \<times> nat \<times> nat" where
  "counters c = (hits (stats c), misses (stats c), evictions (stats c), operations (stats c))"

lemma counters_expireCallback: "counters (expireCallback k c) = counters c"
  by (simp add: counters_def expireCallback_def Let_def deleteKey_fields)

lemma counters_fold_expireCallback: "counters (fold expireCallback ks c) = counters c"
  by (induction ks arbitrary: c) (simp_all add: counters_expireCallback)

lemma counters_ttl [simp]: "counters (c\<lparr>ttl := t\<rparr>) = counters c"
  by (simp add: counters_def)

lemma counters_operationCount [simp]: "counters (c\<lparr>operationCount := n\<rparr>) = counters c"
  by (simp add: counters_def)

lemma counters_sampleAndPurge:
  "counters (snd (sampleAndPurge ttl putTtl k now expireCallback c)) = counters c"
  by (simp add: sampleAndPurge_def Let_def flushPending_def putTtl_def split_beta
      counters_fold_expireCallback)

lemma counters_lazyPurge: "counters (lazyPurge c now) = counters c"
  by (simp add: lazyPurge_def Let_def counters_sampleAndPurge)

lemma counters_checkExpired: "counters (snd (checkExpired c now key)) = counters c"
  by (simp add: checkExpired_def Let_def counters_lazyPurge counters_expireCallback)

lemma afterExpiry_counters:
  "hits (stats (afterExpiry c now key)) = hits (stats c)"
  "misses (stats (afterExpiry c now key)) = misses (stats c)"
  "evictions (stats (afterExpiry c now key)) = evictions (stats c)"
  "operations (stats (afterExpiry c now key)) = operations (stats c) + 1"
  using counters_checkExpired[of "bumpOperations c" now key]
  by (simp_all add: afterExpiry_def counters_def bumpOperations_def)

lemma afterExpiry_quiet: "quiet c now key \<Longrightarrow> afterExpiry c now key = counted c"
  by (simp add: quiet_def afterExpiry_def checkExpired_def lazyPurge_def Let_def counted_def
      bumpOperations_def)

lemma afterExpiry_kept:
  assumes "cache_inv c"
  shows "cache_inv (afterExpiry c now key)" and "kept_or_gone key c (afterExpiry c now key)"
    and "maxmemory (afterExpiry c now key) = maxmemory c"
proof -
  from assms have s: "shrinks (bumpOperations c) (afterExpiry c now key)"
    by (simp add: cache_inv_def shrinks_checkExpired afterExpiry_def)
  then show "kept_or_gone key c (afterExpiry c now key)" by (simp add: shrinks_def kept_or_gone_def)
  from s assms show "cache_inv (afterExpiry c now key)" by (simp add: shrinks_def cache_inv_def)
  from s show "maxmemory (afterExpiry c now key) = maxmemory c" by (simp add: shrinks_def)
qed

lemma touch_meta:
  "\<exists>m. Map_get (metadata (fst (touch u now key rnd))) key = Some m \<and> lastAccess m = now"
  by (simp add: touch_def Let_def split_beta Map_get_set split: option.splits)

lemma touch_other:
  "k \<noteq> key \<Longrightarrow> Map_get (metadata (fst (touch u now key rnd))) k = Map_get (metadata u) k"
  by (simp add: touch_def Let_def split_beta Map_get_set split: option.splits)

lemma touchKey_spec:
  "\<exists>m. Map_get (metadata (usage (touchKey c now key))) key = Some m \<and> lastAccess m = now"
  "\<forall>k. k \<noteq> key \<longrightarrow> Map_get (metadata (usage (touchKey c now key))) k = Map_get (metadata (usage c)) k"
  "(touchKey c now key)\<lparr>usage := usage c, random := random c\<rparr> = c"
  using touch_meta[of "usage c" now key "random c"] touch_other[of _ key "usage c" now "random c"]
  by (simp_all add: touchKey_def split_beta)

lemma getEntry_survived:
  assumes inv: "cache_inv c" and l: "lookup2 (store (afterExpiry c now key)) key = Some e"
  shows "\<exists>c'. getEntry (bumpOperations c) now key = (Some e, c') \<and>
              sameCache (touchKey (afterExpiry c now key) now key) c'"
proof -
  define c0 where "c0 = afterExpiry c now key"
  from afterExpiry_kept(1)[OF inv, of now key] have i0: "dict_inv (store c0)"
    by (simp add: cache_inv_def c0_def)
  note g = dict_get_spec[OF i0, of key]
  have nb: "\<not> fst (checkExpired (bumpOperations c) now key)"
  proof
    assume "fst (checkExpired (bumpOperations c) now key)"
    from checkExpired_True[OF _ this] inv have "absent key c0"
      by (simp add: cache_inv_def c0_def afterExpiry_def)
    with l show False by (simp add: absent_def c0_def)
  qed
  obtain x c' where ge: "getEntry (bumpOperations c) now key = (x, c')"
    by (cases "getEntry (bumpOperations c) now key") auto
  from getEntry_cases[OF ge] nb g(1) l
  have x: "x = Some e" and c': "c' = c0\<lparr>store := snd (dict_get (store c0) key),
               usage := fst (touch (usage c0) now key (random c0)),
               random := snd (touch (usage c0) now key (random c0))\<rparr>"
    by (auto simp: c0_def afterExpiry_def)
  have "sameCache (touchKey c0 now key) c'"
    unfolding c' using g(3) by (simp add: sameCache_def touchKey_def split_beta)
  with ge x show ?thesis by (simp add: c0_def)
qed

lemma getEntry_gone:
  assumes inv: "cache_inv c" and l: "lookup2 (store (afterExpiry c now key)) key = None"
  shows "fst (getEntry (bumpOperations c) now key) = None"
proof -
  define c0 where "c0 = afterExpiry c now key"
  from afterExpiry_kept(1)[OF inv, of now key] have i0: "dict_inv (store c0)"
    by (simp add: cache_inv_def c0_def)
  note g = dict_get_spec[OF i0, of key]
  obtain x c' where ge: "getEntry (bumpOperations c) now key = (x, c')"
    by (cases "getEntry (bumpOperations c) now key") auto
  from getEntry_cases[OF ge] g(1) l have "x = None"
    by (auto simp: c0_def afterExpiry_def)
  with ge show ?thesis by simp
qed

lemma reads_survived:
  assumes inv: "cache_inv c" and l: "lookup2 (store (afterExpiry c now key)) key = Some e"
  defines "cT \<equiv> touchKey (afterExpiry c now key) now key"
  shows "etype e \<noteq> TString \<Longrightarrow>
           fst (Cache_get c now key) = Inl WRONGTYPE \<and> sameCache cT (snd (Cache_get c now key))"
    and "etype e \<noteq> TZSet \<Longrightarrow>
           fst (Cache_zscore c now key mb) = Inl WRONGTYPE \<and>
           sameCache cT (snd (Cache_zscore c now key mb))"
    and "etype e \<noteq> TZSet \<Longrightarrow>
           \<exists>c'. Cache_zrank c now key mb = Some (Inl WRONGTYPE, c') \<and> sameCache cT c'"
    and "etype e \<noteq> TZSet \<Longrightarrow>
           \<exists>c'. Cache_zrangeByScore c now key mn mx limit = Some (Inl WRONGTYPE, c') \<and> sameCache cT c'"
    and "etype e \<noteq> TZSet \<Longrightarrow>
           \<exists>c'. Cache_zrem c now key mb = Some (Inl WRONGTYPE, c') \<and> sameCache cT c'"
    and "etype e \<noteq> TSet \<Longrightarrow>
           fst (Cache_smembers c now key) = Inl WRONGTYPE \<and>
           sameCache cT (snd (Cache_smembers c now key))"
proof -
  from getEntry_survived[OF inv l] obtain c' where
    g: "getEntry (bumpOperations c) now key = (Some e, c')" and s: "sameCache cT c'"
    by (auto simp: cT_def)
  show "etype e \<noteq> TString \<Longrightarrow>
           fst (Cache_get c now key) = Inl WRONGTYPE \<and> sameCache cT (snd (Cache_get c now key))"
    using s by (simp add: Cache_get_def g)
  show "etype e \<noteq> TZSet \<Longrightarrow>
           fst (Cache_zscore c now key mb) = Inl WRONGTYPE \<and>
           sameCache cT (snd (Cache_zscore c now key mb))"
    using s by (simp add: Cache_zscore_def g)
  show "etype e \<noteq> TZSet \<Longrightarrow>
           \<exists>c'. Cache_zrank c now key mb = Some (Inl WRONGTYPE, c') \<and> sameCache cT c'"
    using s by (simp add: Cache_zrank_def g)
  show "etype e \<noteq> TZSet \<Longrightarrow>
           \<exists>c'. Cache_zrangeByScore c now key mn mx limit = Some (Inl WRONGTYPE, c') \<and> sameCache cT c'"
    using s by (simp add: Cache_zrangeByScore_def g)
  show "etype e \<noteq> TZSet \<Longrightarrow>
           \<exists>c'. Cache_zrem c now key mb = Some (Inl WRONGTYPE, c') \<and> sameCache cT c'"
    using s by (simp add: Cache_zrem_def g)
  show "etype e \<noteq> TSet \<Longrightarrow>
           fst (Cache_smembers c now key) = Inl WRONGTYPE \<and>
           sameCache cT (snd (Cache_smembers c now key))"
    using s by (simp add: Cache_smembers_def g)
qed

lemma reads_gone:
  assumes inv: "cache_inv c" and l: "lookup2 (store (afterExpiry c now key)) key = None"
  shows "fst (Cache_get c now key) = Inr None"
    and "fst (Cache_zscore c now key mb) = Inr None"
    and "\<exists>c'. Cache_zrank c now key mb = Some (Inr None, c')"
    and "\<exists>c'. Cache_zrangeByScore c now key mn mx limit = Some (Inr [], c')"
    and "\<exists>c'. Cache_zrem c now key mb = Some (Inr 0, c')"
    and "fst (Cache_smembers c now key) = Inr []"
proof -
  from getEntry_gone[OF inv l] obtain c' where g: "getEntry (bumpOperations c) now key = (None, c')"
    by (cases "getEntry (bumpOperations c) now key") auto
  show "fst (Cache_get c now key) = Inr None" by (simp add: Cache_get_def g)
  show "fst (Cache_zscore c now key mb) = Inr None" by (simp add: Cache_zscore_def g)
  show "\<exists>c'. Cache_zrank c now key mb = Some (Inr None, c')" by (simp add: Cache_zrank_def g)
  show "\<exists>c'. Cache_zrangeByScore c now key mn mx limit = Some (Inr [], c')"
    by (simp add: Cache_zrangeByScore_def g)
  show "\<exists>c'. Cache_zrem c now key mb = Some (Inr 0, c')" by (simp add: Cache_zrem_def g)
  show "fst (Cache_smembers c now key) = Inr []" by (simp add: Cache_smembers_def g)
qed

text \<open>The steps of zadd and sadd before the entry is read: passive expiration, then eviction.\<close>

definition writePrefix :: "Cache \<Rightarrow> int \<Rightarrow> string \<Rightarrow> Cache option" where
  "writePrefix c now key = evictIfNeeded (snd (checkExpired (bumpOperations c) now key))"

lemma writePrefix_kept:
  assumes "cache_inv c" and "writePrefix c now key = Some c1"
  shows "cache_inv c1" and "kept_or_gone key c c1"
proof -
  let ?c0 = "snd (checkExpired (bumpOperations c) now key)"
  from assms(1) have s0: "shrinks (bumpOperations c) ?c0"
    by (simp add: cache_inv_def shrinks_checkExpired)
  then have i0: "dict_inv (store ?c0)" by (simp add: shrinks_def)
  from assms(2) have s1: "shrinks ?c0 c1"
    using shrinks_evictIfNeeded[OF _ i0] by (simp add: writePrefix_def)
  from shrinks_trans[OF s0 s1] have s: "shrinks (bumpOperations c) c1" .
  then show "kept_or_gone key c c1" by (simp add: shrinks_def kept_or_gone_def)
  from s assms(1) show "cache_inv c1" by (simp add: shrinks_def cache_inv_def)
qed

text \<open>The eviction step changes no counter but the eviction counter.\<close>

definition writeCounters :: "Cache \<Rightarrow> nat \<times> nat \<times> nat \<times> nat" where
  "writeCounters c = (hits (stats c), misses (stats c), expired (stats c), operations (stats c))"

lemma writeCounters_refillPool: "refillPool c = Some (b, c1) \<Longrightarrow> writeCounters c1 = writeCounters c"
  by (auto simp: refillPool_def Let_def split_beta writeCounters_def split: if_splits option.splits)

lemma writeCounters_evictVictim: "evictVictim c = (b, c') \<Longrightarrow> writeCounters c' = writeCounters c"
  using evictVictim_cases[of c b c']
  by (auto simp: Let_def deleteKey_fields writeCounters_def)

lemma writeCounters_evictLoop:
  assumes "evictLoop c0 = Some c0'"
  shows "writeCounters c0' = writeCounters c0"
proof (rule evictLoop.raw_induct[where P="\<lambda>c c'. writeCounters c' = writeCounters c"], goal_cases)
  case (1 evictLoop' c c')
  note IH = 1(1) and body = 1(2)
  show "writeCounters c' = writeCounters c"
  proof (cases "maxmemory c < currentMemoryUsed c \<and> 0 < dict_size (store c)")
    case False
    with body have "c' = c" by simp
    then show ?thesis by simp
  next
    case True
    from True body obtain brk1 c1 where
      r: "(if evictionPool c = [] then refillPool c else Some (False, c)) = Some (brk1, c1)"
      by (auto split: option.splits)
    then have t1: "writeCounters c1 = writeCounters c"
      using writeCounters_refillPool[of c brk1 c1] by (auto split: if_splits)
    show ?thesis
    proof (cases brk1)
      case True
      with \<open>maxmemory c < currentMemoryUsed c \<and> 0 < dict_size (store c)\<close> body r
      have "c' = c1" by simp
      with t1 show ?thesis by simp
    next
      case False
      obtain brk2 c2 where v: "evictVictim c1 = (brk2, c2)" by (cases "evictVictim c1") auto
      note t2 = writeCounters_evictVictim[OF v]
      from False \<open>maxmemory c < currentMemoryUsed c \<and> 0 < dict_size (store c)\<close> body r v
      have "(if brk2 then Some c2 else evictLoop' c2) = Some c'" by simp
      then have "writeCounters c' = writeCounters c2"
        using IH[of c2 c'] by (auto split: if_splits)
      with t1 t2 show ?thesis by simp
    qed
  qed
next
  case 2
  show ?case by (rule assms)
qed

lemma writePrefix_counters:
  assumes "writePrefix c now key = Some c1"
  shows "hits (stats c1) = hits (stats c)" and "misses (stats c1) = misses (stats c)"
    and "operations (stats c1) = operations (stats c) + 1"
proof -
  from assms have "writeCounters c1 = writeCounters (afterExpiry c now key)"
    using writeCounters_evictLoop[of "afterExpiry c now key" c1]
    by (auto simp: writePrefix_def afterExpiry_def evictIfNeeded_def split: if_splits)
  then show "hits (stats c1) = hits (stats c)" and "misses (stats c1) = misses (stats c)"
    and "operations (stats c1) = operations (stats c) + 1"
    using afterExpiry_counters[of c now key] by (simp_all add: writeCounters_def)
qed

lemma writePrefix_within:
  assumes "cache_inv c" and "currentMemoryUsed (afterExpiry c now key) \<le> maxmemory c"
  shows "writePrefix c now key = Some (afterExpiry c now key)"
  using assms(2) afterExpiry_kept(3)[OF assms(1), of now key]
  by (simp add: writePrefix_def afterExpiry_def evictIfNeeded_def)

lemma writes_none:
  assumes "writePrefix c now key = None"
  shows "Cache_zadd c now key sc mb = None" and "Cache_sadd c now key ms = None"
  using assms by (simp_all add: writePrefix_def Cache_zadd_def Cache_sadd_def)

lemma writes_survived:
  assumes inv: "cache_inv c" and p: "writePrefix c now key = Some c1"
    and l: "lookup2 (store c1) key = Some e"
  shows "etype e \<noteq> TZSet \<Longrightarrow>
           \<exists>c'. Cache_zadd c now key sc mb = Some (Inl WRONGTYPE, c') \<and> sameCache c1 c'"
    and "etype e \<noteq> TSet \<Longrightarrow>
           \<exists>c'. Cache_sadd c now key ms = Some (Inl WRONGTYPE, c') \<and> sameCache c1 c'"
proof -
  from writePrefix_kept(1)[OF inv p] have i1: "dict_inv (store c1)" by (simp add: cache_inv_def)
  note g = dict_get_spec[OF i1, of key]
  obtain st where d: "dict_get (store c1) key = (Some e, st)" and st: "lookup2 st = lookup2 (store c1)"
    using g(1,3) l by (cases "dict_get (store c1) key") auto
  have s: "sameCache c1 (c1\<lparr>store := st\<rparr>)" using st by (simp add: sameCache_def)
  show "etype e \<noteq> TZSet \<Longrightarrow>
           \<exists>c'. Cache_zadd c now key sc mb = Some (Inl WRONGTYPE, c') \<and> sameCache c1 c'"
    using p d s by (simp add: Cache_zadd_def writePrefix_def)
  show "etype e \<noteq> TSet \<Longrightarrow>
           \<exists>c'. Cache_sadd c now key ms = Some (Inl WRONGTYPE, c') \<and> sameCache c1 c'"
    using p d s by (simp add: Cache_sadd_def writePrefix_def Let_def)
qed

lemma writes_gone:
  assumes inv: "cache_inv c" and p: "writePrefix c now key = Some c1"
    and l: "lookup2 (store c1) key = None"
  shows "Cache_zadd c now key sc mb \<noteq> Some (Inl WRONGTYPE, c')"
    and "Cache_sadd c now key ms \<noteq> Some (Inl WRONGTYPE, c')"
proof -
  from writePrefix_kept(1)[OF inv p] have i1: "dict_inv (store c1)" by (simp add: cache_inv_def)
  note g = dict_get_spec[OF i1, of key]
  obtain st where d: "dict_get (store c1) key = (None, st)"
    using g(1) l by (cases "dict_get (store c1) key") auto
  show "Cache_zadd c now key sc mb \<noteq> Some (Inl WRONGTYPE, c')"
    using p d by (auto simp: Cache_zadd_def writePrefix_def Let_def split_beta split: option.splits)
  show "Cache_sadd c now key ms \<noteq> Some (Inl WRONGTYPE, c')"
    using p d by (auto simp: Cache_sadd_def writePrefix_def Let_def split_beta split: option.splits)
qed

lemma kept_cases:
  assumes "kept_or_gone key c c1" and "lookup2 (store c) key = Some e"
  shows "lookup2 (store c1) key = Some e \<or> lookup2 (store c1) key = None"
    and "lookup2 (store c1) key = Some e \<Longrightarrow>
           Map_get (expirations (ttl c1)) key = Map_get (expirations (ttl c)) key \<and>
           Map_get (metadata (usage c1)) key = Map_get (metadata (usage c)) key"
  using assms by (auto simp: kept_or_gone_def)

text \<open>
  Claim C2, as amended. In a reachable state let the key hold an entry \<open>e\<close>, and let the
  operation counter be incremented and the expiration check of the key run (\<open>afterExpiry\<close>:
  every 100th check purges sampled expired keys first). That step leaves the hit, miss and
  eviction counters alone and adds one to the operation counter; the entry of the key is
  either still \<open>e\<close>, with its TTL record and usage metadata, or gone; and when no purge is due
  and the key is not expired (\<open>quiet\<close>), it only increments the two operation counters, so
  the entry is still there.

  Reads and zrem: if the entry is still there and its shape does not match, the call fails
  with WRONGTYPE, and the state it leaves is the state after the expiration step with the
  usage metadata of the key touched (last access = now), and nothing else changed; if the
  entry is gone, the call returns the missing-key result.

  zadd and sadd run the eviction step next. If that step does not return, neither does the
  call; within budget it returns at once, changing nothing. When it returns, it has left the
  hit, miss and operation counters alone, and the entry of the key is either still \<open>e\<close>, with
  its TTL record and usage metadata, or gone. If the entry is still there and its shape does
  not match, the call fails with WRONGTYPE and leaves the state the eviction step left (the
  usage metadata of the key is not touched); if the entry is gone, the call does not fail
  with WRONGTYPE.
\<close>

theorem wrongtype_keeps_entry:
  assumes "reachable c" and "lookup2 (store c) key = Some e"
  shows
    "(quiet c now key \<longrightarrow>
        afterExpiry c now key = counted c \<and> lookup2 (store (afterExpiry c now key)) key = Some e) \<and>
     (lookup2 (store (afterExpiry c now key)) key = Some e \<or>
      lookup2 (store (afterExpiry c now key)) key = None) \<and>
     (hits (stats (afterExpiry c now key)) = hits (stats c) \<and>
      misses (stats (afterExpiry c now key)) = misses (stats c) \<and>
      evictions (stats (afterExpiry c now key)) = evictions (stats c) \<and>
      operations (stats (afterExpiry c now key)) = operations (stats c) + 1) \<and>
     (lookup2 (store (afterExpiry c now key)) key = Some e \<longrightarrow>
        Map_get (expirations (ttl (afterExpiry c now key))) key = Map_get (expirations (ttl c)) key \<and>
        Map_get (metadata (usage (afterExpiry c now key))) key = Map_get (metadata (usage c)) key \<and>
        (\<exists>m. Map_get (metadata (usage (touchKey (afterExpiry c now key) now key))) key = Some m \<and>
             lastAccess m = now) \<and>
        (touchKey (afterExpiry c now key) now key)
          \<lparr>usage := usage (afterExpiry c now key), random := random (afterExpiry c now key)\<rparr> =
          afterExpiry c now key \<and>
        (etype e \<noteq> TString \<longrightarrow>
           fst (Cache_get c now key) = Inl WRONGTYPE \<and>
           sameCache (touchKey (afterExpiry c now key) now key) (snd (Cache_get c now key))) \<and>
        (etype e \<noteq> TZSet \<longrightarrow>
           (fst (Cache_zscore c now key mb) = Inl WRONGTYPE \<and>
            sameCache (touchKey (afterExpiry c now key) now key) (snd (Cache_zscore c now key mb))) \<and>
           (\<exists>c'. Cache_zrank c now key mb = Some (Inl WRONGTYPE, c') \<and>
                 sameCache (touchKey (afterExpiry c now key) now key) c') \<and>
           (\<exists>c'. Cache_zrangeByScore c now key mn mx limit = Some (Inl WRONGTYPE, c') \<and>
                 sameCache (touchKey (afterExpiry c now key) now key) c') \<and>
           (\<exists>c'. Cache_zrem c now key mb = Some (Inl WRONGTYPE, c') \<and>
                 sameCache (touchKey (afterExpiry c now key) now key) c')) \<and>
        (etype e \<noteq> TSet \<longrightarrow>
           fst (Cache_smembers c now key) = Inl WRONGTYPE \<and>
           sameCache (touchKey (afterExpiry c now key) now key) (snd (Cache_smembers c now key)))) \<and>
     (lookup2 (store (afterExpiry c now key)) key = None \<longrightarrow>
        fst (Cache_get c now key) = Inr None \<and>
        fst (Cache_zscore c now key mb) = Inr None \<and>
        (\<exists>c'. Cache_zrank c now key mb = Some (Inr None, c')) \<and>
        (\<exists>c'. Cache_zrangeByScore c now key mn mx limit = Some (Inr [], c')) \<and>
        (\<exists>c'. Cache_zrem c now key mb = Some (Inr 0, c')) \<and>
        fst (Cache_smembers c now key) = Inr []) \<and>
     (writePrefix c now key = None \<longrightarrow>
        Cache_zadd c now key sc mb = None \<and> Cache_sadd c now key ms = None) \<and>
     (currentMemoryUsed (afterExpiry c now key) \<le> maxmemory c \<longrightarrow>
        writePrefix c now key = Some (afterExpiry c now key)) \<and>
     (\<forall>c1. writePrefix c now key = Some c1 \<longrightarrow>
        (lookup2 (store c1) key = Some e \<or> lookup2 (store c1) key = None) \<and>
        hits (stats c1) = hits (stats c) \<and> misses (stats c1) = misses (stats c) \<and>
        operations (stats c1) = operations (stats c) + 1 \<and>
        (lookup2 (store c1) key = Some e \<longrightarrow>
           Map_get (expirations (ttl c1)) key = Map_get (expirations (ttl c)) key \<and>
           Map_get (metadata (usage c1)) key = Map_get (metadata (usage c)) key \<and>
           (etype e \<noteq> TZSet \<longrightarrow>
              (\<exists>c'. Cache_zadd c now key sc mb = Some (Inl WRONGTYPE, c') \<and> sameCache c1 c')) \<and>
           (etype e \<noteq> TSet \<longrightarrow>
              (\<exists>c'. Cache_sadd c now key ms = Some (Inl WRONGTYPE, c') \<and> sameCache c1 c'))) \<and>
        (lookup2 (store c1) key = None \<longrightarrow>
           (\<forall>c'. Cache_zadd c now key sc mb \<noteq> Some (Inl WRONGTYPE, c')) \<and>
           (\<forall>c'. Cache_sadd c now key ms \<noteq> Some (Inl WRONGTYPE, c'))))"
proof -
  note inv = reachable_inv[OF assms(1)]
  note e = assms(2)
  define c0 where "c0 = afterExpiry c now key"
  note k0 = kept_cases[OF afterExpiry_kept(2)[OF inv, where key=key and now=now] e, folded c0_def]
  note cnt = afterExpiry_counters[where c=c and now=now and key=key, folded c0_def]
  note tk = touchKey_spec[where c=c0 and now=now and key=key]
  have q: "quiet c now key \<longrightarrow> c0 = counted c \<and> lookup2 (store c0) key = Some e"
    using afterExpiry_quiet[of c now key] e by (auto simp: c0_def counted_def)
  have st: "hits (stats c0) = hits (stats c) \<and> misses (stats c0) = misses (stats c) \<and>
      evictions (stats c0) = evictions (stats c) \<and> operations (stats c0) = operations (stats c) + 1"
    using cnt by simp
  have sv: "lookup2 (store c0) key = Some e \<longrightarrow>
        Map_get (expirations (ttl c0)) key = Map_get (expirations (ttl c)) key \<and>
        Map_get (metadata (usage c0)) key = Map_get (metadata (usage c)) key \<and>
        (\<exists>m. Map_get (metadata (usage (touchKey c0 now key))) key = Some m \<and> lastAccess m = now) \<and>
        (touchKey c0 now key)\<lparr>usage := usage c0, random := random c0\<rparr> = c0 \<and>
        (etype e \<noteq> TString \<longrightarrow>
           fst (Cache_get c now key) = Inl WRONGTYPE \<and>
           sameCache (touchKey c0 now key) (snd (Cache_get c now key))) \<and>
        (etype e \<noteq> TZSet \<longrightarrow>
           (fst (Cache_zscore c now key mb) = Inl WRONGTYPE \<and>
            sameCache (touchKey c0 now key) (snd (Cache_zscore c now key mb))) \<and>
           (\<exists>c'. Cache_zrank c now key mb = Some (Inl WRONGTYPE, c') \<and>
                 sameCache (touchKey c0 now key) c') \<and>
           (\<exists>c'. Cache_zrangeByScore c now key mn mx limit = Some (Inl WRONGTYPE, c') \<and>
                 sameCache (touchKey c0 now key) c') \<and>
           (\<exists>c'. Cache_zrem c now key mb = Some (Inl WRONGTYPE, c') \<and>
                 sameCache (touchKey c0 now key) c')) \<and>
        (etype e \<noteq> TSet \<longrightarrow>
           fst (Cache_smembers c now key) = Inl WRONGTYPE \<and>
           sameCache (touchKey c0 now key) (snd (Cache_smembers c now key)))"
  proof
    assume l: "lookup2 (store c0) key = Some e"
    note r = reads_survived[OF inv l[unfolded c0_def], folded c0_def]
    from k0(2)[OF l] tk(1) tk(3) r(1) r(2)[where mb=mb] r(3)[where mb=mb] r(4)[where mn=mn and mx=mx and limit=limit] r(5)[where mb=mb] r(6)
    show "Map_get (expirations (ttl c0)) key = Map_get (expirations (ttl c)) key \<and>
        Map_get (metadata (usage c0)) key = Map_get (metadata (usage c)) key \<and>
        (\<exists>m. Map_get (metadata (usage (touchKey c0 now key))) key = Some m \<and> lastAccess m = now) \<and>
        (touchKey c0 now key)\<lparr>usage := usage c0, random := random c0\<rparr> = c0 \<and>
        (etype e \<noteq> TString \<longrightarrow>
           fst (Cache_get c now key) = Inl WRONGTYPE \<and>
           sameCache (touchKey c0 now key) (snd (Cache_get c now key))) \<and>
        (etype e \<noteq> TZSet \<longrightarrow>
           (fst (Cache_zscore c now key mb) = Inl WRONGTYPE \<and>
            sameCache (touchKey c0 now key) (snd (Cache_zscore c now key mb))) \<and>
           (\<exists>c'. Cache_zrank c now key mb = Some (Inl WRONGTYPE, c') \<and>
                 sameCache (touchKey c0 now key) c') \<and>
           (\<exists>c'. Cache_zrangeByScore c now key mn mx limit = Some (Inl WRONGTYPE, c') \<and>
                 sameCache (touchKey c0 now key) c') \<and>
           (\<exists>c'. Cache_zrem c now key mb = Some (Inl WRONGTYPE, c') \<and>
                 sameCache (touchKey c0 now key) c')) \<and>
        (etype e \<noteq> TSet \<longrightarrow>
           fst (Cache_smembers c now key) = Inl WRONGTYPE \<and>
           sameCache (touchKey c0 now key) (snd (Cache_smembers c now key)))"
      by (intro conjI impI) (assumption | simp)+
  qed
  have gn: "lookup2 (store c0) key = None \<longrightarrow>
        fst (Cache_get c now key) = Inr None \<and>
        fst (Cache_zscore c now key mb) = Inr None \<and>
        (\<exists>c'. Cache_zrank c now key mb = Some (Inr None, c')) \<and>
        (\<exists>c'. Cache_zrangeByScore c now key mn mx limit = Some (Inr [], c')) \<and>
        (\<exists>c'. Cache_zrem c now key mb = Some (Inr 0, c')) \<and>
        fst (Cache_smembers c now key) = Inr []"
  proof
    assume l: "lookup2 (store c0) key = None"
    note r = reads_gone[OF inv l[unfolded c0_def]]
    from r(1) r(2)[where mb=mb] r(3)[where mb=mb] r(4)[where mn=mn and mx=mx and limit=limit] r(5)[where mb=mb] r(6)
    show "fst (Cache_get c now key) = Inr None \<and>
        fst (Cache_zscore c now key mb) = Inr None \<and>
        (\<exists>c'. Cache_zrank c now key mb = Some (Inr None, c')) \<and>
        (\<exists>c'. Cache_zrangeByScore c now key mn mx limit = Some (Inr [], c')) \<and>
        (\<exists>c'. Cache_zrem c now key mb = Some (Inr 0, c')) \<and>
        fst (Cache_smembers c now key) = Inr []"
      by (intro conjI) assumption+
  qed
  have wn: "writePrefix c now key = None \<longrightarrow>
        Cache_zadd c now key sc mb = None \<and> Cache_sadd c now key ms = None"
    using writes_none(1)[where c=c and now=now and key=key and sc=sc and mb=mb]
      writes_none(2)[where c=c and now=now and key=key and ms=ms] by blast
  have ww: "currentMemoryUsed c0 \<le> maxmemory c \<longrightarrow> writePrefix c now key = Some c0"
    using writePrefix_within[OF inv, where now=now and key=key] by (simp add: c0_def)
  have wr: "\<forall>c1. writePrefix c now key = Some c1 \<longrightarrow>
        (lookup2 (store c1) key = Some e \<or> lookup2 (store c1) key = None) \<and>
        hits (stats c1) = hits (stats c) \<and> misses (stats c1) = misses (stats c) \<and>
        operations (stats c1) = operations (stats c) + 1 \<and>
        (lookup2 (store c1) key = Some e \<longrightarrow>
           Map_get (expirations (ttl c1)) key = Map_get (expirations (ttl c)) key \<and>
           Map_get (metadata (usage c1)) key = Map_get (metadata (usage c)) key \<and>
           (etype e \<noteq> TZSet \<longrightarrow>
              (\<exists>c'. Cache_zadd c now key sc mb = Some (Inl WRONGTYPE, c') \<and> sameCache c1 c')) \<and>
           (etype e \<noteq> TSet \<longrightarrow>
              (\<exists>c'. Cache_sadd c now key ms = Some (Inl WRONGTYPE, c') \<and> sameCache c1 c'))) \<and>
        (lookup2 (store c1) key = None \<longrightarrow>
           (\<forall>c'. Cache_zadd c now key sc mb \<noteq> Some (Inl WRONGTYPE, c')) \<and>
           (\<forall>c'. Cache_sadd c now key ms \<noteq> Some (Inl WRONGTYPE, c')))"
  proof (intro allI impI)
    fix c1 assume p: "writePrefix c now key = Some c1"
    note k1 = kept_cases[OF writePrefix_kept(2)[OF inv p] e]
    note wc = writePrefix_counters[OF p]
    have a: "lookup2 (store c1) key = Some e \<longrightarrow>
           Map_get (expirations (ttl c1)) key = Map_get (expirations (ttl c)) key \<and>
           Map_get (metadata (usage c1)) key = Map_get (metadata (usage c)) key \<and>
           (etype e \<noteq> TZSet \<longrightarrow>
              (\<exists>c'. Cache_zadd c now key sc mb = Some (Inl WRONGTYPE, c') \<and> sameCache c1 c')) \<and>
           (etype e \<noteq> TSet \<longrightarrow>
              (\<exists>c'. Cache_sadd c now key ms = Some (Inl WRONGTYPE, c') \<and> sameCache c1 c'))"
      using k1(2) writes_survived(1)[OF inv p, where e=e and sc=sc and mb=mb]
        writes_survived(2)[OF inv p, where e=e and ms=ms] by blast
    have b: "lookup2 (store c1) key = None \<longrightarrow>
           (\<forall>c'. Cache_zadd c now key sc mb \<noteq> Some (Inl WRONGTYPE, c')) \<and>
           (\<forall>c'. Cache_sadd c now key ms \<noteq> Some (Inl WRONGTYPE, c'))"
      using writes_gone(1)[OF inv p, where sc=sc and mb=mb] writes_gone(2)[OF inv p, where ms=ms] by blast
    from k1(1) wc a b
    show "(lookup2 (store c1) key = Some e \<or> lookup2 (store c1) key = None) \<and>
        hits (stats c1) = hits (stats c) \<and> misses (stats c1) = misses (stats c) \<and>
        operations (stats c1) = operations (stats c) + 1 \<and>
        (lookup2 (store c1) key = Some e \<longrightarrow>
           Map_get (expirations (ttl c1)) key = Map_get (expirations (ttl c)) key \<and>
           Map_get (metadata (usage c1)) key = Map_get (metadata (usage c)) key \<and>
           (etype e \<noteq> TZSet \<longrightarrow>
              (\<exists>c'. Cache_zadd c now key sc mb = Some (Inl WRONGTYPE, c') \<and> sameCache c1 c')) \<and>
           (etype e \<noteq> TSet \<longrightarrow>
              (\<exists>c'. Cache_sadd c now key ms = Some (Inl WRONGTYPE, c') \<and> sameCache c1 c'))) \<and>
        (lookup2 (store c1) key = None \<longrightarrow>
           (\<forall>c'. Cache_zadd c now key sc mb \<noteq> Some (Inl WRONGTYPE, c')) \<and>
           (\<forall>c'. Cache_sadd c now key ms \<noteq> Some (Inl WRONGTYPE, c')))"
      by (intro conjI) assumption+
  qed
  from q k0(1) st sv gn wn ww wr show ?thesis
    unfolding c0_def
    apply -
    apply (rule conjI, assumption)+
    apply assumption
    done
qed

lemma drift2_reachable: "reachable drift2"
proof -
  have 1: "reachable drift1"
    using drift_steps(1) r_set[OF r_new, of default_options "\<lambda>n. 0" 1000 "''a''" "[]" None drift1]
    by (auto simp: drift1_def Option.is_none_def)
  show "reachable drift2"
    using drift_steps(2) r_zadd[OF 1, of 1001 "''z''" "Fin 1" "''mmmmmmmm''"]
    by (cases "Cache_zadd drift1 1001 ''z'' (Fin 1) ''mmmmmmmm''")
       (auto simp: drift2_def Option.is_none_def)
qed

lemma drift_quiet:
  "quiet drift2 2000 ''z''"
  "currentMemoryUsed drift2 \<le> maxmemory drift2"
  "etype (the (lookup2 (store drift2) ''z'')) = TZSet"
  "\<not> Option.is_none (lookup2 (store drift2) ''z'')"
  "quiet drift1 2000 ''a''"
  "currentMemoryUsed drift1 \<le> maxmemory drift1"
  "etype (the (lookup2 (store drift1) ''a'')) = TString"
  "\<not> Option.is_none (lookup2 (store drift1) ''a'')"
  unfolding drift1_def drift2_def by code_simp+

lemma drift1_reachable: "reachable drift1"
  using drift_steps(1) r_set[OF r_new, of default_options "\<lambda>n. 0" 1000 "''a''" "[]" None drift1]
  by (auto simp: drift1_def Option.is_none_def)

lemma counted_memory [simp]:
  "currentMemoryUsed (counted c) = currentMemoryUsed c" "maxmemory (counted c) = maxmemory c"
  by (simp_all add: counted_def)

theorem wrongtype_keeps_entry_witness:
  "reachable drift2 \<and>
   lookup2 (store drift2) ''z'' = Some (the (lookup2 (store drift2) ''z'')) \<and>
   etype (the (lookup2 (store drift2) ''z'')) \<noteq> TString \<and>
   etype (the (lookup2 (store drift2) ''z'')) \<noteq> TSet \<and>
   quiet drift2 2000 ''z'' \<and> currentMemoryUsed drift2 \<le> maxmemory drift2 \<and>
   fst (Cache_get drift2 2000 ''z'') = Inl WRONGTYPE \<and>
   sameCache (touchKey (counted drift2) 2000 ''z'') (snd (Cache_get drift2 2000 ''z'')) \<and>
   (\<exists>c'. Cache_sadd drift2 2000 ''z'' [MStr ''m''] = Some (Inl WRONGTYPE, c') \<and>
         sameCache (counted drift2) c') \<and>
   reachable drift1 \<and>
   lookup2 (store drift1) ''a'' = Some (the (lookup2 (store drift1) ''a'')) \<and>
   etype (the (lookup2 (store drift1) ''a'')) \<noteq> TZSet \<and>
   quiet drift1 2000 ''a'' \<and> currentMemoryUsed drift1 \<le> maxmemory drift1 \<and>
   fst (Cache_zscore drift1 2000 ''a'' ''m'') = Inl WRONGTYPE \<and>
   (\<exists>c'. Cache_zadd drift1 2000 ''a'' (Fin 1) ''m'' = Some (Inl WRONGTYPE, c') \<and>
         sameCache (counted drift1) c')"
proof -
  let ?z = "the (lookup2 (store drift2) ''z'')"
  let ?a = "the (lookup2 (store drift1) ''a'')"
  have lz: "lookup2 (store drift2) ''z'' = Some ?z"
    using drift_quiet(4) by (auto simp: Option.is_none_def)
  have la: "lookup2 (store drift1) ''a'' = Some ?a"
    using drift_quiet(8) by (auto simp: Option.is_none_def)
  have tz: "etype ?z \<noteq> TString" "etype ?z \<noteq> TSet" by (simp_all add: drift_quiet(3))
  have ta: "etype ?a \<noteq> TZSet" by (simp add: drift_quiet(7))
  note Z = wrongtype_keeps_entry[OF drift2_reachable lz, where now=2000 and ms="[MStr ''m'']"]
  note A = wrongtype_keeps_entry[OF drift1_reachable la, where now=2000 and mb="''m''" and sc="Fin 1"]
  from Z[THEN conjunct1] drift_quiet(1)
  have z0: "afterExpiry drift2 2000 ''z'' = counted drift2"
    and z1: "lookup2 (store (counted drift2)) ''z'' = Some ?z" by auto
  from Z[THEN conjunct2, THEN conjunct2, THEN conjunct2, THEN conjunct1] z0 z1 tz(1)
  have zg: "fst (Cache_get drift2 2000 ''z'') = Inl WRONGTYPE \<and>
      sameCache (touchKey (counted drift2) 2000 ''z'') (snd (Cache_get drift2 2000 ''z''))"
    by auto
  from Z[THEN conjunct2, THEN conjunct2, THEN conjunct2, THEN conjunct2, THEN conjunct2,
         THEN conjunct2, THEN conjunct1] z0 drift_quiet(2)
  have zp: "writePrefix drift2 2000 ''z'' = Some (counted drift2)" by auto
  from Z[THEN conjunct2, THEN conjunct2, THEN conjunct2, THEN conjunct2, THEN conjunct2,
         THEN conjunct2, THEN conjunct2, THEN spec, THEN mp, OF zp] z1 tz(2)
  have zs: "\<exists>c'. Cache_sadd drift2 2000 ''z'' [MStr ''m''] = Some (Inl WRONGTYPE, c') \<and>
         sameCache (counted drift2) c'"
    by auto
  from A[THEN conjunct1] drift_quiet(5)
  have a0: "afterExpiry drift1 2000 ''a'' = counted drift1"
    and a1: "lookup2 (store (counted drift1)) ''a'' = Some ?a" by auto
  from A[THEN conjunct2, THEN conjunct2, THEN conjunct2, THEN conjunct1] a0 a1 ta
  have ag: "fst (Cache_zscore drift1 2000 ''a'' ''m'') = Inl WRONGTYPE"
    by auto
  from A[THEN conjunct2, THEN conjunct2, THEN conjunct2, THEN conjunct2, THEN conjunct2,
         THEN conjunct2, THEN conjunct1] a0 drift_quiet(6)
  have ap: "writePrefix drift1 2000 ''a'' = Some (counted drift1)" by auto
  from A[THEN conjunct2, THEN conjunct2, THEN conjunct2, THEN conjunct2, THEN conjunct2,
         THEN conjunct2, THEN conjunct2, THEN spec, THEN mp, OF ap] a1 ta
  have az: "\<exists>c'. Cache_zadd drift1 2000 ''a'' (Fin 1) ''m'' = Some (Inl WRONGTYPE, c') \<and>
         sameCache (counted drift1) c'"
    by auto
  from drift2_reachable lz tz drift_quiet(1,2) zg zs drift1_reachable la ta drift_quiet(5,6) ag az
  show ?thesis by simp
qed

text \<open>
  A cache with room for one scalar, holding two: \<^verbatim>\<open>maxmemory = 60\<close>, then
  \<^verbatim>\<open>set("b", "x")\<close> at time 1 and \<^verbatim>\<open>set("s", "x")\<close> at time 2. The random draws alternate
  between 1/4 and 3/4.
\<close>

definition tight_options :: CacheOptions where
  "tight_options = \<lparr>opt_maxmemory = Some 60, opt_evictionPolicy = None, opt_evictionSampleSize = None\<rparr>"

definition alternating :: random_source where
  "alternating = (\<lambda>n. if even n then 1 / 4 else 3 / 4)"

definition two_scalars1 :: Cache where
  "two_scalars1 = the (Cache_set (new_Cache tight_options alternating) 1 ''b'' ''x'' None)"

definition two_scalars :: Cache where
  "two_scalars = the (Cache_set two_scalars1 2 ''s'' ''x'' None)"

lemma two_scalars_steps:
  "\<not> Option.is_none (Cache_set (new_Cache tight_options alternating) 1 ''b'' ''x'' None)"
  "\<not> Option.is_none (Cache_set two_scalars1 2 ''s'' ''x'' None)"
  unfolding two_scalars1_def by code_simp+

lemma two_scalars_reachable: "reachable two_scalars"
proof -
  have 1: "reachable two_scalars1"
    using two_scalars_steps(1)
      r_set[OF r_new, of tight_options alternating 1 "''b''" "''x''" None two_scalars1]
    by (auto simp: two_scalars1_def Option.is_none_def)
  show ?thesis
    using two_scalars_steps(2) r_set[OF 1, of 2 "''s''" "''x''" None two_scalars]
    by (auto simp: two_scalars_def Option.is_none_def)
qed

text \<open>
  A failing read at which the lazy purge is due. On a new cache with default options, 98
  calls \<^verbatim>\<open>zscore("q", "m")\<close> on the missing key \<open>q\<close> bring the count of expiration checks to
  98; \<^verbatim>\<open>set("temp", "v", 100)\<close> at time 1000 and \<^verbatim>\<open>zadd("z", 1, "m")\<close> at time 1001 store a
  scalar that expires at 1100 and an ordered collection, and bring the count to 99; 48 ticks
  of the active expiration timer at time 1150 each put the expired key \<open>temp\<close> twice into the
  pending buffer, which then holds 96 keys. \<open>contents\<close> reads the number of entries, the
  memory counter, the expirations counter and the count of expiration checks.
\<close>

definition purge_a :: Cache where
  "purge_a = fold (\<lambda>i c. snd (Cache_zscore c 1000 ''q'' ''m'')) [0..<98]
                  (new_Cache default_options (\<lambda>n. 0))"

definition purge_b :: Cache where
  "purge_b = the (Cache_set purge_a 1000 ''temp'' ''v'' (Some 100))"

definition purge_c :: Cache where
  "purge_c = snd (the (Cache_zadd purge_b 1001 ''z'' (Fin 1) ''m''))"

definition purge_d :: Cache where
  "purge_d = fold (\<lambda>i c. snd (Cache_activeExpirationTick c 1150)) [0..<48] purge_c"

definition contents :: "Cache \<Rightarrow> nat \<times> int \<times> nat \<times> nat" where
  "contents c = (dict_size (store c), currentMemoryUsed c, expired (stats c), operationCount c)"

definition get_effect ::
  "Cache \<Rightarrow> int \<Rightarrow> string \<Rightarrow>
   (nat \<times> int \<times> nat \<times> nat) \<times> (error + string option) \<times> (nat \<times> int \<times> nat \<times> nat)" where
  "get_effect c now key = (case Cache_get c now key of (r, c') \<Rightarrow> (contents c, r, contents c'))"

lemma reachable_fold_zscore:
  "reachable c \<Longrightarrow> reachable (fold (\<lambda>i c. snd (Cache_zscore c now key mb)) xs c)"
  by (induction xs arbitrary: c) (simp_all add: r_zscore)

lemma reachable_fold_tick:
  "reachable c \<Longrightarrow> reachable (fold (\<lambda>i c. snd (Cache_activeExpirationTick c now)) xs c)"
  by (induction xs arbitrary: c) (simp_all add: r_expire)

lemma purge_steps:
  "\<not> Option.is_none (Cache_set purge_a 1000 ''temp'' ''v'' (Some 100))"
  "\<not> Option.is_none (Cache_zadd purge_b 1001 ''z'' (Fin 1) ''m'')"
  unfolding purge_b_def purge_a_def by code_simp+

lemma purge_d_reachable: "reachable purge_d"
proof -
  have a: "reachable purge_a" unfolding purge_a_def by (rule reachable_fold_zscore[OF r_new])
  have b: "reachable purge_b"
    using purge_steps(1) r_set[OF a, of 1000 "''temp''" "''v''" "Some 100" purge_b]
    by (auto simp: purge_b_def Option.is_none_def)
  have c: "reachable purge_c"
    using purge_steps(2) r_zadd[OF b, of 1001 "''z''" "Fin 1" "''m''"]
    by (cases "Cache_zadd purge_b 1001 ''z'' (Fin 1) ''m''")
       (auto simp: purge_c_def Option.is_none_def)
  show ?thesis unfolding purge_d_def by (rule reachable_fold_tick[OF c])
qed

lemma purge_d_get:
  "get_effect purge_d 1150 ''z'' = ((2, 140, 0, 99), Inl WRONGTYPE, (1, 82, 101, 100))"
  unfolding purge_d_def purge_c_def purge_b_def purge_a_def by code_simp

text \<open>
  Claim C2 as stated fails in each of its parts. On the cache of two scalars above,
  \<^verbatim>\<open>zadd("s", 1, "m")\<close> on the scalar \<open>s\<close> fails with WRONGTYPE, and the failing call has
  evicted the entry of \<open>b\<close>, since the eviction step runs before the type check: the memory
  counter went from 104 to 52, the eviction counter from 0 to 1 and the operation counter
  from 2 to 3. \<^verbatim>\<open>get("z")\<close> at time 2000 on the ordered collection \<open>z\<close> fails with WRONGTYPE,
  and the failing call has touched the usage metadata of \<open>z\<close>: its last access went from 1001
  to 2000. \<^verbatim>\<open>get("z")\<close> at time 1150 in the state \<open>purge_d\<close> fails with WRONGTYPE, and the
  failing call, the 100th expiration check, has run the lazy purge, which removed the
  expired entry of \<open>temp\<close>: the number of entries went from 2 to 1, the memory counter from
  140 to 82 and the expirations counter from 0 to 101. And \<^verbatim>\<open>zscore("temp", "m")\<close> at time
  1150 on the scalar \<open>temp\<close>, which is still stored but expired at 1100, does not fail: it
  returns null.
\<close>

theorem wrongtype_after_eviction_counterexample:
  "reachable two_scalars \<and>
   etype (the (lookup2 (store two_scalars) ''s'')) = TString \<and>
   \<not> Option.is_none (Cache_zadd two_scalars 3 ''s'' (Fin 1) ''m'') \<and>
   fst (the (Cache_zadd two_scalars 3 ''s'' (Fin 1) ''m'')) = Inl WRONGTYPE \<and>
   \<not> Option.is_none (lookup2 (store two_scalars) ''b'') \<and>
   Option.is_none (lookup2 (store (snd (the (Cache_zadd two_scalars 3 ''s'' (Fin 1) ''m'')))) ''b'') \<and>
   currentMemoryUsed two_scalars = 104 \<and>
   currentMemoryUsed (snd (the (Cache_zadd two_scalars 3 ''s'' (Fin 1) ''m''))) = 52 \<and>
   evictions (stats two_scalars) = 0 \<and>
   evictions (stats (snd (the (Cache_zadd two_scalars 3 ''s'' (Fin 1) ''m'')))) = 1 \<and>
   operations (stats two_scalars) = 2 \<and>
   operations (stats (snd (the (Cache_zadd two_scalars 3 ''s'' (Fin 1) ''m'')))) = 3 \<and>
   reachable drift2 \<and>
   etype (the (lookup2 (store drift2) ''z'')) = TZSet \<and>
   fst (Cache_get drift2 2000 ''z'') = Inl WRONGTYPE \<and>
   lastAccess (the (Map_get (metadata (usage drift2)) ''z'')) = 1001 \<and>
   lastAccess (the (Map_get (metadata (usage (snd (Cache_get drift2 2000 ''z'')))) ''z'')) = 2000 \<and>
   reachable purge_d \<and>
   get_effect purge_d 1150 ''z'' = ((2, 140, 0, 99), Inl WRONGTYPE, (1, 82, 101, 100)) \<and>
   reachable temp_cache \<and>
   etype (the (lookup2 (store temp_cache) ''temp'')) = TString \<and>
   \<not> Option.is_none (lookup2 (store temp_cache) ''temp'') \<and>
   fst (Cache_zscore temp_cache 1150 ''temp'' ''m'') = Inr None"
proof -
  have "etype (the (lookup2 (store two_scalars) ''s'')) = TString \<and>
   \<not> Option.is_none (Cache_zadd two_scalars 3 ''s'' (Fin 1) ''m'') \<and>
   fst (the (Cache_zadd two_scalars 3 ''s'' (Fin 1) ''m'')) = Inl WRONGTYPE \<and>
   \<not> Option.is_none (lookup2 (store two_scalars) ''b'') \<and>
   Option.is_none (lookup2 (store (snd (the (Cache_zadd two_scalars 3 ''s'' (Fin 1) ''m'')))) ''b'') \<and>
   currentMemoryUsed two_scalars = 104 \<and>
   currentMemoryUsed (snd (the (Cache_zadd two_scalars 3 ''s'' (Fin 1) ''m''))) = 52 \<and>
   evictions (stats two_scalars) = 0 \<and>
   evictions (stats (snd (the (Cache_zadd two_scalars 3 ''s'' (Fin 1) ''m'')))) = 1 \<and>
   operations (stats two_scalars) = 2 \<and>
   operations (stats (snd (the (Cache_zadd two_scalars 3 ''s'' (Fin 1) ''m'')))) = 3"
    unfolding two_scalars_def two_scalars1_def by code_simp
  moreover have "etype (the (lookup2 (store drift2) ''z'')) = TZSet \<and>
   fst (Cache_get drift2 2000 ''z'') = Inl WRONGTYPE \<and>
   lastAccess (the (Map_get (metadata (usage drift2)) ''z'')) = 1001 \<and>
   lastAccess (the (Map_get (metadata (usage (snd (Cache_get drift2 2000 ''z'')))) ''z'')) = 2000"
    unfolding drift1_def drift2_def by code_simp
  moreover have "etype (the (lookup2 (store temp_cache) ''temp'')) = TString \<and>
   \<not> Option.is_none (lookup2 (store temp_cache) ''temp'') \<and>
   fst (Cache_zscore temp_cache 1150 ''temp'' ''m'') = Inr None"
    unfolding temp_cache_def by code_simp
  ultimately show ?thesis
    using two_scalars_reachable drift2_reachable temp_cache_reachable purge_d_reachable purge_d_get
    by blast
qed

subsection \<open>What the eviction step removes\<close>

lemma Math_random_range: "0 \<le> fst (Math_random r)" "fst (Math_random r) < 1"
  by (simp_all add: Math_random_def frac_lt_1)

lemma random_index:
  fixes r :: real
  assumes "0 < n" and "0 \<le> r" and "r < 1"
  shows "nat \<lfloor>r * real n\<rfloor> < n"
proof -
  have "r * real n < real n" using assms by simp
  then have "\<lfloor>r * real n\<rfloor> < int n" by (simp add: floor_less_iff)
  then show ?thesis using assms by linarith
qed

lemma set_Set_add: "set (Set_add xs x) = insert x (set xs)"
  by (auto simp: Set_add_def)

lemma drawSample_spec_aux:
  assumes "drawSample ks0 n0 s0 r0 = Some res0"
  shows "ks0 \<noteq> [] \<and> set s0 \<subseteq> set ks0 \<longrightarrow> set (fst res0) \<subseteq> set ks0 \<and> n0 \<le> length (fst res0)"
proof (rule drawSample.raw_induct[where P="\<lambda>ks n s r res.
         ks \<noteq> [] \<and> set s \<subseteq> set ks \<longrightarrow> set (fst res) \<subseteq> set ks \<and> n \<le> length (fst res)"], goal_cases)
  case (1 f ks n s r res)
  show "ks \<noteq> [] \<and> set s \<subseteq> set ks \<longrightarrow> set (fst res) \<subseteq> set ks \<and> n \<le> length (fst res)"
  proof (cases "length s < n")
    case True
    let ?i = "nat \<lfloor>fst (Math_random r) * real (length ks)\<rfloor>"
    from True 1(2) have "f ks n (Set_add s (ks ! ?i)) (snd (Math_random r)) = Some res"
      by (simp add: split_beta)
    note ih = 1(1)[OF this]
    show ?thesis
    proof
      assume a: "ks \<noteq> [] \<and> set s \<subseteq> set ks"
      then have "?i < length ks" using random_index[of "length ks"] Math_random_range by simp
      then have "ks ! ?i \<in> set ks" by simp
      with a ih show "set (fst res) \<subseteq> set ks \<and> n \<le> length (fst res)"
        by (simp add: set_Set_add)
    qed
  next
    case False
    with 1(2) show ?thesis by auto
  qed
next
  case 2
  show "drawSample ks0 n0 s0 r0 = Some res0" by (rule assms)
qed

lemma drawSample_spec:
  "drawSample ks n [] r = Some (sampled, r') \<Longrightarrow> ks \<noteq> [] \<Longrightarrow>
   set sampled \<subseteq> set ks \<and> n \<le> length sampled"
  using drawSample_spec_aux[of ks n "[]" r "(sampled, r')"] by simp

lemma set_insertBy: "set (insertBy cmp x ys) = insert x (set ys)"
  by (induction ys) auto

lemma set_sortBy_aux: "set (foldl (\<lambda>acc x. insertBy cmp x acc) acc xs) = set acc \<union> set xs"
  by (induction xs arbitrary: acc) (simp_all add: set_insertBy)

lemma set_sortBy: "set (sortBy cmp xs) = set xs"
  by (simp add: sortBy_def set_sortBy_aux)

lemma dynamicPoolSize_pos: "0 < dynamicPoolSize c"
  by (simp add: dynamicPoolSize_def Let_def)

lemma dict_size_lookup:
  "dict_inv a \<Longrightarrow> dict_inv b \<Longrightarrow> lookup2 a = lookup2 b \<Longrightarrow> dict_size a = dict_size b"
  by (simp add: dict_size_card)

lemma refillPool_pool:
  assumes inv: "cache_inv c" and sz: "0 < dict_size (store c)"
    and ne: "lookup2 (store c) [] = None" and r: "refillPool c = Some (b, c1)"
  shows "\<not> b" and "evictionPool c1 \<noteq> []" and "[] \<notin> set (evictionPool c1)"
proof -
  from inv have di: "dict_inv (store c)" and ess: "0 < evictionSampleSize c"
    by (simp_all add: cache_inv_def)
  define ks where "ks = fst (dict_keys (store c))"
  define st where "st = snd (dict_keys (store c))"
  note k = dict_keys_spec[OF di]
  have "length ks = length (all_keys (store c))"
    using k(1) unfolding ks_def by (metis size_mset)
  then have len: "0 < length ks" using sz by (simp add: dict_size_all_keys)
  have "set ks = set (all_keys (store c))" using k(1) unfolding ks_def by (metis set_mset_mset)
  then have dom: "set ks = dom (lookup2 (store c))" using all_keys_inv(2)[OF di] by simp
  with ne have nks: "[] \<notin> set ks" by (auto simp: dom_def)
  define c0 where "c0 = c\<lparr>store := st\<rparr>"
  from r len obtain sampled rnd where
    d: "drawSample ks (min (evictionSampleSize c * 2) (length ks)) [] (random c) = Some (sampled, rnd)"
    and c1: "c1 = c0\<lparr>random := rnd,
                     evictionPool := take (dynamicPoolSize c0) (sortBy (evictCompare c0) sampled)\<rparr>"
    and b: "b = False"
    by (auto simp: refillPool_def Let_def split_beta ks_def st_def c0_def split: option.splits)
  from b show "\<not> b" by simp
  from len have "ks \<noteq> []" by auto
  from drawSample_spec[OF d this]
  have s: "set sampled \<subseteq> set ks" and l: "min (evictionSampleSize c * 2) (length ks) \<le> length sampled"
    by simp_all
  have "0 < min (evictionSampleSize c * 2) (length ks)" using ess len by simp
  with l have "0 < length sampled" by linarith
  then have "sampled \<noteq> []" by simp
  then have "sortBy (evictCompare c0) sampled \<noteq> []"
    using set_sortBy[of "evictCompare c0" sampled] by (metis set_empty)
  then show "evictionPool c1 \<noteq> []" using dynamicPoolSize_pos[of c0] by (simp add: c1)
  have "set (evictionPool c1) \<subseteq> set (sortBy (evictCompare c0) sampled)"
    by (simp add: c1 set_take_subset)
  with s nks show "[] \<notin> set (evictionPool c1)" by (auto simp: set_sortBy)
qed

text \<open>The keys of \<open>c\<close> that \<open>c'\<close> no longer holds.\<close>

definition evictedKeys :: "Cache \<Rightarrow> Cache \<Rightarrow> string list" where
  "evictedKeys c c' = filter (\<lambda>k. lookup2 (store c') k = None) (all_keys (store c))"

text \<open>
  The effect of an eviction step from \<open>c\<close> to \<open>c'\<close>: every key is kept with its TTL record
  and usage metadata or gone with them, the eviction counter has grown by the number of
  keys that are gone, and the memory counter has dropped by their recorded memory.
\<close>

definition evictionEffect :: "Cache \<Rightarrow> Cache \<Rightarrow> bool" where
  "evictionEffect c c' =
     (shrinks c c' \<and>
      evictions (stats c') = evictions (stats c) + length (evictedKeys c c') \<and>
      currentMemoryUsed c' =
        currentMemoryUsed c -
        sum_list (map (\<lambda>k. truthyMemory (lookup2 (store c) k)) (evictedKeys c c')))"

lemma evictedKeys_set:
  assumes "dict_inv (store c)"
  shows "distinct (evictedKeys c c')"
    and "set (evictedKeys c c') = {k. lookup2 (store c) k \<noteq> None \<and> lookup2 (store c') k = None}"
  using all_keys_inv[OF assms] by (auto simp: evictedKeys_def dom_def)

lemma evictionEffect_alt:
  assumes "dict_inv (store c)"
  shows "evictionEffect c c' =
     (shrinks c c' \<and>
      evictions (stats c') = evictions (stats c) + card (set (evictedKeys c c')) \<and>
      currentMemoryUsed c' =
        currentMemoryUsed c -
        sum (\<lambda>k. truthyMemory (lookup2 (store c) k)) (set (evictedKeys c c')))"
  using evictedKeys_set(1)[OF assms, of c']
  by (simp add: evictionEffect_def sum_list_distinct_conv_sum_set distinct_card)

lemma evictedKeys_compose:
  assumes "dict_inv (store a)" and "shrinks a b" and "shrinks b c"
  shows "set (evictedKeys a c) = set (evictedKeys a b) \<union> set (evictedKeys b c)"
    and "set (evictedKeys a b) \<inter> set (evictedKeys b c) = {}"
    and "\<And>k. k \<in> set (evictedKeys b c) \<Longrightarrow> lookup2 (store b) k = lookup2 (store a) k"
proof -
  from assms(2) have ib: "dict_inv (store b)" by (simp add: shrinks_def)
  have ab: "\<And>k. lookup2 (store b) k = lookup2 (store a) k \<or> lookup2 (store b) k = None"
    using assms(2) by (auto simp: shrinks_def kept_or_gone_def)
  have bc: "\<And>k. lookup2 (store c) k = lookup2 (store b) k \<or> lookup2 (store c) k = None"
    using assms(3) by (auto simp: shrinks_def kept_or_gone_def)
  note e = evictedKeys_set(2)[OF assms(1)] evictedKeys_set(2)[OF ib]
  show "set (evictedKeys a c) = set (evictedKeys a b) \<union> set (evictedKeys b c)"
    unfolding e
  proof (intro set_eqI)
    fix k
    show "(k \<in> {k. lookup2 (store a) k \<noteq> None \<and> lookup2 (store c) k = None}) =
          (k \<in> {k. lookup2 (store a) k \<noteq> None \<and> lookup2 (store b) k = None} \<union>
                {k. lookup2 (store b) k \<noteq> None \<and> lookup2 (store c) k = None})"
      using ab[of k] bc[of k]
      by (cases "lookup2 (store a) k"; cases "lookup2 (store b) k"; cases "lookup2 (store c) k"; simp)
  qed
  show "set (evictedKeys a b) \<inter> set (evictedKeys b c) = {}"
    unfolding e by auto
  show "\<And>k. k \<in> set (evictedKeys b c) \<Longrightarrow> lookup2 (store b) k = lookup2 (store a) k"
  proof -
    fix k
    assume "k \<in> set (evictedKeys b c)"
    then have "lookup2 (store b) k \<noteq> None" unfolding e by simp
    with ab[of k] show "lookup2 (store b) k = lookup2 (store a) k" by blast
  qed
qed

lemma evictionEffect_trans:
  assumes "dict_inv (store a)" and "evictionEffect a b" and "evictionEffect b c"
  shows "evictionEffect a c"
proof -
  from assms(2) have sab: "shrinks a b" by (simp add: evictionEffect_def)
  from assms(3) have sbc: "shrinks b c" by (simp add: evictionEffect_def)
  from sab have ib: "dict_inv (store b)" by (simp add: shrinks_def)
  note ab = assms(2)[unfolded evictionEffect_alt[OF assms(1)]]
  note bc = assms(3)[unfolded evictionEffect_alt[OF ib]]
  note cmp = evictedKeys_compose[OF assms(1) sab sbc]
  let ?f = "\<lambda>k. truthyMemory (lookup2 (store a) k)"
  have card: "card (set (evictedKeys a c)) = card (set (evictedKeys a b)) + card (set (evictedKeys b c))"
    unfolding cmp(1) using cmp(2) by (simp add: card_Un_disjoint)
  have "sum ?f (set (evictedKeys a c)) = sum ?f (set (evictedKeys a b)) + sum ?f (set (evictedKeys b c))"
    unfolding cmp(1) using cmp(2) by (simp add: sum.union_disjoint)
  moreover have "sum ?f (set (evictedKeys b c)) =
      sum (\<lambda>k. truthyMemory (lookup2 (store b) k)) (set (evictedKeys b c))"
    by (rule sum.cong) (simp_all add: cmp(3))
  ultimately have sum: "sum ?f (set (evictedKeys a c)) =
      sum ?f (set (evictedKeys a b)) +
      sum (\<lambda>k. truthyMemory (lookup2 (store b) k)) (set (evictedKeys b c))"
    by simp
  show ?thesis
    unfolding evictionEffect_alt[OF assms(1)]
    using ab bc card sum shrinks_trans[OF sab sbc] by simp
qed

lemma evictionEffect_same:
  assumes "dict_inv (store c)" and "dict_inv (store c')" and "lookup2 (store c') = lookup2 (store c)"
    and "expirations (ttl c') = expirations (ttl c)" and "metadata (usage c') = metadata (usage c)"
    and "maxmemory c' = maxmemory c" and "evictionSampleSize c' = evictionSampleSize c"
    and "evictionPolicy c' = evictionPolicy c" and "evictions (stats c') = evictions (stats c)"
    and "currentMemoryUsed c' = currentMemoryUsed c"
  shows "evictionEffect c c'"
proof -
  have "set (evictedKeys c c') = {}"
    unfolding evictedKeys_set(2)[OF assms(1)] assms(3) by blast
  then have "evictedKeys c c' = []" by simp
  moreover have "shrinks c c'" using assms by (intro shrinks_same) simp_all
  ultimately show ?thesis using assms by (simp add: evictionEffect_def)
qed

lemma evictionEffect_refl: "dict_inv (store c) \<Longrightarrow> evictionEffect c c"
  by (rule evictionEffect_same) simp_all

lemma evictionEffect_refillPool:
  "dict_inv (store c) \<Longrightarrow> refillPool c = Some (b, c1) \<Longrightarrow> evictionEffect c c1"
  using refillPool_same[of c b c1] by (intro evictionEffect_same) simp_all

lemma evictionEffect_delete:
  assumes "dict_inv (store c)" and "lookup2 (store c) victim \<noteq> None"
  defines "c2 \<equiv> deleteKey c victim"
  shows "evictionEffect c (c2\<lparr>stats := (stats c2)\<lparr>evictions := evictions (stats c2) + 1\<rparr>\<rparr>)"
    and "set (evictedKeys c (c2\<lparr>stats := (stats c2)\<lparr>evictions := evictions (stats c2) + 1\<rparr>\<rparr>)) = {victim}"
proof -
  let ?c' = "c2\<lparr>stats := (stats c2)\<lparr>evictions := evictions (stats c2) + 1\<rparr>\<rparr>"
  note d = deleteKey_store[OF assms(1), of victim]
  have l: "lookup2 (store ?c') = (lookup2 (store c))(victim := None)"
    using d(2) by (simp add: c2_def)
  show e: "set (evictedKeys c ?c') = {victim}"
    unfolding evictedKeys_set(2)[OF assms(1)] l using assms(2) by auto
  have "shrinks c c2" unfolding c2_def by (rule shrinks_deleteKey[OF assms(1)])
  moreover have "shrinks c2 ?c'"
    using d(1) by (intro shrinks_same) (simp_all add: c2_def)
  ultimately have s: "shrinks c ?c'" by (rule shrinks_trans)
  show "evictionEffect c ?c'"
    unfolding evictionEffect_alt[OF assms(1)] e
    using s deleteKey_memory[OF assms(1), of victim]
    by (simp add: c2_def deleteKey_fields)
qed

lemma evictionEffect_evictVictim:
  assumes "dict_inv (store c)" and "evictVictim c = (b, c')"
  shows "evictionEffect c c'"
proof -
  from evictVictim_cases[OF assms(2)]
  consider (empty) "c' = c"
    | (falsy) rest where "c' = c\<lparr>evictionPool := rest\<rparr>"
    | (evict) victim rest where "fst (dict_has (store c) victim)"
        "c' = (let c2 = deleteKey (c\<lparr>evictionPool := rest, store := snd (dict_has (store c) victim)\<rparr>) victim
              in c2\<lparr>stats := (stats c2)\<lparr>evictions := evictions (stats c2) + 1\<rparr>\<rparr>)"
    | (skip) victim rest where "c' = c\<lparr>evictionPool := rest, store := snd (dict_has (store c) victim)\<rparr>"
    by blast
  then show ?thesis
  proof cases
    case empty
    then show ?thesis using assms(1) by (simp add: evictionEffect_refl)
  next
    case (falsy rest)
    then show ?thesis using assms(1) by (intro evictionEffect_same) simp_all
  next
    case (evict victim rest)
    let ?c1 = "c\<lparr>evictionPool := rest, store := snd (dict_has (store c) victim)\<rparr>"
    note h = dict_has_spec[OF assms(1), of victim]
    have e1: "evictionEffect c ?c1" using h assms(1) by (intro evictionEffect_same) simp_all
    have i1: "dict_inv (store ?c1)" using h by simp
    have v: "lookup2 (store ?c1) victim \<noteq> None" using h evict(1) by simp
    have "evictionEffect ?c1 c'"
      unfolding evict(2) Let_def by (rule evictionEffect_delete(1)[OF i1 v])
    with e1 show ?thesis by (rule evictionEffect_trans[OF assms(1)])
  next
    case (skip victim rest)
    note h = dict_has_spec[OF assms(1), of victim]
    show ?thesis unfolding skip using h assms(1) by (intro evictionEffect_same) simp_all
  qed
qed

text \<open>The loop condition, with no empty-string key in the store or in the pool.\<close>

definition overBudget :: "Cache \<Rightarrow> bool" where
  "overBudget c =
     (maxmemory c < currentMemoryUsed c \<and> 0 < dict_size (store c) \<and>
      [] \<notin> set (evictionPool c) \<and> lookup2 (store c) [] = None)"

lemma evictedKeys_mono:
  assumes "dict_inv (store a)" and "evictionEffect a b" and "evictionEffect b c"
  shows "evictedKeys a b \<noteq> [] \<or> evictedKeys b c \<noteq> [] \<Longrightarrow> evictedKeys a c \<noteq> []"
proof -
  assume h: "evictedKeys a b \<noteq> [] \<or> evictedKeys b c \<noteq> []"
  from assms have "set (evictedKeys a c) = set (evictedKeys a b) \<union> set (evictedKeys b c)"
    by (intro evictedKeys_compose(1)) (simp_all add: evictionEffect_def)
  with h show ?thesis by (metis Un_empty set_empty)
qed

lemma cache_inv_effect: "cache_inv c \<Longrightarrow> evictionEffect c c' \<Longrightarrow> cache_inv c'"
  by (simp add: evictionEffect_def cache_inv_shrinks)

lemma evictVictim_overBudget:
  assumes inv: "dict_inv (store c)" and v: "evictVictim c = (b, c')"
    and ob: "overBudget c" and pool: "evictionPool c \<noteq> []"
  shows "\<not> b \<and> (evictedKeys c c' \<noteq> [] \<or> overBudget c')"
proof -
  from pool obtain victim rest where p: "evictionPool c = victim # rest" by (cases "evictionPool c") auto
  with ob have vne: "victim \<noteq> []" and rne: "[] \<notin> set rest" by (auto simp: overBudget_def)
  note h = dict_has_spec[OF inv, of victim]
  from evictVictim_cases[OF v] p vne
  consider (evict) "\<not> b" "fst (dict_has (store c) victim)"
        "c' = (let c2 = deleteKey (c\<lparr>evictionPool := rest, store := snd (dict_has (store c) victim)\<rparr>) victim
              in c2\<lparr>stats := (stats c2)\<lparr>evictions := evictions (stats c2) + 1\<rparr>\<rparr>)"
    | (skip) "\<not> b" "c' = c\<lparr>evictionPool := rest, store := snd (dict_has (store c) victim)\<rparr>"
    by auto
  then show ?thesis
  proof cases
    case evict
    let ?c1 = "c\<lparr>evictionPool := rest, store := snd (dict_has (store c) victim)\<rparr>"
    have i1: "dict_inv (store ?c1)" using h by simp
    have l1: "lookup2 (store ?c1) victim \<noteq> None" using h evict(2) by simp
    have "set (evictedKeys ?c1 c') = {victim}"
      unfolding evict(3) Let_def by (rule evictionEffect_delete(2)[OF i1 l1])
    then have "victim \<in> {k. lookup2 (store ?c1) k \<noteq> None \<and> lookup2 (store c') k = None}"
      unfolding evictedKeys_set(2)[OF i1] by simp
    then have "victim \<in> set (evictedKeys c c')"
      unfolding evictedKeys_set(2)[OF inv] using h(3) by simp
    then have "evictedKeys c c' \<noteq> []" by auto
    with evict(1) show ?thesis by simp
  next
    case skip
    have "dict_size (store c') = dict_size (store c)"
      unfolding skip(2) using h inv by (intro dict_size_lookup) simp_all
    then have "overBudget c'" using ob rne h(3) by (simp add: overBudget_def skip(2))
    with skip(1) show ?thesis by simp
  qed
qed

lemma evictLoop_effect_aux:
  assumes "evictLoop c0 = Some c0'"
  shows "cache_inv c0 \<longrightarrow> evictionEffect c0 c0' \<and> (overBudget c0 \<longrightarrow> evictedKeys c0 c0' \<noteq> [])"
proof (rule evictLoop.raw_induct[where P="\<lambda>c c'. cache_inv c \<longrightarrow>
          evictionEffect c c' \<and> (overBudget c \<longrightarrow> evictedKeys c c' \<noteq> [])"], goal_cases)
  case (1 loop c c')
  note IH = 1(1) and body = 1(2)
  show "cache_inv c \<longrightarrow> evictionEffect c c' \<and> (overBudget c \<longrightarrow> evictedKeys c c' \<noteq> [])"
  proof
    assume cinv: "cache_inv c"
    then have inv: "dict_inv (store c)" by (simp add: cache_inv_def)
    show "evictionEffect c c' \<and> (overBudget c \<longrightarrow> evictedKeys c c' \<noteq> [])"
    proof (cases "maxmemory c < currentMemoryUsed c \<and> 0 < dict_size (store c)")
      case False
      with body have "c' = c" by simp
      moreover have "\<not> overBudget c" using False by (auto simp: overBudget_def)
      ultimately show ?thesis using inv by (simp add: evictionEffect_refl)
    next
      case True
      from True body obtain brk1 c1 where
        r: "(if evictionPool c = [] then refillPool c else Some (False, c)) = Some (brk1, c1)"
        by (auto split: option.splits)
      then have e1: "evictionEffect c c1"
        using evictionEffect_refillPool[OF inv] evictionEffect_refl[OF inv] by (auto split: if_splits)
      note cinv1 = cache_inv_effect[OF cinv e1]
      then have i1: "dict_inv (store c1)" by (simp add: cache_inv_def)
      have ob1: "overBudget c \<Longrightarrow> \<not> brk1 \<and> overBudget c1 \<and> evictionPool c1 \<noteq> []"
      proof -
        assume ob: "overBudget c"
        show "\<not> brk1 \<and> overBudget c1 \<and> evictionPool c1 \<noteq> []"
        proof (cases "evictionPool c = []")
          case True
          with r have rp: "refillPool c = Some (brk1, c1)" by simp
          from ob have sz: "0 < dict_size (store c)" and ne: "lookup2 (store c) [] = None"
            by (simp_all add: overBudget_def)
          note p = refillPool_pool[OF cinv sz ne rp]
          note s = refillPool_same[OF inv rp]
          have "dict_size (store c1) = dict_size (store c)"
            using s(1,2) inv by (intro dict_size_lookup) simp_all
          then have "overBudget c1" using ob p(3) s by (simp add: overBudget_def)
          with p show ?thesis by simp
        next
          case False
          with r ob show ?thesis by simp
        qed
      qed
      show ?thesis
      proof (cases brk1)
        case True
        with \<open>maxmemory c < currentMemoryUsed c \<and> 0 < dict_size (store c)\<close> body r
        have "c' = c1" by simp
        with e1 ob1 True show ?thesis by auto
      next
        case False
        obtain brk2 c2 where v: "evictVictim c1 = (brk2, c2)" by (cases "evictVictim c1") auto
        note e2 = evictionEffect_evictVictim[OF i1 v]
        note cinv2 = cache_inv_effect[OF cinv1 e2]
        then have i2: "dict_inv (store c2)" by (simp add: cache_inv_def)
        from False \<open>maxmemory c < currentMemoryUsed c \<and> 0 < dict_size (store c)\<close> body r v
        have rest: "(if brk2 then Some c2 else loop c2) = Some c'" by simp
        then have e3: "evictionEffect c2 c'"
          using IH[of c2 c'] cinv2 evictionEffect_refl[OF i2] by (auto split: if_splits)
        note e13 = evictionEffect_trans[OF i1 e2 e3]
        note e = evictionEffect_trans[OF inv e1 e13]
        have "evictedKeys c c' \<noteq> []" if ob: "overBudget c"
        proof -
          from ob1[OF ob] have o1: "overBudget c1" and p1: "evictionPool c1 \<noteq> []" by simp_all
          from evictVictim_overBudget[OF i1 v o1 p1]
          have nb: "\<not> brk2" and alt: "evictedKeys c1 c2 \<noteq> [] \<or> overBudget c2" by simp_all
          from nb rest have "loop c2 = Some c'" by simp
          from IH[OF this] cinv2 have "overBudget c2 \<longrightarrow> evictedKeys c2 c' \<noteq> []" by simp
          with alt have "evictedKeys c1 c2 \<noteq> [] \<or> evictedKeys c2 c' \<noteq> []" by blast
          then have "evictedKeys c1 c' \<noteq> []" by (rule evictedKeys_mono[OF i1 e2 e3])
          then have "evictedKeys c c1 \<noteq> [] \<or> evictedKeys c1 c' \<noteq> []" by simp
          then show ?thesis by (rule evictedKeys_mono[OF inv e1 e13])
        qed
        with e show ?thesis by simp
      qed
    qed
  qed
next
  case 2
  show "evictLoop c0 = Some c0'" by (rule assms)
qed

lemma evictIfNeeded_effect:
  assumes "cache_inv c" and "evictIfNeeded c = Some c'"
  shows "evictionEffect c c'" and "overBudget c \<Longrightarrow> evictedKeys c c' \<noteq> []"
proof -
  from assms(1) have inv: "dict_inv (store c)" by (simp add: cache_inv_def)
  show "evictionEffect c c'"
    using assms evictLoop_effect_aux[of c c'] evictionEffect_refl[OF inv]
    by (auto simp: evictIfNeeded_def split: if_splits)
  show "overBudget c \<Longrightarrow> evictedKeys c c' \<noteq> []"
    using assms evictLoop_effect_aux[of c c']
    by (auto simp: evictIfNeeded_def overBudget_def split: if_splits)
qed

lemma evictIfNeeded_empty: "dict_size (store c) = 0 \<Longrightarrow> evictIfNeeded c = Some c"
  by (simp add: evictIfNeeded_def evictLoop.simps)

lemma overBudget_bump [simp]: "overBudget (bumpOperations c) = overBudget c"
  by (simp add: overBudget_def bumpOperations_def)

lemma Cache_set_evicts:
  assumes "cache_inv c" and "Cache_set c now key val px = Some c'"
  shows "\<exists>c1. evictIfNeeded (bumpOperations c) = Some c1 \<and> evictions (stats c') = evictions (stats c1) \<and>
              (\<forall>k. k \<noteq> key \<longrightarrow> lookup2 (store c') k = lookup2 (store c1) k)"
proof -
  from assms(2) obtain c1 where e: "evictIfNeeded (bumpOperations c) = Some c1"
    by (auto simp: Cache_set_def split: option.splits)
  from assms(1) have "cache_inv (bumpOperations c)" by simp
  from cache_inv_evictIfNeeded[OF this e] have i1: "dict_inv (store c1)" by (simp add: cache_inv_def)
  note g = dict_get_spec[OF i1, of key]
  note s = dict_set_spec[OF g(2)]
  from assms(2) e have "evictions (stats c') = evictions (stats c1) \<and>
     (\<exists>entry. store c' = dict_set (snd (dict_get (store c1) key)) key entry)"
    by (auto simp: Cache_set_def Let_def split_beta)
  with s(2) g(3) e show ?thesis by auto
qed

lemma Cache_set_empty:
  "dict_size (store c) = 0 \<Longrightarrow> Cache_set c now key val px \<noteq> None"
proof -
  assume "dict_size (store c) = 0"
  then have "evictIfNeeded (bumpOperations c) = Some (bumpOperations c)"
    by (intro evictIfNeeded_empty) (simp add: bumpOperations_def)
  then show ?thesis by (simp add: Cache_set_def Let_def split_beta)
qed

text \<open>
  The eviction step \<^verbatim>\<open>_evictIfNeeded\<close> of a write returns at once on a cache with no
  entries, and \<^verbatim>\<open>set\<close> returns there. Whenever the step returns, every key is kept or is
  gone together with its TTL record and usage metadata, the eviction counter has grown by
  the number of keys gone and the memory counter has dropped by their recorded memory. When
  the step starts over budget on a non-empty store, with the empty string neither a key nor
  a pool candidate, at least one key is gone when it returns.
\<close>

lemma eviction_step_effect:
  assumes "reachable c"
  shows
    "(dict_size (store c) = 0 \<longrightarrow>
        evictIfNeeded c = Some c \<and> Cache_set c now key val px \<noteq> None) \<and>
     (\<forall>c1. evictIfNeeded c = Some c1 \<longrightarrow>
        evictionEffect c c1 \<and> (overBudget c \<longrightarrow> evictedKeys c c1 \<noteq> [])) \<and>
     (\<forall>c'. overBudget c \<and> Cache_set c now key val px = Some c' \<longrightarrow>
        evictions (stats c) < evictions (stats c') \<and>
        (\<exists>k. lookup2 (store c) k \<noteq> None \<and> (k = key \<or> lookup2 (store c') k = None)))"
proof (intro conjI allI impI)
  note cinv = reachable_inv[OF assms]
  then have inv: "dict_inv (store c)" by (simp add: cache_inv_def)
  show "evictIfNeeded c = Some c" if "dict_size (store c) = 0"
    using that by (rule evictIfNeeded_empty)
  show "Cache_set c now key val px \<noteq> None" if "dict_size (store c) = 0"
    using that by (rule Cache_set_empty)
  show "evictionEffect c c1" if "evictIfNeeded c = Some c1" for c1
    using cinv that by (rule evictIfNeeded_effect(1))
  show "evictedKeys c c1 \<noteq> []" if "evictIfNeeded c = Some c1" "overBudget c" for c1
    using cinv that by (rule evictIfNeeded_effect(2))
  have w: "evictions (stats c) < evictions (stats c') \<and>
        (\<exists>k. lookup2 (store c) k \<noteq> None \<and> (k = key \<or> lookup2 (store c') k = None))"
    if h: "overBudget c \<and> Cache_set c now key val px = Some c'" for c'
  proof -
    let ?b = "bumpOperations c"
    have cb: "cache_inv ?b" using cinv by simp
    then have ib: "dict_inv (store ?b)" by (simp add: cache_inv_def)
    from Cache_set_evicts[OF cinv] h obtain c1 where
      e: "evictIfNeeded ?b = Some c1" and ev: "evictions (stats c') = evictions (stats c1)"
      and lk: "\<forall>k. k \<noteq> key \<longrightarrow> lookup2 (store c') k = lookup2 (store c1) k"
      by blast
    from h have ob: "overBudget ?b" by simp
    note eff = evictIfNeeded_effect[OF cb e]
    from eff(2)[OF ob] obtain k where k: "k \<in> set (evictedKeys ?b c1)"
      by (cases "evictedKeys ?b c1") auto
    then have kk: "lookup2 (store c) k \<noteq> None" "lookup2 (store c1) k = None"
      unfolding evictedKeys_set(2)[OF ib] by simp_all
    from eff(2)[OF ob] have "0 < length (evictedKeys ?b c1)" by simp
    with eff(1) ev have "evictions (stats c) < evictions (stats c')"
      by (simp add: evictionEffect_def)
    moreover have "k = key \<or> lookup2 (store c') k = None" using lk kk(2) by auto
    ultimately show ?thesis using kk(1) by blast
  qed
  show "evictions (stats c) < evictions (stats c')"
    if "overBudget c \<and> Cache_set c now key val px = Some c'" for c'
    using w[OF that] by simp
  show "\<exists>k. lookup2 (store c) k \<noteq> None \<and> (k = key \<or> lookup2 (store c') k = None)"
    if "overBudget c \<and> Cache_set c now key val px = Some c'" for c'
    using w[OF that] by simp
qed

text \<open>
  A cache with \<^verbatim>\<open>maxmemory = 10\<close> after \<^verbatim>\<open>set("a", "x")\<close>: the write found the cache empty,
  evicted nothing and left 52 bytes recorded.
\<close>

definition small_options :: CacheOptions where
  "small_options = \<lparr>opt_maxmemory = Some 10, opt_evictionPolicy = None, opt_evictionSampleSize = None\<rparr>"

definition over_budget :: Cache where
  "over_budget = the (Cache_set (new_Cache small_options (\<lambda>n. 0)) 1 ''a'' ''x'' None)"

lemma over_budget_step:
  "\<not> Option.is_none (Cache_set (new_Cache small_options (\<lambda>n. 0)) 1 ''a'' ''x'' None)"
  by code_simp

lemma over_budget_reachable: "reachable over_budget"
  using over_budget_step r_set[OF r_new, of small_options "\<lambda>n. 0" 1 "''a''" "''x''" None over_budget]
  by (auto simp: over_budget_def Option.is_none_def)

text \<open>
  Reads never run the eviction step: \<^verbatim>\<open>set\<close> has returned with the memory counter (52)
  above \<^verbatim>\<open>maxmemory\<close> (10), and the \<^verbatim>\<open>get\<close> that follows returns the value and evicts
  nothing.
\<close>

lemma read_does_not_evict:
  "reachable over_budget \<and>
   maxmemory over_budget = 10 \<and> currentMemoryUsed over_budget = 52 \<and>
   dict_size (store over_budget) = 1 \<and> evictions (stats over_budget) = 0 \<and>
   fst (Cache_get over_budget 2 ''a'') = Inr (Some ''x'') \<and>
   evictions (stats (snd (Cache_get over_budget 2 ''a''))) = 0 \<and>
   currentMemoryUsed (snd (Cache_get over_budget 2 ''a'')) = 52 \<and>
   dict_size (store (snd (Cache_get over_budget 2 ''a''))) = 1"
proof -
  have "maxmemory over_budget = 10 \<and> currentMemoryUsed over_budget = 52 \<and>
   dict_size (store over_budget) = 1 \<and> evictions (stats over_budget) = 0 \<and>
   fst (Cache_get over_budget 2 ''a'') = Inr (Some ''x'') \<and>
   evictions (stats (snd (Cache_get over_budget 2 ''a''))) = 0 \<and>
   currentMemoryUsed (snd (Cache_get over_budget 2 ''a'')) = 52 \<and>
   dict_size (store (snd (Cache_get over_budget 2 ''a''))) = 1"
    unfolding over_budget_def by code_simp
  with over_budget_reachable show ?thesis by blast
qed

text \<open>
  The loop tests the victim with \<^verbatim>\<open>if (victim)\<close>, and the empty string is falsy. The state
  below is a cache with \<^verbatim>\<open>maxmemory = 10\<close> after \<^verbatim>\<open>set("", "x")\<close>.
\<close>

definition empty_key :: Cache where
  "empty_key = the (Cache_set (new_Cache small_options (\<lambda>n. 0)) 1 [] ''x'' None)"

lemma empty_key_step:
  "\<not> Option.is_none (Cache_set (new_Cache small_options (\<lambda>n. 0)) 1 [] ''x'' None)"
  by code_simp

lemma empty_key_reachable: "reachable empty_key"
  using empty_key_step r_set[OF r_new, of small_options "\<lambda>n. 0" 1 "[]" "''x''" None empty_key]
  by (auto simp: empty_key_def Option.is_none_def)

text \<open>
  Claim C3 fails on the code. On a cache with \<^verbatim>\<open>maxmemory = 10\<close>, after \<^verbatim>\<open>set("", "x")\<close> the
  memory counter is 50 and the empty string is the only key. The write \<^verbatim>\<open>set("a", "y")\<close>
  that follows runs the eviction step on this over-budget, non-empty cache: the step draws
  the key \<^verbatim>\<open>""\<close> as the victim, the test \<^verbatim>\<open>if (victim)\<close> takes the empty string for no
  victim and leaves the loop, and the write returns with nothing evicted: the eviction
  counter is still 0, both keys are stored and the counter stands at 102. The same happens
  to \<^verbatim>\<open>zadd\<close> and \<^verbatim>\<open>sadd\<close>. With the key \<^verbatim>\<open>"a"\<close> in place of \<^verbatim>\<open>""\<close> the same write
  evicts the stored key, as the claim says.
\<close>

theorem empty_key_write_evicts_nothing:
  "reachable empty_key \<and>
   maxmemory empty_key = 10 \<and> currentMemoryUsed empty_key = 50 \<and>
   dict_size (store empty_key) = 1 \<and> evictions (stats empty_key) = 0 \<and>
   \<not> Option.is_none (Cache_set empty_key 2 ''a'' ''y'' None) \<and>
   evictions (stats (the (Cache_set empty_key 2 ''a'' ''y'' None))) = 0 \<and>
   dict_size (store (the (Cache_set empty_key 2 ''a'' ''y'' None))) = 2 \<and>
   \<not> Option.is_none (lookup2 (store (the (Cache_set empty_key 2 ''a'' ''y'' None))) []) \<and>
   currentMemoryUsed (the (Cache_set empty_key 2 ''a'' ''y'' None)) = 102 \<and>
   \<not> Option.is_none (Cache_zadd empty_key 2 ''z'' (Fin 1) ''m'') \<and>
   evictions (stats (snd (the (Cache_zadd empty_key 2 ''z'' (Fin 1) ''m'')))) = 0 \<and>
   dict_size (store (snd (the (Cache_zadd empty_key 2 ''z'' (Fin 1) ''m'')))) = 2 \<and>
   \<not> Option.is_none (Cache_sadd empty_key 2 ''s'' [MStr ''m'']) \<and>
   evictions (stats (snd (the (Cache_sadd empty_key 2 ''s'' [MStr ''m''])))) = 0 \<and>
   dict_size (store (snd (the (Cache_sadd empty_key 2 ''s'' [MStr ''m''])))) = 2 \<and>
   reachable over_budget \<and> maxmemory over_budget = 10 \<and> currentMemoryUsed over_budget = 52 \<and>
   dict_size (store over_budget) = 1 \<and>
   \<not> Option.is_none (Cache_set over_budget 2 ''c'' ''y'' None) \<and>
   evictions (stats (the (Cache_set over_budget 2 ''c'' ''y'' None))) = 1 \<and>
   Option.is_none (lookup2 (store (the (Cache_set over_budget 2 ''c'' ''y'' None))) ''a'') \<and>
   dict_size (store (the (Cache_set over_budget 2 ''c'' ''y'' None))) = 1"
proof -
  have "maxmemory empty_key = 10 \<and> currentMemoryUsed empty_key = 50 \<and>
   dict_size (store empty_key) = 1 \<and> evictions (stats empty_key) = 0 \<and>
   \<not> Option.is_none (Cache_set empty_key 2 ''a'' ''y'' None) \<and>
   evictions (stats (the (Cache_set empty_key 2 ''a'' ''y'' None))) = 0 \<and>
   dict_size (store (the (Cache_set empty_key 2 ''a'' ''y'' None))) = 2 \<and>
   \<not> Option.is_none (lookup2 (store (the (Cache_set empty_key 2 ''a'' ''y'' None))) []) \<and>
   currentMemoryUsed (the (Cache_set empty_key 2 ''a'' ''y'' None)) = 102"
    unfolding empty_key_def by code_simp
  moreover have "\<not> Option.is_none (Cache_zadd empty_key 2 ''z'' (Fin 1) ''m'') \<and>
   evictions (stats (snd (the (Cache_zadd empty_key 2 ''z'' (Fin 1) ''m'')))) = 0 \<and>
   dict_size (store (snd (the (Cache_zadd empty_key 2 ''z'' (Fin 1) ''m'')))) = 2 \<and>
   \<not> Option.is_none (Cache_sadd empty_key 2 ''s'' [MStr ''m'']) \<and>
   evictions (stats (snd (the (Cache_sadd empty_key 2 ''s'' [MStr ''m''])))) = 0 \<and>
   dict_size (store (snd (the (Cache_sadd empty_key 2 ''s'' [MStr ''m''])))) = 2"
    unfolding empty_key_def by code_simp
  moreover have "maxmemory over_budget = 10 \<and> currentMemoryUsed over_budget = 52 \<and>
   dict_size (store over_budget) = 1 \<and>
   \<not> Option.is_none (Cache_set over_budget 2 ''c'' ''y'' None) \<and>
   evictions (stats (the (Cache_set over_budget 2 ''c'' ''y'' None))) = 1 \<and>
   Option.is_none (lookup2 (store (the (Cache_set over_budget 2 ''c'' ''y'' None))) ''a'') \<and>
   dict_size (store (the (Cache_set over_budget 2 ''c'' ''y'' None))) = 1"
    unfolding over_budget_def by code_simp
  ultimately show ?thesis using empty_key_reachable over_budget_reachable by blast
qed

section \<open>Properties of the skip list\<close>

subsection \<open>The order of (score, member) pairs\<close>

lemma num_lt_trans: "num_lt a b \<Longrightarrow> num_lt b c \<Longrightarrow> num_lt a c"
  by (cases a; cases b; cases c) auto

lemma num_lt_irrefl: "\<not> num_lt a a"
  by (cases a) auto

lemma num_lt_total: "a \<noteq> NaN \<Longrightarrow> b \<noteq> NaN \<Longrightarrow> num_lt a b \<or> a = b \<or> num_lt b a"
  by (cases a; cases b) auto

lemma num_eq_iff: "a \<noteq> NaN \<Longrightarrow> num_eq a b = (a = b)"
  by (cases a; cases b) auto

lemma num_eq_iff2: "b \<noteq> NaN \<Longrightarrow> num_eq a b = (a = b)"
  by (cases a; cases b) auto

text \<open>The order of the list: by score, then by member.\<close>

definition keyLess :: "number \<times> string \<Rightarrow> number \<times> string \<Rightarrow> bool" where
  "keyLess k1 k2 = (num_lt (fst k1) (fst k2) \<or> (fst k1 = fst k2 \<and> snd k1 < snd k2))"

definition nodeKey :: "SkipListNode list \<Rightarrow> nat \<Rightarrow> number \<times> string" where
  "nodeKey h a = (score (h ! a), member (h ! a))"

lemma keyLess_trans:
  assumes "keyLess a b" and "keyLess b c"
  shows "keyLess a c"
  using assms num_lt_trans[of "fst a" "fst b" "fst c"] less_trans[of "snd a" "snd b" "snd c"]
  by (auto simp: keyLess_def)

lemma keyLess_irrefl: "\<not> keyLess a a"
  by (simp add: keyLess_def num_lt_irrefl)

lemma keyLess_asym: "keyLess a b \<Longrightarrow> \<not> keyLess b a"
  using keyLess_trans keyLess_irrefl by blast

lemma keyLess_total:
  "fst a \<noteq> NaN \<Longrightarrow> fst b \<noteq> NaN \<Longrightarrow> keyLess a b \<or> a = b \<or> keyLess b a"
  unfolding keyLess_def using num_lt_total[of "fst a" "fst b"] less_linear[of "snd a" "snd b"]
  by (auto simp: prod_eq_iff)

lemma lessThanKey_iff:
  "score (h ! y) \<noteq> NaN \<Longrightarrow> sc \<noteq> NaN \<Longrightarrow> lessThanKey h y sc mb = keyLess (nodeKey h y) (sc, mb)"
  unfolding lessThanKey_def compareScoreMember_def keyLess_def nodeKey_def
  by (cases "score (h ! y)"; cases sc) auto

lemma atMostKey_iff:
  "score (h ! y) \<noteq> NaN \<Longrightarrow> sc \<noteq> NaN \<Longrightarrow>
   atMostKey h y sc mb = (keyLess (nodeKey h y) (sc, mb) \<or> nodeKey h y = (sc, mb))"
  unfolding atMostKey_def compareScoreMember_def keyLess_def nodeKey_def num_le_def
  by (cases "score (h ! y)"; cases sc) auto

subsection \<open>Writes to the heap\<close>

lemma nth_list_update_cases:
  "(h[x := v]) ! y = (if y = x \<and> x < length h then v else h ! y)"
  by (cases "x < length h") (auto simp: list_update_beyond not_less)

lemma fwd_setForward:
  "fwd (setForward h x i v) y j =
     (if y = x \<and> j = i \<and> x < length h \<and> i < length (forward (h ! x)) then v else fwd h y j)"
  by (auto simp: fwd_def setForward_def nth_list_update_cases)

lemma spans_setForward [simp]: "spans (setForward h x i v ! y) = spans (h ! y)"
  by (auto simp: setForward_def nth_list_update_cases)

lemma fwd_setSpan [simp]: "fwd (setSpan h x i v) y j = fwd h y j"
  by (auto simp: fwd_def setSpan_def nth_list_update_cases)

lemma spans_setSpan:
  "spans (setSpan h x i v ! y) ! j =
     (if y = x \<and> j = i \<and> x < length h \<and> i < length (spans (h ! x)) then v else spans (h ! y) ! j)"
  by (auto simp: setSpan_def nth_list_update_cases)

lemma fwd_setBackward [simp]: "fwd (setBackward h x v) y j = fwd h y j"
  by (auto simp: fwd_def setBackward_def nth_list_update_cases)

lemma spans_setBackward [simp]: "spans (setBackward h x v ! y) = spans (h ! y)"
  by (auto simp: setBackward_def nth_list_update_cases)

text \<open>What no write of the list changes: the length of the heap, and the level, key and
  array lengths of every node.\<close>

definition sameNodes :: "SkipListNode list \<Rightarrow> SkipListNode list \<Rightarrow> bool" where
  "sameNodes h h' =
     (length h' = length h \<and>
      (\<forall>a. nlevel (h' ! a) = nlevel (h ! a) \<and> score (h' ! a) = score (h ! a) \<and>
           member (h' ! a) = member (h ! a) \<and>
           length (forward (h' ! a)) = length (forward (h ! a)) \<and>
           length (spans (h' ! a)) = length (spans (h ! a))))"

lemma sameNodes_refl [simp]: "sameNodes h h"
  by (simp add: sameNodes_def)

lemma sameNodes_trans: "sameNodes a b \<Longrightarrow> sameNodes b c \<Longrightarrow> sameNodes a c"
  by (simp add: sameNodes_def)

lemma sameNodes_setForward [simp]: "sameNodes h (setForward h x i v)"
  unfolding sameNodes_def
proof (intro conjI allI)
  fix a
  show "length (setForward h x i v) = length h" by (simp add: setForward_def)
  show "nlevel (setForward h x i v ! a) = nlevel (h ! a)"
    by (auto simp: setForward_def nth_list_update_cases)
  show "score (setForward h x i v ! a) = score (h ! a)"
    by (auto simp: setForward_def nth_list_update_cases)
  show "member (setForward h x i v ! a) = member (h ! a)"
    by (auto simp: setForward_def nth_list_update_cases)
  show "length (forward (setForward h x i v ! a)) = length (forward (h ! a))"
    by (auto simp: setForward_def nth_list_update_cases)
  show "length (spans (setForward h x i v ! a)) = length (spans (h ! a))"
    by simp
qed

lemma sameNodes_setSpan [simp]: "sameNodes h (setSpan h x i v)"
  unfolding sameNodes_def
proof (intro conjI allI)
  fix a
  show "length (setSpan h x i v) = length h" by (simp add: setSpan_def)
  show "nlevel (setSpan h x i v ! a) = nlevel (h ! a)"
    by (auto simp: setSpan_def nth_list_update_cases)
  show "score (setSpan h x i v ! a) = score (h ! a)"
    by (auto simp: setSpan_def nth_list_update_cases)
  show "member (setSpan h x i v ! a) = member (h ! a)"
    by (auto simp: setSpan_def nth_list_update_cases)
  show "length (forward (setSpan h x i v ! a)) = length (forward (h ! a))"
    by (auto simp: setSpan_def nth_list_update_cases)
  show "length (spans (setSpan h x i v ! a)) = length (spans (h ! a))"
    by (auto simp: setSpan_def nth_list_update_cases)
qed

lemma sameNodes_setBackward [simp]: "sameNodes h (setBackward h x v)"
  unfolding sameNodes_def
proof (intro conjI allI)
  fix a
  show "length (setBackward h x v) = length h" by (simp add: setBackward_def)
  show "nlevel (setBackward h x v ! a) = nlevel (h ! a)"
    by (auto simp: setBackward_def nth_list_update_cases)
  show "score (setBackward h x v ! a) = score (h ! a)"
    by (auto simp: setBackward_def nth_list_update_cases)
  show "member (setBackward h x v ! a) = member (h ! a)"
    by (auto simp: setBackward_def nth_list_update_cases)
  show "length (forward (setBackward h x v ! a)) = length (forward (h ! a))"
    by (auto simp: setBackward_def nth_list_update_cases)
  show "length (spans (setBackward h x v ! a)) = length (spans (h ! a))"
    by simp
qed

subsection \<open>The links of one level\<close>

text \<open>
  The list is described by the addresses of its nodes in order, the header first. At level
  \<open>i\<close> a node is low when the level does not reach it. The forward pointer of a node at level
  \<open>i\<close> is the first node after it that is not low, and its span the distance to that node, or
  to the end of the list.
\<close>

definition low :: "SkipListNode list \<Rightarrow> nat \<Rightarrow> nat \<Rightarrow> bool" where
  "low h i a = (nlevel (h ! a) \<le> i)"

definition nextAt :: "SkipListNode list \<Rightarrow> nat \<Rightarrow> nat list \<Rightarrow> nat option" where
  "nextAt h i rest = find (\<lambda>a. \<not> low h i a) rest"

definition distAt :: "SkipListNode list \<Rightarrow> nat \<Rightarrow> nat list \<Rightarrow> nat" where
  "distAt h i rest =
     (if list_all (low h i) rest then length rest else Suc (length (takeWhile (low h i) rest)))"

fun linksAt :: "SkipListNode list \<Rightarrow> nat \<Rightarrow> bool \<Rightarrow> nat list \<Rightarrow> bool" where
  "linksAt h i sp [] = True"
| "linksAt h i sp (x # rest) =
     ((i < nlevel (h ! x) \<longrightarrow>
         fwd h x i = nextAt h i rest \<and> (sp \<longrightarrow> spans (h ! x) ! i = int (distAt h i rest))) \<and>
      linksAt h i sp rest)"

lemma low_sameNodes: "sameNodes h h' \<Longrightarrow> low h' i = low h i"
  by (auto simp: low_def sameNodes_def)

lemma nextAt_sameNodes: "sameNodes h h' \<Longrightarrow> nextAt h' i rest = nextAt h i rest"
  by (simp add: nextAt_def low_sameNodes)

lemma distAt_sameNodes: "sameNodes h h' \<Longrightarrow> distAt h' i rest = distAt h i rest"
  by (simp add: distAt_def low_sameNodes)

lemma nextAt_all_low: "\<forall>y\<in>set ys. low h i y \<Longrightarrow> nextAt h i (ys @ zs) = nextAt h i zs"
  by (induction ys) (simp_all add: nextAt_def)

lemma distAt_all_low:
  "\<forall>y\<in>set ys. low h i y \<Longrightarrow> distAt h i (ys @ zs) = length ys + distAt h i zs"
  by (auto simp: distAt_def list_all_iff)

lemma nextAt_Cons_high: "\<not> low h i q \<Longrightarrow> nextAt h i (q # zs) = Some q"
  by (simp add: nextAt_def)

lemma distAt_Cons_high: "\<not> low h i q \<Longrightarrow> distAt h i (q # zs) = 1"
  by (simp add: distAt_def)

lemma nextAt_Nil [simp]: "nextAt h i [] = None"
  by (simp add: nextAt_def)

lemma distAt_Nil [simp]: "distAt h i [] = 0"
  by (simp add: distAt_def)

lemma nextAt_mem: "nextAt h i zs = Some q \<Longrightarrow> q \<in> set zs \<and> \<not> low h i q"
  by (auto simp: nextAt_def find_Some_iff)

lemma nextAt_None: "nextAt h i zs = None \<Longrightarrow> \<forall>y\<in>set zs. low h i y"
  by (auto simp: nextAt_def find_None_iff)

lemma nextAt_None_iff: "(nextAt h i zs = None) = (\<forall>y\<in>set zs. low h i y)"
  by (auto simp: nextAt_def find_None_iff)

text \<open>When a node that is not low comes first, what follows it does not matter.\<close>

lemma nextAt_prefix:
  "\<exists>y\<in>set ys. \<not> low h i y \<Longrightarrow> nextAt h i (ys @ zs) = nextAt h i ys"
  by (induction ys) (auto simp: nextAt_def)

lemma distAt_prefix:
  "\<exists>y\<in>set ys. \<not> low h i y \<Longrightarrow> distAt h i (ys @ zs) = distAt h i ys"
  by (auto simp: distAt_def list_all_iff)

lemma linksAt_append:
  "linksAt h i sp (xs @ ys) \<Longrightarrow> linksAt h i sp ys"
  by (induction xs) auto

lemma linksAt_weaken: "linksAt h i sp xs \<Longrightarrow> linksAt h i False xs"
  by (induction xs) auto

text \<open>The links of level \<open>i\<close> depend on the level-\<open>i\<close> entries of the nodes of the list only.\<close>

lemma linksAt_cong:
  assumes "sameNodes h h'"
    and "\<forall>x\<in>set xs. fwd h' x i = fwd h x i \<and> spans (h' ! x) ! i = spans (h ! x) ! i"
  shows "linksAt h' i sp xs = linksAt h i sp xs"
  using assms(2)
proof (induction xs)
  case Nil
  show ?case by simp
next
  case (Cons x xs)
  have "nlevel (h' ! x) = nlevel (h ! x)" using assms(1) by (simp add: sameNodes_def)
  with Cons show ?case
    by (simp add: nextAt_sameNodes[OF assms(1)] distAt_sameNodes[OF assms(1)])
qed

subsection \<open>The search walks\<close>

text \<open>
  A walk at level \<open>i\<close> from the node \<open>x\<close>, followed in the list by the nodes \<open>ys\<close> below the
  searched key and then by the nodes \<open>post\<close> not below it, ends at the last node of
  \<open>x # ys\<close> that level \<open>i\<close> reaches, and has added the distance walked to the rank.
\<close>

lemma insertWalk_spec:
  assumes "linksAt h i True (x # ys @ post)"
    and "i < nlevel (h ! x)"
    and "\<forall>y\<in>set ys. lessThanKey h y sc mb" and "\<forall>q\<in>set post. \<not> lessThanKey h q sc mb"
  shows "\<exists>ys1 x' ys2. x # ys = ys1 @ x' # ys2 \<and> i < nlevel (h ! x') \<and> (\<forall>y\<in>set ys2. low h i y) \<and>
           insertWalk h i sc mb x r = Some (x', r + int (length ys1))"
  using assms
proof (induction "length ys" arbitrary: ys x r rule: less_induct)
  case less
  from less.prems(1,2) have f: "fwd h x i = nextAt h i (ys @ post)"
    and s: "spans (h ! x) ! i = int (distAt h i (ys @ post))" by simp_all
  show ?case
  proof (cases "\<forall>y\<in>set ys. low h i y")
    case True
    then have n: "fwd h x i = nextAt h i post" using f by (simp add: nextAt_all_low)
    have "insertWalk h i sc mb x r = Some (x, r)"
    proof (cases "nextAt h i post")
      case None
      then show ?thesis using n by (subst insertWalk.simps) simp
    next
      case (Some q)
      then have "q \<in> set post" using nextAt_mem by blast
      with less.prems(4) have "\<not> lessThanKey h q sc mb" by simp
      then show ?thesis using n Some by (subst insertWalk.simps) simp
    qed
    then show ?thesis using True less.prems(2)
      by (intro exI[of _ "[]"] exI[of _ x] exI[of _ ys]) simp
  next
    case False
    define lows where "lows = takeWhile (low h i) ys"
    define rest where "rest = dropWhile (low h i) ys"
    have "rest \<noteq> []" using False by (auto simp: rest_def)
    then obtain q ys' where rq: "rest = q # ys'" by (cases rest) auto
    have "ys = lows @ rest" by (simp add: lows_def rest_def)
    then have ys: "ys = lows @ q # ys'" using rq by simp
    have lowl: "\<forall>y\<in>set lows. low h i y" by (auto simp: lows_def dest: set_takeWhileD)
    have hq: "\<not> low h i q" using rq unfolding rest_def
      by (metis hd_dropWhile list.sel(1) list.distinct(1))
    have n: "fwd h x i = Some q" using f lowl hq unfolding ys
      by (simp add: nextAt_all_low nextAt_Cons_high)
    have d: "spans (h ! x) ! i = int (length lows) + 1" using s lowl hq unfolding ys
      by (simp add: distAt_all_low distAt_Cons_high)
    have lq: "lessThanKey h q sc mb" using less.prems(3) ys by simp
    have step: "insertWalk h i sc mb x r = insertWalk h i sc mb q (r + (int (length lows) + 1))"
      using n lq d by (subst insertWalk.simps) simp
    have l': "linksAt h i True (q # ys' @ post)"
      using less.prems(1) linksAt_append[of h i True "x # lows" "q # ys' @ post"] unfolding ys by simp
    have iq: "i < nlevel (h ! q)" using hq by (simp add: low_def)
    have len: "length ys' < length ys" unfolding ys by simp
    have lt': "\<forall>y\<in>set ys'. lessThanKey h y sc mb" using less.prems(3) unfolding ys by simp
    from less.hyps[OF len l' iq lt' less.prems(4), of "r + (int (length lows) + 1)"]
    obtain zs1 x' zs2 where z: "q # ys' = zs1 @ x' # zs2" "i < nlevel (h ! x')"
      "\<forall>y\<in>set zs2. low h i y"
      "insertWalk h i sc mb q (r + (int (length lows) + 1)) =
         Some (x', r + (int (length lows) + 1) + int (length zs1))"
      by blast
    have "x # ys = (x # lows @ zs1) @ x' # zs2" unfolding ys using z(1) by simp
    moreover have "insertWalk h i sc mb x r = Some (x', r + int (length (x # lows @ zs1)))"
      using step z(4) by simp
    ultimately show ?thesis using z(2,3) by blast
  qed
qed

lemma deleteWalk_insertWalk:
  assumes "insertWalk h0 i0 sc0 mb0 x0 r0 = Some res0"
  shows "deleteWalk h0 i0 sc0 mb0 x0 = Some (fst res0)"
proof (rule insertWalk.raw_induct[where P="\<lambda>h i sc mb x r res. deleteWalk h i sc mb x = Some (fst res)"
      and xa="(((((h0, i0), sc0), mb0), x0), r0)" and y=res0, unfolded prod.case], goal_cases)
  case (1 f h i sc mb x r res)
  note IH = 1(1) and body = 1(2)
  show "deleteWalk h i sc mb x = Some (fst res)"
  proof (cases "fwd h x i")
    case None
    with body show ?thesis by (subst deleteWalk.simps) auto
  next
    case (Some q)
    show ?thesis
    proof (cases "lessThanKey h q sc mb")
      case True
      with Some body have "f h i sc mb q (r + spans (h ! x) ! i) = Some res" by simp
      from IH[OF this] Some True show ?thesis by (subst deleteWalk.simps) simp
    next
      case False
      with Some body show ?thesis by (subst deleteWalk.simps) auto
    qed
  qed
next
  case 2
  show "insertWalk h0 i0 sc0 mb0 x0 r0 = Some res0" by (rule assms)
qed

text \<open>\<open>isUpd h i pre u p\<close>: \<open>u\<close>, at position \<open>p\<close>, is the last node of \<open>pre\<close> that level \<open>i\<close>
  reaches.\<close>

definition isUpd :: "SkipListNode list \<Rightarrow> nat \<Rightarrow> nat list \<Rightarrow> nat \<Rightarrow> nat \<Rightarrow> bool" where
  "isUpd h i pre u p =
     (\<exists>ys1 ys2. pre = ys1 @ u # ys2 \<and> p = length ys1 \<and> i < nlevel (h ! u) \<and>
                (\<forall>y\<in>set ys2. low h i y))"

lemma insertSearch_spec:
  assumes links: "\<forall>i<L. linksAt h i True (pre @ post)"
    and lt: "\<forall>y\<in>set (tl pre). lessThanKey h y sc mb"
    and ge: "\<forall>q\<in>set post. \<not> lessThanKey h q sc mb"
    and "n \<le> L" and "L \<le> length update" and "length rank = length update"
    and "pre = ys1 @ x # ys2" and "n \<le> nlevel (h ! x)"
    and "if n = L then ys1 = [] else rank ! n = int (length ys1)"
  shows "\<exists>update' rank'. insertSearch n h L sc mb x update rank = Some (update', rank') \<and>
           length update' = length update \<and> length rank' = length rank \<and>
           (\<forall>j<n. \<exists>u p. update' ! j = Some u \<and> rank' ! j = int p \<and> isUpd h j pre u p) \<and>
           (\<forall>j\<ge>n. update' ! j = update ! j \<and> rank' ! j = rank ! j)"
  using assms(4-)
proof (induction n arbitrary: x update rank ys1 ys2)
  case 0
  show ?case by simp
next
  case (Suc i)
  note pre = Suc.prems(4)
  have iL: "i < L" using Suc.prems(1) by simp
  define r0 where "r0 = (if i = L - 1 then 0 else rank ! (i + 1))"
  have r0: "r0 = int (length ys1)"
    using Suc.prems(6) iL by (auto simp: r0_def)
  have l: "linksAt h i True (x # ys2 @ post)"
    using links iL linksAt_append[of h i True ys1 "x # ys2 @ post"] unfolding pre by simp
  have ix: "i < nlevel (h ! x)" using Suc.prems(5) by simp
  have "set ys2 \<subseteq> set (tl pre)" unfolding pre by (cases ys1) auto
  with lt have lt2: "\<forall>y\<in>set ys2. lessThanKey h y sc mb" by blast
  from insertWalk_spec[OF l ix lt2 ge, of r0]
  obtain zs1 x' zs2 where z: "x # ys2 = zs1 @ x' # zs2" "i < nlevel (h ! x')"
    "\<forall>y\<in>set zs2. low h i y" "insertWalk h i sc mb x r0 = Some (x', r0 + int (length zs1))"
    by blast
  define r' where "r' = r0 + int (length zs1)"
  have pre': "pre = (ys1 @ zs1) @ x' # zs2" unfolding pre using z(1) by simp
  have rr: "r' = int (length (ys1 @ zs1))" by (simp add: r'_def r0)
  have il: "i < length rank" "i < length update" using iL Suc.prems(2,3) by simp_all
  have c: "if i = L then ys1 @ zs1 = [] else rank[i := r'] ! i = int (length (ys1 @ zs1))"
    using iL il rr by simp
  from Suc.IH[of "update[i := Some x']" "rank[i := r']" "ys1 @ zs1" x' zs2, OF _ _ _ pre' _ c]
    iL Suc.prems(2,3) z(2)
  obtain update' rank' where
    s: "insertSearch i h L sc mb x' (update[i := Some x']) (rank[i := r']) = Some (update', rank')"
    and len: "length update' = length update" "length rank' = length rank"
    and lo: "\<forall>j<i. \<exists>u p. update' ! j = Some u \<and> rank' ! j = int p \<and> isUpd h j pre u p"
    and hi: "\<forall>j\<ge>i. update' ! j = (update[i := Some x']) ! j \<and> rank' ! j = (rank[i := r']) ! j"
    by auto
  have "insertSearch (Suc i) h L sc mb x update rank = Some (update', rank')"
    using z(4) s by (simp add: r0_def r'_def)
  moreover have "\<forall>j<Suc i. \<exists>u p. update' ! j = Some u \<and> rank' ! j = int p \<and> isUpd h j pre u p"
  proof (intro allI impI)
    fix j
    assume "j < Suc i"
    then consider "j < i" | "j = i" by linarith
    then show "\<exists>u p. update' ! j = Some u \<and> rank' ! j = int p \<and> isUpd h j pre u p"
    proof cases
      case 1
      with lo show ?thesis by simp
    next
      case 2
      have "update' ! i = Some x'" "rank' ! i = int (length (ys1 @ zs1))"
        using hi il rr by simp_all
      moreover have "isUpd h i pre x' (length (ys1 @ zs1))"
        unfolding isUpd_def using pre' z(2,3) by blast
      ultimately show ?thesis using 2 by blast
    qed
  qed
  moreover have "\<forall>j\<ge>Suc i. update' ! j = update ! j \<and> rank' ! j = rank ! j"
    using hi by simp
  ultimately show ?case using len by blast
qed

lemma deleteSearch_insertSearch:
  "insertSearch n h L sc mb x update rank = Some (update', rank') \<Longrightarrow>
   deleteSearch n h sc mb x update = Some update'"
proof (induction n arbitrary: x update rank)
  case 0
  then show ?case by simp
next
  case (Suc i)
  from Suc.prems obtain x' r where
    w: "insertWalk h i sc mb x (if i = L - 1 then 0 else rank ! (i + 1)) = Some (x', r)"
    and s: "insertSearch i h L sc mb x' (update[i := Some x']) (rank[i := r]) = Some (update', rank')"
    by (auto split: option.splits)
  from deleteWalk_insertWalk[OF w] Suc.IH[OF s] show ?case by simp
qed

subsection \<open>Changing the links of one level\<close>

lemma linksAt_cong_nodes:
  "\<forall>x\<in>set xs. h' ! x = h ! x \<Longrightarrow> linksAt h' i sp xs = linksAt h i sp xs"
proof (induction xs)
  case Nil
  show ?case by simp
next
  case (Cons x xs)
  then have e: "\<forall>y\<in>set xs. low h' i y = low h i y" by (simp add: low_def)
  have n: "nextAt h' i xs = nextAt h i xs"
    unfolding nextAt_def using e by (intro find_cong) auto
  have t: "takeWhile (low h' i) xs = takeWhile (low h i) xs"
    using e by (intro takeWhile_cong) auto
  have d: "distAt h' i xs = distAt h i xs"
    unfolding distAt_def using e t by (simp add: list_all_iff)
  from Cons show ?case by (simp add: n d fwd_def)
qed

lemma linksAt_low_prefix:
  "\<forall>y\<in>set ys. low h i y \<Longrightarrow> linksAt h i sp (ys @ zs) = linksAt h i sp zs"
  by (induction ys) (auto simp: low_def)

text \<open>A change behind a node that level \<open>i\<close> reaches is not seen from before that node.\<close>

lemma linksAt_prefix_change:
  assumes "sameNodes h h'" and "\<not> low h i u"
    and "\<forall>x\<in>set ys1. fwd h' x i = fwd h x i \<and> spans (h' ! x) ! i = spans (h ! x) ! i"
    and "linksAt h i sp (ys1 @ u # rest)" and "linksAt h' i sp (u # rest')"
  shows "linksAt h' i sp (ys1 @ u # rest')"
  using assms(3,4)
proof (induction ys1)
  case Nil
  show ?case using assms(5) by simp
next
  case (Cons x ys1)
  have hu: "\<exists>y\<in>set (ys1 @ [u]). \<not> low h i y" using assms(2) by simp
  have n: "nextAt h i (ys1 @ u # rest) = nextAt h i (ys1 @ u # rest')"
    using nextAt_prefix[OF hu, of rest] nextAt_prefix[OF hu, of rest'] by simp
  have d: "distAt h i (ys1 @ u # rest) = distAt h i (ys1 @ u # rest')"
    using distAt_prefix[OF hu, of rest] distAt_prefix[OF hu, of rest'] by simp
  have l: "nlevel (h' ! x) = nlevel (h ! x)" using assms(1) by (simp add: sameNodes_def)
  from Cons show ?case
    by (simp add: l n d nextAt_sameNodes[OF assms(1)] distAt_sameNodes[OF assms(1)])
qed

text \<open>A node that level \<open>i\<close> does not reach can be put anywhere, as far as the pointers of
  level \<open>i\<close> go.\<close>

lemma nextAt_insert_low: "low h i nw \<Longrightarrow> nextAt h i (xs @ nw # ys) = nextAt h i (xs @ ys)"
  by (induction xs) (simp_all add: nextAt_def)

lemma nextAt_remove_low: "low h i nw \<Longrightarrow> nextAt h i (xs @ ys) = nextAt h i (xs @ nw # ys)"
  by (simp add: nextAt_insert_low)

lemma linksAt_False_insert_low:
  "low h i nw \<Longrightarrow> linksAt h i False (xs @ ys) \<Longrightarrow> linksAt h i False (xs @ nw # ys)"
  by (induction xs) (auto simp: nextAt_insert_low low_def)

lemma linksAt_False_remove_low:
  "low h i nw \<Longrightarrow> linksAt h i False (xs @ nw # ys) \<Longrightarrow> linksAt h i False (xs @ ys)"
  by (induction xs) (auto simp: nextAt_insert_low low_def)

text \<open>The nodes of a list are in the heap, each with arrays as long as its level.\<close>

definition shaped :: "SkipListNode list \<Rightarrow> nat \<Rightarrow> bool" where
  "shaped h a =
     (a < length h \<and> length (forward (h ! a)) = nlevel (h ! a) \<and>
      length (spans (h ! a)) = nlevel (h ! a))"

lemma shaped_sameNodes: "sameNodes h h' \<Longrightarrow> shaped h' a = shaped h a"
  by (simp add: shaped_def sameNodes_def)

lemma isUpd_sameNodes: "sameNodes h h' \<Longrightarrow> isUpd h' i pre u p = isUpd h i pre u p"
proof -
  assume s: "sameNodes h h'"
  then have "nlevel (h' ! u) = nlevel (h ! u)" by (simp add: sameNodes_def)
  then show ?thesis unfolding isUpd_def low_sameNodes[OF s] by simp
qed

lemma isUpd_mem: "isUpd h i pre u p \<Longrightarrow> u \<in> set pre"
  by (auto simp: isUpd_def)

text \<open>One pass of the splice loop of \<^verbatim>\<open>insert\<close>, at a level \<open>i\<close> of the new node.\<close>

lemma splice_step:
  assumes dist: "distinct (pre @ post)" and nwf: "nw \<notin> set (pre @ post)"
    and sh: "\<forall>a\<in>set (pre @ post). shaped h a" and shn: "shaped h nw"
    and hi: "i < nlevel (h ! nw)"
    and old: "linksAt h i True (pre @ post)"
    and upd: "isUpd h i pre u p"
    and d: "d = int (length pre) - 1 - int p"
  defines "h1 \<equiv> setForward h nw i (fwd h u i)"
  defines "h2 \<equiv> setForward h1 u i (Some nw)"
  defines "h3 \<equiv> setSpan h2 nw i (spans (h2 ! u) ! i - d)"
  defines "h4 \<equiv> setSpan h3 u i (d + 1)"
  shows "linksAt h4 i True (pre @ nw # post)" and "sameNodes h h4"
    and "\<forall>x j. j \<noteq> i \<longrightarrow> fwd h4 x j = fwd h x j \<and> spans (h4 ! x) ! j = spans (h ! x) ! j"
proof -
  from upd obtain ys1 ys2 where pre: "pre = ys1 @ u # ys2" and p: "p = length ys1"
    and iu: "i < nlevel (h ! u)" and lo: "\<forall>y\<in>set ys2. low h i y"
    by (auto simp: isUpd_def)
  have dd: "d = int (length ys2)" using d p pre by simp
  have un: "u \<noteq> nw" using nwf pre by auto
  have su: "shaped h u" using sh pre by simp
  have sn1: "sameNodes h h1" unfolding h1_def by simp
  have "sameNodes h1 h2" unfolding h2_def by simp
  with sn1 have sn2: "sameNodes h h2" by (rule sameNodes_trans)
  have "sameNodes h2 h3" unfolding h3_def by simp
  with sn2 have sn3: "sameNodes h h3" by (rule sameNodes_trans)
  have "sameNodes h3 h4" unfolding h4_def by simp
  with sn3 have sn: "sameNodes h h4" by (rule sameNodes_trans)
  show "sameNodes h h4" by (rule sn)
  have len: "length h1 = length h" "length h2 = length h" "length h3 = length h"
    using sn1 sn2 sn3 by (simp_all add: sameNodes_def)
  have c1: "nw < length h \<and> i < length (forward (h ! nw))" using shn hi by (simp add: shaped_def)
  have c2: "u < length h1 \<and> i < length (forward (h1 ! u))"
    using su iu sn1 len by (simp add: shaped_def sameNodes_def)
  have c3: "nw < length h2 \<and> i < length (spans (h2 ! nw))"
    using shn hi sn2 len by (simp add: shaped_def sameNodes_def)
  have c4: "u < length h3 \<and> i < length (spans (h3 ! u))"
    using su iu sn3 len by (simp add: shaped_def sameNodes_def)
  have F1: "\<And>x j. fwd h1 x j = (if x = nw \<and> j = i then fwd h u i else fwd h x j)"
    unfolding h1_def fwd_setForward using c1 by simp
  have F2: "\<And>x j. fwd h2 x j = (if x = u \<and> j = i then Some nw else fwd h1 x j)"
    unfolding h2_def fwd_setForward using c2 by simp
  have F: "\<And>x j. fwd h4 x j =
             (if x = u \<and> j = i then Some nw else if x = nw \<and> j = i then fwd h u i else fwd h x j)"
    unfolding h4_def h3_def fwd_setSpan F2 F1 by simp
  have S2: "\<And>x. spans (h2 ! x) = spans (h ! x)" unfolding h2_def h1_def by simp
  have S3: "\<And>x j. spans (h3 ! x) ! j =
             (if x = nw \<and> j = i then spans (h ! u) ! i - d else spans (h ! x) ! j)"
    unfolding h3_def spans_setSpan using c3 S2 by simp
  have S: "\<And>x j. spans (h4 ! x) ! j =
             (if x = u \<and> j = i then d + 1 else if x = nw \<and> j = i then spans (h ! u) ! i - d
              else spans (h ! x) ! j)"
    unfolding h4_def spans_setSpan using c4 S3 by simp
  show "\<forall>x j. j \<noteq> i \<longrightarrow> fwd h4 x j = fwd h x j \<and> spans (h4 ! x) ! j = spans (h ! x) ! j"
    using F S by simp
  have lw: "low h4 i = low h i" by (rule low_sameNodes[OF sn])
  have nx: "\<And>r. nextAt h4 i r = nextAt h i r" by (rule nextAt_sameNodes[OF sn])
  have ds: "\<And>r. distAt h4 i r = distAt h i r" by (rule distAt_sameNodes[OF sn])
  have nl: "\<And>a. nlevel (h4 ! a) = nlevel (h ! a)" using sn by (simp add: sameNodes_def)
  have oldu: "linksAt h i True (u # ys2 @ post)"
    using old linksAt_append[of h i True ys1 "u # ys2 @ post"] unfolding pre by simp
  then have fu: "fwd h u i = nextAt h i post" and spu: "spans (h ! u) ! i = int (length ys2 + distAt h i post)"
    using iu lo by (simp_all add: nextAt_all_low distAt_all_low)
  have oldp: "linksAt h i True post"
    using old linksAt_append[of h i True pre post] by simp
  have np: "\<forall>x\<in>set post. x \<noteq> u \<and> x \<noteq> nw" using dist nwf pre by auto
  have A: "linksAt h4 i True post"
    using oldp linksAt_cong[OF sn, of post i True] np F S by simp
  have hn: "\<not> low h i nw" using hi by (simp add: low_def)
  have B: "linksAt h4 i True (nw # post)"
    using A F S un fu spu dd by (simp add: nx ds nl)
  have C: "linksAt h4 i True (ys2 @ nw # post)"
    using B lo by (simp add: linksAt_low_prefix lw)
  have D: "linksAt h4 i True (u # ys2 @ nw # post)"
    using C F S lo hn dd
    by (simp add: nx ds nl nextAt_all_low distAt_all_low nextAt_Cons_high distAt_Cons_high)
  have n1: "\<forall>x\<in>set ys1. x \<noteq> u \<and> x \<noteq> nw" using dist nwf pre by auto
  have hu: "\<not> low h i u" using iu by (simp add: low_def)
  have "linksAt h4 i True (ys1 @ u # ys2 @ nw # post)"
    using linksAt_prefix_change[OF sn hu _ _ D, of ys1 "ys2 @ post"] old n1 F S
    unfolding pre by simp
  then show "linksAt h4 i True (pre @ nw # post)" unfolding pre by simp
qed

text \<open>One pass of the loop over the levels above the new node: the span grows by one.\<close>

lemma bump_step:
  assumes dist: "distinct (pre @ post)" and nwf: "nw \<notin> set (pre @ post)"
    and sh: "\<forall>a\<in>set (pre @ post). shaped h a"
    and lown: "low h i nw"
    and old: "linksAt h i True (pre @ post)"
    and upd: "isUpd h i pre u p"
  defines "h1 \<equiv> setSpan h u i (spans (h ! u) ! i + 1)"
  shows "linksAt h1 i True (pre @ nw # post)" and "sameNodes h h1"
    and "\<forall>x j. j \<noteq> i \<longrightarrow> fwd h1 x j = fwd h x j \<and> spans (h1 ! x) ! j = spans (h ! x) ! j"
proof -
  from upd obtain ys1 ys2 where pre: "pre = ys1 @ u # ys2" and p: "p = length ys1"
    and iu: "i < nlevel (h ! u)" and lo: "\<forall>y\<in>set ys2. low h i y"
    by (auto simp: isUpd_def)
  have un: "u \<noteq> nw" using nwf pre by auto
  have su: "shaped h u" using sh pre by simp
  have sn: "sameNodes h h1" unfolding h1_def by simp
  show "sameNodes h h1" by (rule sn)
  have F: "\<And>x j. fwd h1 x j = fwd h x j" by (simp add: h1_def)
  have S: "\<And>x j. spans (h1 ! x) ! j =
             (if x = u \<and> j = i then spans (h ! u) ! i + 1 else spans (h ! x) ! j)"
    using su iu by (auto simp: h1_def spans_setSpan shaped_def)
  show "\<forall>x j. j \<noteq> i \<longrightarrow> fwd h1 x j = fwd h x j \<and> spans (h1 ! x) ! j = spans (h ! x) ! j"
    using F S by simp
  have lw: "low h1 i = low h i" by (rule low_sameNodes[OF sn])
  have nx: "\<And>r. nextAt h1 i r = nextAt h i r" by (rule nextAt_sameNodes[OF sn])
  have ds: "\<And>r. distAt h1 i r = distAt h i r" by (rule distAt_sameNodes[OF sn])
  have nl: "\<And>a. nlevel (h1 ! a) = nlevel (h ! a)" using sn by (simp add: sameNodes_def)
  have oldu: "linksAt h i True (u # ys2 @ post)"
    using old linksAt_append[of h i True ys1 "u # ys2 @ post"] unfolding pre by simp
  then have fu: "fwd h u i = nextAt h i post" and spu: "spans (h ! u) ! i = int (length ys2 + distAt h i post)"
    using iu lo by (simp_all add: nextAt_all_low distAt_all_low)
  have oldp: "linksAt h i True post"
    using old linksAt_append[of h i True pre post] by simp
  have np: "\<forall>x\<in>set post. x \<noteq> u" using dist pre by auto
  have A: "linksAt h1 i True post"
    using oldp linksAt_cong[OF sn, of post i True] np F S by simp
  have B: "linksAt h1 i True (nw # post)"
    using A lown by (simp add: nl low_def)
  have C: "linksAt h1 i True (ys2 @ nw # post)"
    using B lo by (simp add: linksAt_low_prefix lw)
  have lo2: "\<forall>y\<in>set (ys2 @ [nw]). low h i y" using lo lown by simp
  have "nextAt h i ((ys2 @ [nw]) @ post) = nextAt h i post"
    and "distAt h i ((ys2 @ [nw]) @ post) = length (ys2 @ [nw]) + distAt h i post"
    using lo2 by (simp_all only: nextAt_all_low distAt_all_low)
  then have D: "linksAt h1 i True (u # ys2 @ nw # post)"
    using C F S fu spu by (simp add: nx ds nl)
  have n1: "\<forall>x\<in>set ys1. x \<noteq> u" using dist pre by auto
  have hu: "\<not> low h i u" using iu by (simp add: low_def)
  have "linksAt h1 i True (ys1 @ u # ys2 @ nw # post)"
    using linksAt_prefix_change[OF sn hu _ _ D, of ys1 "ys2 @ post"] old n1 F S
    unfolding pre by simp
  then show "linksAt h1 i True (pre @ nw # post)" unfolding pre by simp
qed

subsection \<open>The loops of insert\<close>

lemma sameNodes_sym: "sameNodes a b \<Longrightarrow> sameNodes b a"
  by (simp add: sameNodes_def)

text \<open>The outcome of the search: for every level below \<open>n\<close>, the \<open>update\<close> node and its rank.\<close>

definition searched ::
  "SkipListNode list \<Rightarrow> nat \<Rightarrow> nat list \<Rightarrow> nat option list \<Rightarrow> int list \<Rightarrow> bool" where
  "searched h n pre update rank =
     (\<forall>j<n. \<exists>u p. update ! j = Some u \<and> rank ! j = int p \<and> isUpd h j pre u p)"

lemma searched_sameNodes:
  "sameNodes h h' \<Longrightarrow> searched h' n pre update rank = searched h n pre update rank"
  by (simp add: searched_def isUpd_sameNodes)

lemma raiseLevels_spec:
  assumes "raiseLevels js sl update rank = (h', update', rank')"
    and "shaped (heap sl) (header sl)" and "\<forall>j\<in>set js. j < nlevel (heap sl ! header sl)"
  shows "sameNodes (heap sl) h' \<and>
         (\<forall>x j. fwd h' x j = fwd (heap sl) x j) \<and>
         (\<forall>x j. spans (h' ! x) ! j =
                 (if x = header sl \<and> j \<in> set js then slength sl else spans (heap sl ! x) ! j)) \<and>
         length update' = length update \<and> length rank' = length rank \<and>
         (\<forall>j. update' ! j = (if j \<in> set js \<and> j < length update then Some (header sl) else update ! j)) \<and>
         (\<forall>j. rank' ! j = (if j \<in> set js \<and> j < length rank then 0 else rank ! j))"
  using assms
proof (induction js arbitrary: sl update rank)
  case Nil
  then show ?case by simp
next
  case (Cons i js)
  define sl1 where "sl1 = sl\<lparr>heap := setSpan (heap sl) (header sl) i (slength sl)\<rparr>"
  have sn1: "sameNodes (heap sl) (heap sl1)" by (simp add: sl1_def)
  have r: "raiseLevels js sl1 (update[i := Some (header sl)]) (rank[i := 0]) = (h', update', rank')"
    using Cons.prems(1) by (simp add: sl1_def)
  have hd1: "header sl1 = header sl" "slength sl1 = slength sl" by (simp_all add: sl1_def)
  have sh1: "shaped (heap sl1) (header sl1)"
    using Cons.prems(2) shaped_sameNodes[OF sn1] hd1 by simp
  have lv1: "\<forall>j\<in>set js. j < nlevel (heap sl1 ! header sl1)"
    using Cons.prems(3) sn1 hd1 by (simp add: sameNodes_def)
  note ih = Cons.IH[OF r sh1 lv1]
  have c: "header sl < length (heap sl) \<and> i < length (spans (heap sl ! header sl))"
    using Cons.prems(2,3) by (simp add: shaped_def)
  have S1: "\<And>x j. spans (heap sl1 ! x) ! j =
              (if x = header sl \<and> j = i then slength sl else spans (heap sl ! x) ! j)"
    unfolding sl1_def using c by (simp add: spans_setSpan)
  have F1: "\<And>x j. fwd (heap sl1) x j = fwd (heap sl) x j" by (simp add: sl1_def)
  have "sameNodes (heap sl) h'" using ih sn1 sameNodes_trans by blast
  moreover have "\<forall>x j. fwd h' x j = fwd (heap sl) x j" using ih F1 by simp
  moreover have "\<forall>x j. spans (h' ! x) ! j =
                 (if x = header sl \<and> j \<in> set (i # js) then slength sl else spans (heap sl ! x) ! j)"
    using ih S1 hd1 by auto
  moreover have "length update' = length update \<and> length rank' = length rank" using ih by simp
  moreover have "\<forall>j. update' ! j =
        (if j \<in> set (i # js) \<and> j < length update then Some (header sl) else update ! j)"
    using ih hd1 by (auto simp: nth_list_update_cases)
  moreover have "\<forall>j. rank' ! j = (if j \<in> set (i # js) \<and> j < length rank then 0 else rank ! j)"
    using ih by (auto simp: nth_list_update_cases)
  ultimately show ?case by blast
qed

lemma spliceLevels_spec:
  assumes dist: "distinct (pre @ post)" and nwf: "nw \<notin> set (pre @ post)"
    and sh: "\<forall>a\<in>set (pre @ post). shaped h0 a" and shn: "shaped h0 nw"
    and nl: "nlevel (h0 ! nw) = n"
    and se: "searched h0 n pre update rank"
    and r0: "rank ! 0 = int (length pre) - 1"
    and "k \<le> n" and "sameNodes h0 h"
    and "\<forall>j. k \<le> j \<and> j < n \<longrightarrow> linksAt h j True (pre @ post)"
  shows "\<exists>h'. spliceLevels [k..<n] nw update rank h = Some h' \<and> sameNodes h0 h' \<and>
           (\<forall>j. k \<le> j \<and> j < n \<longrightarrow> linksAt h' j True (pre @ nw # post)) \<and>
           (\<forall>x j. j < k \<or> n \<le> j \<longrightarrow> fwd h' x j = fwd h x j \<and> spans (h' ! x) ! j = spans (h ! x) ! j)"
  using assms(8-)
proof (induction "n - k" arbitrary: k h)
  case 0
  then have "n \<le> k" by simp
  then show ?case using "0.prems"(2) by auto
next
  case (Suc m)
  then have kn: "k < n" by simp
  then have up: "[k..<n] = k # [Suc k..<n]" by (simp add: upt_conv_Cons)
  note sn = Suc.prems(2)
  from se kn obtain u p where u: "update ! k = Some u" "rank ! k = int p" "isUpd h0 k pre u p"
    by (auto simp: searched_def)
  have iu: "isUpd h k pre u p" using u(3) isUpd_sameNodes[OF sn] by simp
  have sh': "\<forall>a\<in>set (pre @ post). shaped h a" using sh shaped_sameNodes[OF sn] by simp
  have shn': "shaped h nw" using shn shaped_sameNodes[OF sn] by simp
  have hi: "k < nlevel (h ! nw)" using nl kn sn by (simp add: sameNodes_def)
  have old: "linksAt h k True (pre @ post)" using Suc.prems(3) kn by simp
  define d where "d = rank ! 0 - rank ! k"
  have d: "d = int (length pre) - 1 - int p" using r0 u(2) by (simp add: d_def)
  define h1 where "h1 = setForward h nw k (fwd h u k)"
  define h2 where "h2 = setForward h1 u k (Some nw)"
  define h3 where "h3 = setSpan h2 nw k (spans (h2 ! u) ! k - d)"
  define h4 where "h4 = setSpan h3 u k (d + 1)"
  have st: "linksAt h4 k True (pre @ nw # post)" "sameNodes h h4"
    "\<forall>x j. j \<noteq> k \<longrightarrow> fwd h4 x j = fwd h x j \<and> spans (h4 ! x) ! j = spans (h ! x) ! j"
    unfolding h4_def h3_def h2_def h1_def
    by (rule splice_step[OF dist nwf sh' shn' hi old iu d])+
  have step: "spliceLevels [k..<n] nw update rank h = spliceLevels [Suc k..<n] nw update rank h4"
    unfolding up by (simp add: u(1) Let_def h1_def h2_def h3_def h4_def d_def)
  have sn4: "sameNodes h0 h4" using sn st(2) by (rule sameNodes_trans)
  have l4: "\<forall>j. Suc k \<le> j \<and> j < n \<longrightarrow> linksAt h4 j True (pre @ post)"
  proof (intro allI impI)
    fix j
    assume j: "Suc k \<le> j \<and> j < n"
    then have "j \<noteq> k" by simp
    with st(3) have "\<forall>x\<in>set (pre @ post). fwd h4 x j = fwd h x j \<and> spans (h4 ! x) ! j = spans (h ! x) ! j"
      by simp
    from linksAt_cong[OF st(2) this] Suc.prems(3) j show "linksAt h4 j True (pre @ post)" by simp
  qed
  have m: "m = n - Suc k" using Suc.hyps(2) by simp
  from Suc.hyps(1)[OF m _ sn4 l4] kn
  obtain h' where r: "spliceLevels [Suc k..<n] nw update rank h4 = Some h'" and sn': "sameNodes h0 h'"
    and l': "\<forall>j. Suc k \<le> j \<and> j < n \<longrightarrow> linksAt h' j True (pre @ nw # post)"
    and fr: "\<forall>x j. j < Suc k \<or> n \<le> j \<longrightarrow> fwd h' x j = fwd h4 x j \<and> spans (h' ! x) ! j = spans (h4 ! x) ! j"
    by auto
  have s4': "sameNodes h4 h'" using sameNodes_sym[OF sn4] sn' by (rule sameNodes_trans)
  have lk: "linksAt h' k True (pre @ nw # post)"
    using linksAt_cong[OF s4', of "pre @ nw # post" k True] fr st(1) by simp
  have "\<forall>j. k \<le> j \<and> j < n \<longrightarrow> linksAt h' j True (pre @ nw # post)"
  proof (intro allI impI)
    fix j
    assume "k \<le> j \<and> j < n"
    then consider "j = k" | "Suc k \<le> j \<and> j < n" by linarith
    then show "linksAt h' j True (pre @ nw # post)" using lk l' by cases simp_all
  qed
  moreover have "\<forall>x j. j < k \<or> n \<le> j \<longrightarrow>
      fwd h' x j = fwd h x j \<and> spans (h' ! x) ! j = spans (h ! x) ! j"
    using fr st(3) kn by auto
  ultimately show ?case using step r sn' by simp
qed

lemma bumpSpans_spec:
  assumes dist: "distinct (pre @ post)" and nwf: "nw \<notin> set (pre @ post)"
    and sh: "\<forall>a\<in>set (pre @ post). shaped h0 a"
    and nl: "nlevel (h0 ! nw) \<le> k"
    and se: "searched h0 n pre update rank"
    and "k \<le> n" and "sameNodes h0 h"
    and "\<forall>j. k \<le> j \<and> j < n \<longrightarrow> linksAt h j True (pre @ post)"
  shows "\<exists>h'. bumpSpans [k..<n] update h = Some h' \<and> sameNodes h0 h' \<and>
           (\<forall>j. k \<le> j \<and> j < n \<longrightarrow> linksAt h' j True (pre @ nw # post)) \<and>
           (\<forall>x j. j < k \<or> n \<le> j \<longrightarrow> fwd h' x j = fwd h x j \<and> spans (h' ! x) ! j = spans (h ! x) ! j)"
  using assms(4,6-)
proof (induction "n - k" arbitrary: k h)
  case 0
  then have "n \<le> k" by simp
  then show ?case using "0.prems"(3) by auto
next
  case (Suc m)
  then have kn: "k < n" by simp
  then have up: "[k..<n] = k # [Suc k..<n]" by (simp add: upt_conv_Cons)
  note sn = Suc.prems(3)
  from se kn obtain u p where u: "update ! k = Some u" "rank ! k = int p" "isUpd h0 k pre u p"
    by (auto simp: searched_def)
  have iu: "isUpd h k pre u p" using u(3) isUpd_sameNodes[OF sn] by simp
  have sh': "\<forall>a\<in>set (pre @ post). shaped h a" using sh shaped_sameNodes[OF sn] by simp
  have lown: "low h k nw" using Suc.prems(1) sn by (simp add: low_def sameNodes_def)
  have old: "linksAt h k True (pre @ post)" using Suc.prems(4) kn by simp
  define h1 where "h1 = setSpan h u k (spans (h ! u) ! k + 1)"
  have st: "linksAt h1 k True (pre @ nw # post)" "sameNodes h h1"
    "\<forall>x j. j \<noteq> k \<longrightarrow> fwd h1 x j = fwd h x j \<and> spans (h1 ! x) ! j = spans (h ! x) ! j"
    unfolding h1_def
    by (rule bump_step[OF dist nwf sh' lown old iu])+
  have step: "bumpSpans [k..<n] update h = bumpSpans [Suc k..<n] update h1"
    unfolding up by (simp add: u(1) h1_def)
  have sn1: "sameNodes h0 h1" using sn st(2) by (rule sameNodes_trans)
  have l1: "\<forall>j. Suc k \<le> j \<and> j < n \<longrightarrow> linksAt h1 j True (pre @ post)"
  proof (intro allI impI)
    fix j
    assume j: "Suc k \<le> j \<and> j < n"
    then have "j \<noteq> k" by simp
    with st(3) have "\<forall>x\<in>set (pre @ post). fwd h1 x j = fwd h x j \<and> spans (h1 ! x) ! j = spans (h ! x) ! j"
      by simp
    from linksAt_cong[OF st(2) this] Suc.prems(4) j show "linksAt h1 j True (pre @ post)" by simp
  qed
  have m: "m = n - Suc k" using Suc.hyps(2) by simp
  have nl': "nlevel (h0 ! nw) \<le> Suc k" using Suc.prems(1) by simp
  from Suc.hyps(1)[OF m nl' _ sn1 l1] kn
  obtain h' where r: "bumpSpans [Suc k..<n] update h1 = Some h'" and sn': "sameNodes h0 h'"
    and l': "\<forall>j. Suc k \<le> j \<and> j < n \<longrightarrow> linksAt h' j True (pre @ nw # post)"
    and fr: "\<forall>x j. j < Suc k \<or> n \<le> j \<longrightarrow> fwd h' x j = fwd h1 x j \<and> spans (h' ! x) ! j = spans (h1 ! x) ! j"
    by auto
  have s1': "sameNodes h1 h'" using sameNodes_sym[OF sn1] sn' by (rule sameNodes_trans)
  have lk: "linksAt h' k True (pre @ nw # post)"
    using linksAt_cong[OF s1', of "pre @ nw # post" k True] fr st(1) by simp
  have "\<forall>j. k \<le> j \<and> j < n \<longrightarrow> linksAt h' j True (pre @ nw # post)"
  proof (intro allI impI)
    fix j
    assume "k \<le> j \<and> j < n"
    then consider "j = k" | "Suc k \<le> j \<and> j < n" by linarith
    then show "linksAt h' j True (pre @ nw # post)" using lk l' by cases simp_all
  qed
  moreover have "\<forall>x j. j < k \<or> n \<le> j \<longrightarrow>
      fwd h' x j = fwd h x j \<and> spans (h' ! x) ! j = spans (h ! x) ! j"
    using fr st(3) kn by auto
  ultimately show ?case using step r sn' by simp
qed

lemma randomLevelLoop_bounds:
  "l \<le> mx \<Longrightarrow> l \<le> fst (randomLevelLoop mx l r) \<and> fst (randomLevelLoop mx l r) \<le> mx"
proof (induction mx l r rule: randomLevelLoop.induct)
  case (1 maxLevel lvl r)
  show ?case
  proof (cases "fst (Math_random r) < 0.25 \<and> lvl < maxLevel")
    case True
    then have e: "randomLevelLoop maxLevel lvl r = randomLevelLoop maxLevel (lvl + 1) (snd (Math_random r))"
      by (subst randomLevelLoop.simps) (auto simp: split_beta)
    from 1(1)[of "fst (Math_random r)" "snd (Math_random r)"] True
    show ?thesis unfolding e by simp
  next
    case False
    then have "randomLevelLoop maxLevel lvl r = (lvl, snd (Math_random r))"
      by (subst randomLevelLoop.simps) (auto simp: split_beta)
    then show ?thesis using 1(2) by simp
  qed
qed

lemma randomLevel_bounds:
  "1 \<le> mx \<Longrightarrow> 1 \<le> fst (randomLevel mx r) \<and> fst (randomLevel mx r) \<le> mx"
  unfolding randomLevel_def by (rule randomLevelLoop_bounds)

subsection \<open>The invariant of the skip list\<close>

text \<open>
  \<open>sl_inv sl as\<close>: the list \<open>sl\<close> holds the nodes at the addresses \<open>as\<close>, in this order. The
  header and the nodes are distinct objects of the heap; the header has 32 levels, a node
  between 1 and \<open>level\<close>; no score is NaN; at every level the forward pointers skip exactly
  the nodes the level does not reach, and below \<open>level\<close> the spans are the distances; the
  keys grow strictly; \<open>length\<close> counts the nodes.
\<close>

definition sl_inv :: "SkipList \<Rightarrow> nat list \<Rightarrow> bool" where
  "sl_inv sl as =
     (maxLevel sl = 32 \<and> 1 \<le> level sl \<and> level sl \<le> 32 \<and>
      distinct (header sl # as) \<and> (\<forall>a\<in>set (header sl # as). shaped (heap sl) a) \<and>
      nlevel (heap sl ! header sl) = 32 \<and>
      (\<forall>a\<in>set as. 1 \<le> nlevel (heap sl ! a) \<and> nlevel (heap sl ! a) \<le> level sl \<and>
                  score (heap sl ! a) \<noteq> NaN) \<and>
      (\<forall>i<32. linksAt (heap sl) i (i < level sl) (header sl # as)) \<and>
      sorted_wrt (\<lambda>a b. keyLess (nodeKey (heap sl) a) (nodeKey (heap sl) b)) as \<and>
      slength sl = int (length as))"

lemma sorted_split:
  assumes "sorted_wrt (\<lambda>a b. keyLess (K a) (K b)) as"
  shows "\<forall>q\<in>set (dropWhile (\<lambda>a. keyLess (K a) k) as). \<not> keyLess (K q) k"
proof (cases "dropWhile (\<lambda>a. keyLess (K a) k) as")
  case Nil
  show ?thesis unfolding Nil by simp
next
  case (Cons f rest)
  have nf: "\<not> keyLess (K f) k"
    using Cons by (metis hd_dropWhile list.distinct(1) list.sel(1))
  have "as = takeWhile (\<lambda>a. keyLess (K a) k) as @ f # rest"
    using Cons takeWhile_dropWhile_id[of "\<lambda>a. keyLess (K a) k" as] by simp
  with assms have "sorted_wrt (\<lambda>a b. keyLess (K a) (K b)) (takeWhile (\<lambda>a. keyLess (K a) k) as @ f # rest)"
    by simp
  then have "\<forall>q\<in>set rest. keyLess (K f) (K q)" by (simp add: sorted_wrt_append)
  then have "\<forall>q\<in>set rest. \<not> keyLess (K q) k" using nf keyLess_trans by blast
  with nf show ?thesis unfolding Cons by simp
qed

lemma linksAt_all_low: "\<forall>y\<in>set ys. low h i y \<Longrightarrow> linksAt h i sp ys"
  using linksAt_low_prefix[of ys h i sp "[]"] by simp

lemma isUpd_cong_nodes:
  "\<forall>x\<in>set pre. h' ! x = h ! x \<Longrightarrow> isUpd h' i pre u p = isUpd h i pre u p"
  unfolding isUpd_def low_def by (intro ex_cong1 iffI; clarsimp)

lemma isUpd_level0:
  assumes "isUpd h 0 pre u p" and "\<forall>y\<in>set (tl pre). 1 \<le> nlevel (h ! y)"
  shows "int p = int (length pre) - 1"
proof -
  from assms(1) obtain ys1 ys2 where pre: "pre = ys1 @ u # ys2" and p: "p = length ys1"
    and lo: "\<forall>y\<in>set ys2. low h 0 y"
    by (auto simp: isUpd_def)
  have "set ys2 \<subseteq> set (tl pre)" unfolding pre by (cases ys1) auto
  with assms(2) lo have "ys2 = []" by (cases ys2) (auto simp: low_def)
  then show ?thesis using pre p by simp
qed

lemma SkipList_insert_eval:
  assumes "insertSearch (level sl) (heap sl) (level sl) sc mb (header sl)
             (replicate (maxLevel sl) None) (replicate (maxLevel sl) 0) = Some (update0, rank0)"
    and "randomLevel (maxLevel sl) rnd = (newLevel, rnd')"
    and "(if newLevel > level sl
          then (case raiseLevels [level sl..<newLevel] sl update0 rank0 of
                  (h, u, r) \<Rightarrow> (h, u, r, newLevel))
          else (heap sl, update0, rank0, level sl)) = (h0, update, rank, lvl)"
    and "spliceLevels [0..<newLevel] (length h0) update rank
           (h0 @ [new_SkipListNode sc mb newLevel]) = Some h2"
    and "bumpSpans [newLevel..<lvl] update h2 = Some h3"
    and "update ! 0 = Some u0"
  shows "\<exists>sl'. SkipList_insert sl sc mb rnd = Some (length h0, sl', rnd') \<and>
           level sl' = lvl \<and> slength sl' = slength sl + 1 \<and> header sl' = header sl \<and>
           maxLevel sl' = maxLevel sl \<and> sameNodes h3 (heap sl') \<and>
           (\<forall>x j. fwd (heap sl') x j = fwd h3 x j) \<and>
           (\<forall>x. spans (heap sl' ! x) = spans (h3 ! x))"
proof -
  define h4 where "h4 = setBackward h3 (length h0) (if u0 = header sl then None else Some u0)"
  have s4: "sameNodes h3 h4" by (simp add: h4_def)
  show ?thesis
  proof (cases "fwd h4 (length h0) 0")
    case None
    have "SkipList_insert sl sc mb rnd =
            Some (length h0, sl\<lparr>level := lvl, tail := Some (length h0),
                                slength := slength sl + 1, heap := h4\<rparr>, rnd')"
      unfolding SkipList_insert_def assms(1) assms(2) option.case prod.case assms(3) Let_def
        assms(4) assms(5) assms(6) h4_def[symmetric] None
      by simp
    then show ?thesis using s4 by (simp add: h4_def)
  next
    case (Some nx)
    have "SkipList_insert sl sc mb rnd =
            Some (length h0, sl\<lparr>level := lvl, slength := slength sl + 1,
                                heap := setBackward h4 nx (Some (length h0))\<rparr>, rnd')"
      unfolding SkipList_insert_def assms(1) assms(2) option.case prod.case assms(3) Let_def
        assms(4) assms(5) assms(6) h4_def[symmetric] Some
      by simp
    moreover have "sameNodes h3 (setBackward h4 nx (Some (length h0)))"
      using s4 sameNodes_setBackward by (rule sameNodes_trans)
    ultimately show ?thesis by (simp add: h4_def)
  qed
qed

lemma searched_mono: "n \<le> m \<Longrightarrow> searched h m pre update rank \<Longrightarrow> searched h n pre update rank"
  by (simp add: searched_def)

lemma searched_cong_nodes:
  "\<forall>x\<in>set pre. h' ! x = h ! x \<Longrightarrow> searched h' n pre update rank = searched h n pre update rank"
proof -
  assume a: "\<forall>x\<in>set pre. h' ! x = h ! x"
  have "\<And>j u p. isUpd h' j pre u p = isUpd h j pre u p" by (rule isUpd_cong_nodes[OF a])
  then show ?thesis unfolding searched_def by simp
qed

text \<open>The levels a raise adds: the header alone reaches them.\<close>

lemma raised_levels:
  assumes r: "raiseLevels [L..<newLevel] sl update0 rank0 = (h0, update, rank)"
    and shh: "shaped (heap sl) (header sl)" and nh: "nlevel (heap sl ! header sl) = 32"
    and n32: "newLevel \<le> 32" and lu: "length update0 = 32" "length rank0 = 32"
    and nodes: "\<forall>a\<in>set front. nlevel (heap sl ! a) \<le> L"
    and se0: "searched (heap sl) L (header sl # front) update0 rank0"
  shows "sameNodes (heap sl) h0" and "\<forall>x j. fwd h0 x j = fwd (heap sl) x j"
    and "\<forall>x j. spans (h0 ! x) ! j =
           (if x = header sl \<and> L \<le> j \<and> j < newLevel then slength sl else spans (heap sl ! x) ! j)"
    and "searched (heap sl) (max L newLevel) (header sl # front) update rank"
    and "rank ! 0 = (if L = 0 \<and> 0 < newLevel then 0 else rank0 ! 0)"
proof -
  have b: "\<forall>j\<in>set [L..<newLevel]. j < nlevel (heap sl ! header sl)" using nh n32 by simp
  note rs = raiseLevels_spec[OF r shh b]
  show "sameNodes (heap sl) h0" using rs by simp
  show "\<forall>x j. fwd h0 x j = fwd (heap sl) x j" using rs by simp
  show "\<forall>x j. spans (h0 ! x) ! j =
           (if x = header sl \<and> L \<le> j \<and> j < newLevel then slength sl else spans (heap sl ! x) ! j)"
    using rs by simp
  have U: "\<And>j. update ! j = (if L \<le> j \<and> j < newLevel then Some (header sl) else update0 ! j)"
    using rs lu n32 by auto
  have R: "\<And>j. rank ! j = (if L \<le> j \<and> j < newLevel then 0 else rank0 ! j)"
    using rs lu n32 by auto
  show "rank ! 0 = (if L = 0 \<and> 0 < newLevel then 0 else rank0 ! 0)" using R[of 0] by simp
  show "searched (heap sl) (max L newLevel) (header sl # front) update rank"
    unfolding searched_def
  proof (intro allI impI)
    fix j
    assume j: "j < max L newLevel"
    show "\<exists>u p. update ! j = Some u \<and> rank ! j = int p \<and> isUpd (heap sl) j (header sl # front) u p"
    proof (cases "j < L")
      case True
      then show ?thesis using se0 U[of j] R[of j] by (simp add: searched_def)
    next
      case False
      with j have jn: "L \<le> j" "j < newLevel" by simp_all
      have "isUpd (heap sl) j (header sl # front) (header sl) 0"
        unfolding isUpd_def low_def using nodes jn nh n32
        by (intro exI[of _ "[]"] exI[of _ front]) auto
      then show ?thesis using U[of j] R[of j] jn by auto
    qed
  qed
qed

text \<open>The two loops that link the new node, on the heap with the node allocated.\<close>

lemma insert_links:
  fixes sc :: number and mb :: string and newLevel :: nat and h0 :: "SkipListNode list"
  assumes dist: "distinct (pre @ behind)" and sh: "\<forall>a\<in>set (pre @ behind). shaped h0 a"
    and l0: "\<forall>j<32. linksAt h0 j (j < lvl) (pre @ behind)"
    and se: "searched h0 lvl pre update rank" and r0: "rank ! 0 = int (length pre) - 1"
    and nb: "newLevel \<le> lvl" "lvl \<le> 32"
  defines "nw \<equiv> length h0" and "h1 \<equiv> h0 @ [new_SkipListNode sc mb newLevel]"
  shows "\<exists>h2 h3. spliceLevels [0..<newLevel] nw update rank h1 = Some h2 \<and>
           bumpSpans [newLevel..<lvl] update h2 = Some h3 \<and> sameNodes h1 h3 \<and>
           (\<forall>j<32. linksAt h3 j (j < lvl) (pre @ nw # behind))"
proof -
  have old1: "\<forall>a\<in>set (pre @ behind). h1 ! a = h0 ! a"
    using sh by (auto simp: h1_def shaped_def nth_append)
  have n1: "h1 ! nw = new_SkipListNode sc mb newLevel" by (simp add: h1_def nw_def)
  have sh1: "\<forall>a\<in>set (pre @ behind). shaped h1 a"
  proof
    fix a
    assume a: "a \<in> set (pre @ behind)"
    with sh have "shaped h0 a" by blast
    moreover have "h1 ! a = h0 ! a" using old1 a by blast
    moreover have "length h1 = Suc (length h0)" by (simp add: h1_def)
    ultimately show "shaped h1 a" by (simp add: shaped_def)
  qed
  have shn1: "shaped h1 nw" by (simp add: shaped_def n1 new_SkipListNode_def) (simp add: h1_def nw_def)
  have nl1: "nlevel (h1 ! nw) = newLevel" by (simp add: n1 new_SkipListNode_def)
  have l1: "\<forall>j<32. linksAt h1 j (j < lvl) (pre @ behind)"
    using linksAt_cong_nodes[OF old1] l0 by simp
  have l1T: "linksAt h1 j True (pre @ behind)" if "j < lvl" for j
  proof -
    from that nb have "j < 32" by simp
    with l1 have "linksAt h1 j (j < lvl) (pre @ behind)" by blast
    with that show ?thesis by simp
  qed
  have l1F: "linksAt h1 j False (pre @ behind)" if "lvl \<le> j" "j < 32" for j
  proof -
    from l1 that(2) have "linksAt h1 j (j < lvl) (pre @ behind)" by blast
    with that(1) show ?thesis by simp
  qed
  have "\<forall>x\<in>set pre. h1 ! x = h0 ! x" using old1 by simp
  then have se1: "searched h1 lvl pre update rank" using se searched_cong_nodes by blast
  have se1n: "searched h1 newLevel pre update rank" using searched_mono[OF nb(1) se1] .
  have nwf: "nw \<notin> set (pre @ behind)" using sh by (auto simp: shaped_def nw_def)
  have lk0: "\<forall>j. 0 \<le> j \<and> j < newLevel \<longrightarrow> linksAt h1 j True (pre @ behind)"
    using l1T nb by auto
  from spliceLevels_spec[OF dist nwf sh1 shn1 nl1 se1n r0 _ sameNodes_refl lk0]
  obtain h2 where sp: "spliceLevels [0..<newLevel] nw update rank h1 = Some h2"
    and sn2: "sameNodes h1 h2"
    and l2: "\<forall>j. 0 \<le> j \<and> j < newLevel \<longrightarrow> linksAt h2 j True (pre @ nw # behind)"
    and f2: "\<forall>x j. j < 0 \<or> newLevel \<le> j \<longrightarrow>
               fwd h2 x j = fwd h1 x j \<and> spans (h2 ! x) ! j = spans (h1 ! x) ! j"
    by auto
  have same2: "linksAt h2 j sp' xs = linksAt h1 j sp' xs" if "newLevel \<le> j" for j sp' xs
  proof (rule linksAt_cong[OF sn2])
    show "\<forall>x\<in>set xs. fwd h2 x j = fwd h1 x j \<and> spans (h2 ! x) ! j = spans (h1 ! x) ! j"
      using f2 that by blast
  qed
  have lk2: "\<forall>j. newLevel \<le> j \<and> j < lvl \<longrightarrow> linksAt h2 j True (pre @ behind)"
    using l1T same2 by auto
  have nlk: "nlevel (h1 ! nw) \<le> newLevel" using nl1 by simp
  from bumpSpans_spec[OF dist nwf sh1 nlk se1 nb(1) sn2 lk2]
  obtain h3 where bp: "bumpSpans [newLevel..<lvl] update h2 = Some h3"
    and sn3: "sameNodes h1 h3"
    and l3: "\<forall>j. newLevel \<le> j \<and> j < lvl \<longrightarrow> linksAt h3 j True (pre @ nw # behind)"
    and f3: "\<forall>x j. j < newLevel \<or> lvl \<le> j \<longrightarrow>
               fwd h3 x j = fwd h2 x j \<and> spans (h3 ! x) ! j = spans (h2 ! x) ! j"
    by auto
  have sn23: "sameNodes h2 h3" using sameNodes_sym[OF sn2] sn3 by (rule sameNodes_trans)
  have same3: "linksAt h3 j sp' xs = linksAt h2 j sp' xs" if "j < newLevel \<or> lvl \<le> j" for j sp' xs
  proof (rule linksAt_cong[OF sn23])
    show "\<forall>x\<in>set xs. fwd h3 x j = fwd h2 x j \<and> spans (h3 ! x) ! j = spans (h2 ! x) ! j"
      using f3 that by blast
  qed
  have "\<forall>j<32. linksAt h3 j (j < lvl) (pre @ nw # behind)"
  proof (intro allI impI)
    fix j :: nat
    assume j: "j < 32"
    consider "j < newLevel" | "newLevel \<le> j" "j < lvl" | "lvl \<le> j" by linarith
    then show "linksAt h3 j (j < lvl) (pre @ nw # behind)"
    proof cases
      case 1
      then have "linksAt h3 j True (pre @ nw # behind)" using l2 same3[of j] by simp
      then show ?thesis using 1 nb by simp
    next
      case 2
      then show ?thesis using l3 by simp
    next
      case 3
      then have a: "linksAt h1 j False (pre @ behind)" using l1F j by auto
      have "linksAt h3 j False (pre @ behind)" using a same2[of j] same3[of j] 3 nb by simp
      moreover have "low h3 j nw" using nl1 sn3 3 nb by (simp add: low_def sameNodes_def)
      ultimately have "linksAt h3 j False (pre @ nw # behind)" by (simp add: linksAt_False_insert_low)
      then show ?thesis using 3 by simp
    qed
  qed
  with sp bp sn3 show ?thesis by blast
qed

subsection \<open>insert keeps the invariant\<close>

lemma SkipList_insert_spec:
  fixes sl :: SkipList and sc :: number and mb :: string
  assumes inv: "sl_inv sl as" and sc: "sc \<noteq> NaN"
    and fresh: "(sc, mb) \<notin> nodeKey (heap sl) ` set as"
  defines "front \<equiv> takeWhile (\<lambda>a. keyLess (nodeKey (heap sl) a) (sc, mb)) as"
  defines "behind \<equiv> dropWhile (\<lambda>a. keyLess (nodeKey (heap sl) a) (sc, mb)) as"
  shows "\<exists>sl' rnd'. SkipList_insert sl sc mb rnd = Some (length (heap sl), sl', rnd') \<and>
           sl_inv sl' (front @ length (heap sl) # behind) \<and>
           (\<forall>a\<in>set as. nodeKey (heap sl') a = nodeKey (heap sl) a) \<and>
           nodeKey (heap sl') (length (heap sl)) = (sc, mb)"
proof -
  define h where "h = heap sl"
  define hdr where "hdr = header sl"
  define L where "L = level sl"
  define pre where "pre = hdr # front"
  define nw where "nw = length h"
  have as: "as = front @ behind" by (simp add: front_def behind_def)
  from inv have mL: "maxLevel sl = 32" and L1: "1 \<le> L" and L32: "L \<le> 32"
    and dist: "distinct (hdr # as)" and sh: "\<forall>a\<in>set (hdr # as). shaped h a"
    and nh: "nlevel (h ! hdr) = 32"
    and nodes: "\<forall>a\<in>set as. 1 \<le> nlevel (h ! a) \<and> nlevel (h ! a) \<le> L \<and> score (h ! a) \<noteq> NaN"
    and links: "\<forall>i<32. linksAt h i (i < L) (hdr # as)"
    and sorted: "sorted_wrt (\<lambda>a b. keyLess (nodeKey h a) (nodeKey h b)) as"
    and len: "slength sl = int (length as)"
    by (simp_all add: sl_inv_def h_def hdr_def L_def)
  have chain: "pre @ behind = hdr # as" by (simp add: pre_def as)
  have kf: "\<forall>y\<in>set front. keyLess (nodeKey h y) (sc, mb)"
    unfolding front_def h_def by (auto dest: set_takeWhileD)
  have kb: "\<forall>q\<in>set behind. \<not> keyLess (nodeKey h q) (sc, mb)"
    unfolding behind_def h_def[symmetric] by (rule sorted_split[OF sorted])
  have ltf: "\<forall>y\<in>set front. lessThanKey h y sc mb"
    using kf nodes sc as by (simp add: lessThanKey_iff)
  have geb: "\<forall>q\<in>set behind. \<not> lessThanKey h q sc mb"
    using kb nodes sc as by (simp add: lessThanKey_iff)
  have ls: "\<forall>i<L. linksAt h i True (pre @ behind)"
  proof (intro allI impI)
    fix i
    assume i: "i < L"
    then have "i < 32" using L32 by simp
    with links have "linksAt h i (i < L) (hdr # as)" by blast
    with i show "linksAt h i True (pre @ behind)" by (simp add: chain)
  qed
  have lt: "\<forall>y\<in>set (tl pre). lessThanKey h y sc mb" using ltf by (simp add: pre_def)
  have p0: "pre = [] @ hdr # front" by (simp add: pre_def)
  have c0: "if L = L then ([]::nat list) = [] else replicate 32 (0::int) ! L = int (length ([]::nat list))"
    by simp
  have "L \<le> nlevel (h ! hdr)" using nh L32 by simp
  from insertSearch_spec[OF ls lt geb _ _ _ p0 this c0, of "replicate 32 None"] L32
  obtain update0 rank0 where
    s0: "insertSearch L h L sc mb hdr (replicate 32 None) (replicate 32 0) = Some (update0, rank0)"
    and lu0: "length update0 = 32" "length rank0 = 32"
    and se0': "\<forall>j<L. \<exists>u p. update0 ! j = Some u \<and> rank0 ! j = int p \<and> isUpd h j pre u p"
    by auto
  have se0: "searched h L pre update0 rank0" using se0' by (simp add: searched_def)
  obtain newLevel rnd' where rl: "randomLevel 32 rnd = (newLevel, rnd')"
    by (cases "randomLevel 32 rnd")
  have nlb: "1 \<le> newLevel" "newLevel \<le> 32" using randomLevel_bounds[of 32 rnd] rl by simp_all
  define lvl where "lvl = max L newLevel"
  have shh: "shaped h hdr" using sh by simp
  have nfront: "\<forall>a\<in>set front. nlevel (h ! a) \<le> L" using nodes as by simp
  have "\<exists>h0 update rank.
          (if newLevel > L
           then (case raiseLevels [L..<newLevel] sl update0 rank0 of (h, u, r) \<Rightarrow> (h, u, r, newLevel))
           else (h, update0, rank0, L)) = (h0, update, rank, lvl) \<and>
          sameNodes h h0 \<and> (\<forall>x j. fwd h0 x j = fwd h x j) \<and>
          (\<forall>x j. spans (h0 ! x) ! j =
             (if x = hdr \<and> L \<le> j \<and> j < newLevel then slength sl else spans (h ! x) ! j)) \<and>
          searched h lvl pre update rank \<and> rank ! 0 = rank0 ! 0"
  proof (cases "newLevel > L")
    case False
    then have "lvl = L" by (simp add: lvl_def)
    then show ?thesis using False se0 by auto
  next
    case True
    obtain h0 update rank where r: "raiseLevels [L..<newLevel] sl update0 rank0 = (h0, update, rank)"
      by (cases "raiseLevels [L..<newLevel] sl update0 rank0")
    have lv: "lvl = newLevel" using True by (simp add: lvl_def)
    note rs = raised_levels[OF r shh[unfolded h_def hdr_def] nh[unfolded h_def hdr_def] nlb(2) lu0
        nfront[unfolded h_def] se0[unfolded h_def hdr_def pre_def], folded h_def hdr_def pre_def]
    have "rank ! 0 = rank0 ! 0" using rs(5) L1 by simp
    then show ?thesis using True r rs(1-4) lv by (simp add: lvl_def pre_def)
  qed
  then obtain h0 update rank where
    E: "(if newLevel > L
           then (case raiseLevels [L..<newLevel] sl update0 rank0 of (h, u, r) \<Rightarrow> (h, u, r, newLevel))
           else (h, update0, rank0, L)) = (h0, update, rank, lvl)"
    and sn0: "sameNodes h h0" and F0: "\<forall>x j. fwd h0 x j = fwd h x j"
    and S0: "\<forall>x j. spans (h0 ! x) ! j =
             (if x = hdr \<and> L \<le> j \<and> j < newLevel then slength sl else spans (h ! x) ! j)"
    and se: "searched h lvl pre update rank" and r00: "rank ! 0 = rank0 ! 0"
    by blast
  have lvb: "newLevel \<le> lvl" "lvl \<le> 32" "L \<le> lvl" "1 \<le> lvl"
    using nlb L32 L1 by (simp_all add: lvl_def)
  have nl0: "\<And>a. nlevel (h0 ! a) = nlevel (h ! a)" using sn0 by (simp add: sameNodes_def)
  have l0: "\<forall>j<32. linksAt h0 j (j < lvl) (pre @ behind)"
  proof (intro allI impI)
    fix j :: nat
    assume j: "j < 32"
    with links have lj: "linksAt h j (j < L) (hdr # as)" by blast
    consider "j < L" | "L \<le> j" "j < newLevel" | "L \<le> j" "newLevel \<le> j" by linarith
    then show "linksAt h0 j (j < lvl) (pre @ behind)"
    proof cases
      case 1
      have "\<forall>x\<in>set (hdr # as). fwd h0 x j = fwd h x j \<and> spans (h0 ! x) ! j = spans (h ! x) ! j"
        using F0 S0 1 by simp
      then have "linksAt h0 j (j < L) (hdr # as) = linksAt h j (j < L) (hdr # as)"
        by (rule linksAt_cong[OF sn0])
      with lj have "linksAt h0 j (j < L) (hdr # as)" by blast
      moreover have "(j < L) = (j < lvl)" using 1 lvb by simp
      ultimately show ?thesis unfolding chain by (simp only:)
    next
      case 2
      have lowas: "\<forall>a\<in>set as. low h0 j a" using nodes 2 nl0 by (auto simp: low_def)
      then have la: "list_all (low h0 j) as" by (simp add: list_all_iff)
      have "fwd h hdr j = nextAt h j as" using lj nh j by simp
      then have f: "fwd h0 hdr j = nextAt h0 j as" using F0 nextAt_sameNodes[OF sn0] by simp
      have s: "spans (h0 ! hdr) ! j = int (distAt h0 j as)"
        using S0 2 len la by (simp add: distAt_def)
      have "linksAt h0 j True as" using lowas by (rule linksAt_all_low)
      with f s have "linksAt h0 j True (hdr # as)" by simp
      then show ?thesis using 2 lvb by (simp add: chain lvl_def)
    next
      case 3
      have "\<forall>x\<in>set (hdr # as). fwd h0 x j = fwd h x j \<and> spans (h0 ! x) ! j = spans (h ! x) ! j"
        using F0 S0 3 by simp
      then have "linksAt h0 j (j < L) (hdr # as) = linksAt h j (j < L) (hdr # as)"
        by (rule linksAt_cong[OF sn0])
      with lj have "linksAt h0 j (j < L) (hdr # as)" by blast
      moreover have "(j < L) = (j < lvl)" using 3 by (simp add: lvl_def)
      ultimately show ?thesis unfolding chain by (simp only:)
    qed
  qed
  have dist1: "distinct (pre @ behind)" using dist by (simp add: chain)
  have sh0: "\<forall>a\<in>set (pre @ behind). shaped h0 a"
    using sh shaped_sameNodes[OF sn0] by (simp add: chain)
  have se0h: "searched h0 lvl pre update rank" using se searched_sameNodes[OF sn0] by simp
  have lenh0: "length h0 = length h" using sn0 by (simp add: sameNodes_def)
  have u0: "\<exists>u p. update ! 0 = Some u \<and> rank ! 0 = int p \<and> isUpd h 0 pre u p"
    using se lvb by (simp add: searched_def)
  then obtain u0 p0 where u0: "update ! 0 = Some u0" "rank ! 0 = int p0" "isUpd h 0 pre u0 p0"
    by blast
  have "\<forall>y\<in>set (tl pre). 1 \<le> nlevel (h ! y)" using nodes as by (simp add: pre_def)
  from isUpd_level0[OF u0(3) this] u0(2) have r0: "rank ! 0 = int (length pre) - 1" by simp
  from insert_links[OF dist1 sh0 l0 se0h r0 lvb(1,2), of sc mb]
  obtain h2 h3 where
    sp: "spliceLevels [0..<newLevel] (length h0) update rank (h0 @ [new_SkipListNode sc mb newLevel]) = Some h2"
    and bp: "bumpSpans [newLevel..<lvl] update h2 = Some h3"
    and sn3: "sameNodes (h0 @ [new_SkipListNode sc mb newLevel]) h3"
    and l3: "\<forall>j<32. linksAt h3 j (j < lvl) (pre @ length h0 # behind)"
    by blast
  have s0': "insertSearch (level sl) (heap sl) (level sl) sc mb (header sl)
             (replicate (maxLevel sl) None) (replicate (maxLevel sl) 0) = Some (update0, rank0)"
    using s0 by (simp add: L_def h_def hdr_def mL)
  have rl': "randomLevel (maxLevel sl) rnd = (newLevel, rnd')" using rl by (simp add: mL)
  have E': "(if newLevel > level sl
          then (case raiseLevels [level sl..<newLevel] sl update0 rank0 of
                  (h, u, r) \<Rightarrow> (h, u, r, newLevel))
          else (heap sl, update0, rank0, level sl)) = (h0, update, rank, lvl)"
    using E unfolding L_def h_def by simp
  from SkipList_insert_eval[OF s0' rl' E' sp bp u0(1)]
  obtain sl' where ins: "SkipList_insert sl sc mb rnd = Some (length h0, sl', rnd')"
    and f': "level sl' = lvl" "slength sl' = slength sl + 1" "header sl' = header sl"
      "maxLevel sl' = maxLevel sl"
    and snf: "sameNodes h3 (heap sl')"
    and Ff: "\<forall>x j. fwd (heap sl') x j = fwd h3 x j"
    and Sf: "\<forall>x. spans (heap sl' ! x) = spans (h3 ! x)"
    by blast
  define hf where "hf = heap sl'"
  define h1 where "h1 = h0 @ [new_SkipListNode sc mb newLevel]"
  have sn1f: "sameNodes h1 hf" unfolding hf_def h1_def using sn3 snf by (rule sameNodes_trans)
  have old: "\<And>a. a \<in> set (hdr # as) \<Longrightarrow> a < length h \<and> h1 ! a = h0 ! a"
    using sh lenh0 by (auto simp: shaped_def h1_def nth_append)
  have nw0: "nw = length h0" by (simp add: nw_def lenh0)
  have nwn: "h1 ! nw = new_SkipListNode sc mb newLevel" by (simp add: h1_def nw0)
  have keyold: "\<And>a. a \<in> set (hdr # as) \<Longrightarrow> nodeKey hf a = nodeKey h a"
    using old sn1f sn0 by (simp add: nodeKey_def sameNodes_def)
  have keynw: "nodeKey hf nw = (sc, mb)"
    using nwn sn1f by (simp add: nodeKey_def sameNodes_def new_SkipListNode_def)
  have lvold: "\<And>a. a \<in> set (hdr # as) \<Longrightarrow> nlevel (hf ! a) = nlevel (h ! a)"
    using old sn1f sn0 by (simp add: sameNodes_def)
  have lvnw: "nlevel (hf ! nw) = newLevel"
    using nwn sn1f by (simp add: sameNodes_def new_SkipListNode_def)
  have shold: "\<And>a. a \<in> set (hdr # as) \<Longrightarrow> shaped hf a"
  proof -
    fix a
    assume a: "a \<in> set (hdr # as)"
    with sh have "shaped h a" by blast
    then have "shaped h0 a" using shaped_sameNodes[OF sn0] by simp
    then have "shaped h1 a" using old[OF a] by (simp add: shaped_def h1_def)
    then show "shaped hf a" using shaped_sameNodes[OF sn1f] by simp
  qed
  have "shaped h1 nw" by (simp add: shaped_def nwn new_SkipListNode_def) (simp add: h1_def nw0)
  then have shnw: "shaped hf nw" using shaped_sameNodes[OF sn1f] by simp
  have nwfresh: "nw \<notin> set (hdr # as)" using old by (auto simp: nw_def)
  have lf: "\<forall>j<32. linksAt hf j (j < lvl) (pre @ nw # behind)"
  proof (intro allI impI)
    fix j :: nat
    assume "j < 32"
    with l3 have "linksAt h3 j (j < lvl) (pre @ nw # behind)" by (simp add: nw_def lenh0)
    moreover have "linksAt hf j (j < lvl) (pre @ nw # behind) = linksAt h3 j (j < lvl) (pre @ nw # behind)"
      unfolding hf_def by (rule linksAt_cong[OF snf]) (simp add: Ff Sf)
    ultimately show "linksAt hf j (j < lvl) (pre @ nw # behind)" by simp
  qed
  let ?R = "\<lambda>a b. keyLess (nodeKey hf a) (nodeKey hf b)"
  have sortf: "sorted_wrt ?R (front @ nw # behind)"
  proof -
    have so: "sorted_wrt ?R as"
      using sorted keyold by (intro sorted_wrt_mono_rel[OF _ sorted]) simp
    then have "sorted_wrt ?R front" "sorted_wrt ?R behind"
      and fb: "\<forall>x\<in>set front. \<forall>y\<in>set behind. ?R x y"
      unfolding as by (simp_all add: sorted_wrt_append)
    moreover have "\<forall>x\<in>set front. ?R x nw" using kf keyold keynw as by simp
    moreover have "\<forall>y\<in>set behind. ?R nw y"
    proof
      fix y
      assume y: "y \<in> set behind"
      then have ya: "y \<in> set as" using as by simp
      have "\<not> keyLess (nodeKey h y) (sc, mb)" using kb y by blast
      moreover have "nodeKey h y \<noteq> (sc, mb)" using fresh ya unfolding h_def by (metis imageI)
      moreover have "fst (nodeKey h y) \<noteq> NaN" using nodes ya by (simp add: nodeKey_def)
      ultimately have "keyLess (sc, mb) (nodeKey h y)"
        using keyLess_total[of "nodeKey h y" "(sc, mb)"] sc by auto
      then show "?R nw y" using keyold ya keynw by simp
    qed
    ultimately show ?thesis by (simp add: sorted_wrt_append)
  qed
  have "sl_inv sl' (front @ nw # behind)"
    unfolding sl_inv_def hf_def[symmetric] f' mL
  proof (intro conjI)
    show "(32::nat) = 32" by simp
    show "1 \<le> lvl" by (rule lvb(4))
    show "lvl \<le> 32" by (rule lvb(2))
    show "distinct (header sl # front @ nw # behind)"
      using dist nwfresh by (simp add: as hdr_def)
    show "\<forall>a\<in>set (header sl # front @ nw # behind). shaped hf a"
      using shold shnw by (auto simp: as hdr_def)
    show "nlevel (hf ! header sl) = 32" using lvold[of hdr] nh by (simp add: hdr_def)
    show "\<forall>a\<in>set (front @ nw # behind).
            1 \<le> nlevel (hf ! a) \<and> nlevel (hf ! a) \<le> lvl \<and> score (hf ! a) \<noteq> NaN"
    proof
      fix a
      assume "a \<in> set (front @ nw # behind)"
      then consider "a = nw" | "a \<in> set as" by (auto simp: as)
      then show "1 \<le> nlevel (hf ! a) \<and> nlevel (hf ! a) \<le> lvl \<and> score (hf ! a) \<noteq> NaN"
      proof cases
        case 1
        then show ?thesis using lvnw nlb lvb keynw sc by (simp add: nodeKey_def)
      next
        case 2
        then have "nlevel (hf ! a) = nlevel (h ! a)" "score (hf ! a) = score (h ! a)"
          using lvold[of a] keyold[of a] by (simp_all add: nodeKey_def)
        then show ?thesis using nodes 2 lvb by auto
      qed
    qed
    show "\<forall>i<32. linksAt hf i (i < lvl) (header sl # front @ nw # behind)"
      using lf by (simp add: pre_def hdr_def)
    show "sorted_wrt ?R (front @ nw # behind)" by (rule sortf)
    show "slength sl + 1 = int (length (front @ nw # behind))" using len by (simp add: as)
  qed
  moreover have "\<forall>a\<in>set as. nodeKey (heap sl') a = nodeKey (heap sl) a"
    using keyold by (simp add: hf_def h_def)
  moreover have "nodeKey (heap sl') (length (heap sl)) = (sc, mb)"
    using keynw by (simp add: hf_def nw_def h_def)
  ultimately show ?thesis using ins lenh0 by (auto simp: nw_def h_def)
qed

subsection \<open>The loops of delete\<close>

lemma distAt_Cons_low: "low h i x \<Longrightarrow> distAt h i (x # r) = Suc (distAt h i r)"
  by (simp add: distAt_def)

lemma nextAt_Cons_low: "low h i x \<Longrightarrow> nextAt h i (x # r) = nextAt h i r"
  by (simp add: nextAt_def)

lemma linksAt_True: "linksAt h i True xs \<Longrightarrow> linksAt h i sp xs"
  by (induction xs) auto

text \<open>One pass of the unlink loop of \<^verbatim>\<open>delete\<close> for the victim \<open>x\<close>, the node after \<open>pre\<close>.\<close>

lemma unlink_step:
  assumes dist: "distinct (pre @ x # behind)"
    and sh: "\<forall>a\<in>set (pre @ x # behind). shaped h a"
    and old: "linksAt h i True (pre @ x # behind)"
    and upd: "isUpd h i pre u p"
  defines "h1 \<equiv> (if fwd h u i = Some x
                  then setForward (setSpan h u i (spans (h ! u) ! i + (spans (h ! x) ! i - 1))) u i (fwd h x i)
                  else setSpan h u i (spans (h ! u) ! i - 1))"
  shows "linksAt h1 i True (pre @ behind)" and "sameNodes h h1"
    and "\<forall>y j. j \<noteq> i \<longrightarrow> fwd h1 y j = fwd h y j \<and> spans (h1 ! y) ! j = spans (h ! y) ! j"
proof -
  from upd obtain ys1 ys2 where pre: "pre = ys1 @ u # ys2" and p: "p = length ys1"
    and iu: "i < nlevel (h ! u)" and lo: "\<forall>y\<in>set ys2. low h i y"
    by (auto simp: isUpd_def)
  have ux: "u \<noteq> x" using dist pre by auto
  have su: "shaped h u" using sh pre by simp
  have cu: "u < length h \<and> i < length (spans (h ! u)) \<and> i < length (forward (h ! u))"
    using su iu by (simp add: shaped_def)
  have oldu: "linksAt h i True (u # ys2 @ x # behind)"
    using old linksAt_append[of h i True ys1 "u # ys2 @ x # behind"] unfolding pre by simp
  then have fu: "fwd h u i = nextAt h i (x # behind)"
    and spu: "spans (h ! u) ! i = int (length ys2 + distAt h i (x # behind))"
    using iu lo by (simp_all add: nextAt_all_low distAt_all_low)
  have oldx: "linksAt h i True (x # behind)"
    using old linksAt_append[of h i True pre "x # behind"] by simp
  then have oldb: "linksAt h i True behind" by simp
  have xb: "x \<notin> set behind" using dist by simp
  have cond: "(fwd h u i = Some x) = (\<not> low h i x)"
  proof (cases "low h i x")
    case True
    then have "fwd h u i = nextAt h i behind" using fu by (simp add: nextAt_Cons_low)
    then have "fwd h u i \<noteq> Some x" using xb nextAt_mem[of h i behind x] by auto
    with True show ?thesis by simp
  next
    case False
    then show ?thesis using fu by (simp add: nextAt_Cons_high)
  qed
  have sn: "sameNodes h h1"
  proof (cases "fwd h u i = Some x")
    case True
    have "sameNodes h (setSpan h u i (spans (h ! u) ! i + (spans (h ! x) ! i - 1)))" by simp
    moreover have "sameNodes (setSpan h u i (spans (h ! u) ! i + (spans (h ! x) ! i - 1)))
       (setForward (setSpan h u i (spans (h ! u) ! i + (spans (h ! x) ! i - 1))) u i (fwd h x i))"
      by simp
    ultimately have "sameNodes h
       (setForward (setSpan h u i (spans (h ! u) ! i + (spans (h ! x) ! i - 1))) u i (fwd h x i))"
      by (rule sameNodes_trans)
    then show ?thesis unfolding h1_def using True by simp
  next
    case False
    then show ?thesis unfolding h1_def by simp
  qed
  show "sameNodes h h1" by (rule sn)
  have newF: "fwd h1 u i = nextAt h i behind"
  proof (cases "low h i x")
    case True
    then have "fwd h1 u i = fwd h u i" using cond by (simp add: h1_def)
    then show ?thesis using fu True by (simp add: nextAt_Cons_low)
  next
    case False
    then have ix: "i < nlevel (h ! x)" by (simp add: low_def)
    have "length (forward (setSpan h u i (spans (h ! u) ! i + (spans (h ! x) ! i - 1)) ! u)) =
          length (forward (h ! u))"
      using sameNodes_setSpan[of h u i] by (simp add: sameNodes_def)
    then have "fwd h1 u i = fwd h x i"
      using False cond cu by (simp add: h1_def fwd_setForward setSpan_def)
    then show ?thesis using oldx ix by simp
  qed
  have newS: "spans (h1 ! u) ! i = int (length ys2 + distAt h i behind)"
  proof (cases "low h i x")
    case True
    then have "spans (h1 ! u) ! i = spans (h ! u) ! i - 1"
      using cond cu by (simp add: h1_def spans_setSpan)
    then show ?thesis using spu True by (simp add: distAt_Cons_low)
  next
    case False
    then have ix: "i < nlevel (h ! x)" by (simp add: low_def)
    have "spans (h1 ! u) ! i = spans (h ! u) ! i + (spans (h ! x) ! i - 1)"
      using False cond cu by (simp add: h1_def spans_setSpan)
    moreover have "spans (h ! x) ! i = int (distAt h i behind)" using oldx ix by simp
    ultimately show ?thesis using spu False by (simp add: distAt_Cons_high)
  qed
  have oth: "\<And>y j. y \<noteq> u \<or> j \<noteq> i \<Longrightarrow> fwd h1 y j = fwd h y j \<and> spans (h1 ! y) ! j = spans (h ! y) ! j"
    by (auto simp: h1_def fwd_setForward spans_setSpan)
  show "\<forall>y j. j \<noteq> i \<longrightarrow> fwd h1 y j = fwd h y j \<and> spans (h1 ! y) ! j = spans (h ! y) ! j"
    using oth by simp
  have lw: "low h1 i = low h i" by (rule low_sameNodes[OF sn])
  have nx: "\<And>r. nextAt h1 i r = nextAt h i r" by (rule nextAt_sameNodes[OF sn])
  have ds: "\<And>r. distAt h1 i r = distAt h i r" by (rule distAt_sameNodes[OF sn])
  have nl: "\<And>a. nlevel (h1 ! a) = nlevel (h ! a)" using sn by (simp add: sameNodes_def)
  have nb: "\<forall>y\<in>set behind. y \<noteq> u" using dist pre by auto
  have A: "linksAt h1 i True behind"
    using oldb linksAt_cong[OF sn, of behind i True] nb oth by simp
  have C: "linksAt h1 i True (ys2 @ behind)"
    using A lo by (simp add: linksAt_low_prefix lw)
  have D: "linksAt h1 i True (u # ys2 @ behind)"
    using C newF newS lo by (simp add: nx ds nl nextAt_all_low distAt_all_low)
  have n1: "\<forall>y\<in>set ys1. y \<noteq> u" using dist pre by auto
  have hu: "\<not> low h i u" using iu by (simp add: low_def)
  have "linksAt h1 i True (ys1 @ u # ys2 @ behind)"
    using linksAt_prefix_change[OF sn hu _ _ D, of ys1 "ys2 @ x # behind"] old n1 oth
    unfolding pre by simp
  then show "linksAt h1 i True (pre @ behind)" unfolding pre by simp
qed

lemma unlinkLevels_spec:
  assumes dist: "distinct (pre @ x # behind)"
    and sh: "\<forall>a\<in>set (pre @ x # behind). shaped h0 a"
    and se: "searched h0 n pre update rank"
    and "k \<le> n" and "sameNodes h0 h"
    and "\<forall>j. k \<le> j \<and> j < n \<longrightarrow> linksAt h j True (pre @ x # behind)"
  shows "\<exists>h'. unlinkLevels [k..<n] x update h = Some h' \<and> sameNodes h0 h' \<and>
           (\<forall>j. k \<le> j \<and> j < n \<longrightarrow> linksAt h' j True (pre @ behind)) \<and>
           (\<forall>y j. j < k \<or> n \<le> j \<longrightarrow> fwd h' y j = fwd h y j \<and> spans (h' ! y) ! j = spans (h ! y) ! j)"
  using assms(4-)
proof (induction "n - k" arbitrary: k h)
  case 0
  then have "n \<le> k" by simp
  then show ?case using "0.prems"(2) by auto
next
  case (Suc m)
  then have kn: "k < n" by simp
  then have up: "[k..<n] = k # [Suc k..<n]" by (simp add: upt_conv_Cons)
  note sn = Suc.prems(2)
  from se kn obtain u p where u: "update ! k = Some u" "rank ! k = int p" "isUpd h0 k pre u p"
    by (auto simp: searched_def)
  have iu: "isUpd h k pre u p" using u(3) isUpd_sameNodes[OF sn] by simp
  have sh': "\<forall>a\<in>set (pre @ x # behind). shaped h a" using sh shaped_sameNodes[OF sn] by simp
  have old: "linksAt h k True (pre @ x # behind)" using Suc.prems(3) kn by simp
  define h1 where "h1 = (if fwd h u k = Some x
                  then setForward (setSpan h u k (spans (h ! u) ! k + (spans (h ! x) ! k - 1))) u k (fwd h x k)
                  else setSpan h u k (spans (h ! u) ! k - 1))"
  have st: "linksAt h1 k True (pre @ behind)" "sameNodes h h1"
    "\<forall>y j. j \<noteq> k \<longrightarrow> fwd h1 y j = fwd h y j \<and> spans (h1 ! y) ! j = spans (h ! y) ! j"
    unfolding h1_def
    by (rule unlink_step[OF dist sh' old iu])+
  have step: "unlinkLevels [k..<n] x update h = unlinkLevels [Suc k..<n] x update h1"
    unfolding up by (cases "fwd h u k = Some x") (simp_all add: u(1) h1_def)
  have sn1: "sameNodes h0 h1" using sn st(2) by (rule sameNodes_trans)
  have l1: "\<forall>j. Suc k \<le> j \<and> j < n \<longrightarrow> linksAt h1 j True (pre @ x # behind)"
  proof (intro allI impI)
    fix j
    assume j: "Suc k \<le> j \<and> j < n"
    then have "j \<noteq> k" by simp
    with st(3) have "\<forall>y\<in>set (pre @ x # behind). fwd h1 y j = fwd h y j \<and> spans (h1 ! y) ! j = spans (h ! y) ! j"
      by simp
    then have e: "linksAt h1 j True (pre @ x # behind) = linksAt h j True (pre @ x # behind)"
      by (rule linksAt_cong[OF st(2)])
    from j have "k \<le> j \<and> j < n" by simp
    with Suc.prems(3) have "linksAt h j True (pre @ x # behind)" by blast
    with e show "linksAt h1 j True (pre @ x # behind)" by simp
  qed
  have m: "m = n - Suc k" using Suc.hyps(2) by simp
  from Suc.hyps(1)[OF m _ sn1 l1] kn
  obtain h' where r: "unlinkLevels [Suc k..<n] x update h1 = Some h'" and sn': "sameNodes h0 h'"
    and l': "\<forall>j. Suc k \<le> j \<and> j < n \<longrightarrow> linksAt h' j True (pre @ behind)"
    and fr: "\<forall>y j. j < Suc k \<or> n \<le> j \<longrightarrow> fwd h' y j = fwd h1 y j \<and> spans (h' ! y) ! j = spans (h1 ! y) ! j"
    by auto
  have s1': "sameNodes h1 h'" using sameNodes_sym[OF sn1] sn' by (rule sameNodes_trans)
  have "\<forall>y\<in>set (pre @ behind). fwd h' y k = fwd h1 y k \<and> spans (h' ! y) ! k = spans (h1 ! y) ! k"
    using fr by simp
  then have "linksAt h' k True (pre @ behind) = linksAt h1 k True (pre @ behind)"
    by (rule linksAt_cong[OF s1'])
  with st(1) have lk: "linksAt h' k True (pre @ behind)" by blast
  have "\<forall>j. k \<le> j \<and> j < n \<longrightarrow> linksAt h' j True (pre @ behind)"
  proof (intro allI impI)
    fix j
    assume "k \<le> j \<and> j < n"
    then consider "j = k" | "Suc k \<le> j \<and> j < n" by linarith
    then show "linksAt h' j True (pre @ behind)" using lk l' by cases simp_all
  qed
  moreover have "\<forall>y j. j < k \<or> n \<le> j \<longrightarrow>
      fwd h' y j = fwd h y j \<and> spans (h' ! y) ! j = spans (h ! y) ! j"
    using fr st(3) kn by auto
  ultimately show ?case using step r sn' by simp
qed

lemma trimLevel_spec:
  "1 \<le> lvl \<Longrightarrow>
   1 \<le> trimLevel h hdr lvl \<and> trimLevel h hdr lvl \<le> lvl \<and>
   (\<forall>j. trimLevel h hdr lvl \<le> j \<and> j < lvl \<longrightarrow> fwd h hdr j = None)"
proof (induction h hdr lvl rule: trimLevel.induct)
  case (1 h hdr lvl)
  show ?case
  proof (cases "lvl > 1 \<and> fwd h hdr (lvl - 1) = None")
    case True
    then have e: "trimLevel h hdr lvl = trimLevel h hdr (lvl - 1)"
      by (subst trimLevel.simps) simp
    have "1 \<le> lvl - 1" using True by auto
    from 1(1)[OF True this]
    have ih: "1 \<le> trimLevel h hdr (lvl - 1)" "trimLevel h hdr (lvl - 1) \<le> lvl - 1"
      "\<forall>j. trimLevel h hdr (lvl - 1) \<le> j \<and> j < lvl - 1 \<longrightarrow> fwd h hdr j = None"
      by simp_all
    have "\<forall>j. trimLevel h hdr (lvl - 1) \<le> j \<and> j < lvl \<longrightarrow> fwd h hdr j = None"
    proof (intro allI impI)
      fix j
      assume j: "trimLevel h hdr (lvl - 1) \<le> j \<and> j < lvl"
      then consider "j < lvl - 1" | "j = lvl - 1" by linarith
      then show "fwd h hdr j = None" using ih(3) j True by cases simp_all
    qed
    with ih show ?thesis unfolding e by simp
  next
    case False
    then have "trimLevel h hdr lvl = lvl" by (subst trimLevel.simps) auto
    then show ?thesis using 1(2) by auto
  qed
qed

subsection \<open>delete keeps the invariant\<close>

lemma SkipList_delete_eval:
  assumes "deleteSearch (level sl) (heap sl) sc mb (header sl) (replicate (maxLevel sl) None) = Some update"
    and "update ! 0 = Some u0" and "fwd (heap sl) u0 0 = Some x"
    and "num_eq (score (heap sl ! x)) sc" and "member (heap sl ! x) = mb"
    and "unlinkLevels [0..<level sl] x update (heap sl) = Some h1"
  shows "\<exists>sl'. SkipList_delete sl sc mb = Some (True, sl') \<and> slength sl' = slength sl - 1 \<and>
           header sl' = header sl \<and> maxLevel sl' = maxLevel sl \<and> sameNodes h1 (heap sl') \<and>
           (\<forall>y j. fwd (heap sl') y j = fwd h1 y j) \<and> (\<forall>y. spans (heap sl' ! y) = spans (h1 ! y)) \<and>
           level sl' = trimLevel (heap sl') (header sl) (level sl)"
proof (cases "fwd h1 x 0")
  case None
  define sl1 where "sl1 = sl\<lparr>tail := backward (h1 ! x), heap := h1\<rparr>"
  have "SkipList_delete sl sc mb =
          Some (True, sl1\<lparr>level := trimLevel (heap sl1) (header sl1) (level sl1),
                           slength := slength sl1 - 1\<rparr>)"
    unfolding SkipList_delete_def assms(1) option.case assms(2) assms(3) Let_def
    using assms(4,5,6) None by (simp add: sl1_def)
  then show ?thesis by (simp add: sl1_def)
next
  case (Some nx)
  define sl1 where "sl1 = sl\<lparr>heap := setBackward h1 nx (backward (h1 ! x))\<rparr>"
  have "SkipList_delete sl sc mb =
          Some (True, sl1\<lparr>level := trimLevel (heap sl1) (header sl1) (level sl1),
                           slength := slength sl1 - 1\<rparr>)"
    unfolding SkipList_delete_def assms(1) option.case assms(2) assms(3) Let_def
    using assms(4,5,6) Some by (simp add: sl1_def)
  then show ?thesis by (simp add: sl1_def)
qed

lemma nextAt_level0:
  "\<forall>a\<in>set xs. 1 \<le> nlevel (h ! a) \<Longrightarrow> nextAt h 0 xs = (case xs of [] \<Rightarrow> None | f # _ \<Rightarrow> Some f)"
  by (cases xs) (simp_all add: nextAt_def low_def)

text \<open>The search of \<^verbatim>\<open>delete\<close> for a key: the candidate is the first node not below the key.\<close>

lemma delete_search:
  fixes sl :: SkipList and sc :: number and mb :: string
  assumes inv: "sl_inv sl as" and sc: "sc \<noteq> NaN"
  defines "front \<equiv> takeWhile (\<lambda>a. keyLess (nodeKey (heap sl) a) (sc, mb)) as"
  defines "behind \<equiv> dropWhile (\<lambda>a. keyLess (nodeKey (heap sl) a) (sc, mb)) as"
  shows "\<exists>update rank u0.
           deleteSearch (level sl) (heap sl) sc mb (header sl) (replicate (maxLevel sl) None) = Some update \<and>
           searched (heap sl) (level sl) (header sl # front) update rank \<and>
           update ! 0 = Some u0 \<and>
           fwd (heap sl) u0 0 = (case behind of [] \<Rightarrow> None | f # _ \<Rightarrow> Some f)"
proof -
  define h where "h = heap sl"
  define hdr where "hdr = header sl"
  define L where "L = level sl"
  define pre where "pre = hdr # front"
  have as: "as = front @ behind" by (simp add: front_def behind_def)
  from inv have mL: "maxLevel sl = 32" and L1: "1 \<le> L" and L32: "L \<le> 32"
    and nh: "nlevel (h ! hdr) = 32"
    and nodes: "\<forall>a\<in>set as. 1 \<le> nlevel (h ! a) \<and> nlevel (h ! a) \<le> L \<and> score (h ! a) \<noteq> NaN"
    and links: "\<forall>i<32. linksAt h i (i < L) (hdr # as)"
    and sorted: "sorted_wrt (\<lambda>a b. keyLess (nodeKey h a) (nodeKey h b)) as"
    by (simp_all add: sl_inv_def h_def hdr_def L_def)
  have chain: "pre @ behind = hdr # as" by (simp add: pre_def as)
  have kf: "\<forall>y\<in>set front. keyLess (nodeKey h y) (sc, mb)"
    unfolding front_def h_def by (auto dest: set_takeWhileD)
  have kb: "\<forall>q\<in>set behind. \<not> keyLess (nodeKey h q) (sc, mb)"
    unfolding behind_def h_def[symmetric] by (rule sorted_split[OF sorted])
  have ltf: "\<forall>y\<in>set front. lessThanKey h y sc mb"
    using kf nodes sc as by (simp add: lessThanKey_iff)
  have geb: "\<forall>q\<in>set behind. \<not> lessThanKey h q sc mb"
    using kb nodes sc as by (simp add: lessThanKey_iff)
  have ls: "\<forall>i<L. linksAt h i True (pre @ behind)"
  proof (intro allI impI)
    fix i
    assume i: "i < L"
    then have "i < 32" using L32 by simp
    with links have "linksAt h i (i < L) (hdr # as)" by blast
    with i show "linksAt h i True (pre @ behind)" by (simp add: chain)
  qed
  have lt: "\<forall>y\<in>set (tl pre). lessThanKey h y sc mb" using ltf by (simp add: pre_def)
  have p0: "pre = [] @ hdr # front" by (simp add: pre_def)
  have c0: "if L = L then ([]::nat list) = [] else replicate 32 (0::int) ! L = int (length ([]::nat list))"
    by simp
  have "L \<le> nlevel (h ! hdr)" using nh L32 by simp
  from insertSearch_spec[OF ls lt geb _ _ _ p0 this c0, of "replicate 32 None"] L32
  obtain update rank where
    s0: "insertSearch L h L sc mb hdr (replicate 32 None) (replicate 32 0) = Some (update, rank)"
    and se0': "\<forall>j<L. \<exists>u p. update ! j = Some u \<and> rank ! j = int p \<and> isUpd h j pre u p"
    by auto
  have se: "searched h L pre update rank" using se0' by (simp add: searched_def)
  have ds: "deleteSearch L h sc mb hdr (replicate 32 None) = Some update"
    by (rule deleteSearch_insertSearch[OF s0])
  from se0' L1 obtain u0 p0 where u0: "update ! 0 = Some u0" "isUpd h 0 pre u0 p0" by auto
  from u0(2) obtain ys1 ys2 where pre: "pre = ys1 @ u0 # ys2" and lo: "\<forall>y\<in>set ys2. low h 0 y"
    and iu: "0 < nlevel (h ! u0)"
    by (auto simp: isUpd_def)
  have "set ys2 \<subseteq> set (tl pre)" unfolding pre by (cases ys1) auto
  then have "set ys2 \<subseteq> set as" using as by (auto simp: pre_def)
  with nodes lo have "ys2 = []" by (cases ys2) (auto simp: low_def)
  then have pre': "pre = ys1 @ [u0]" using pre by simp
  have "linksAt h 0 True (pre @ behind)" using ls L1 by simp
  then have "linksAt h 0 True (u0 # behind)"
    using linksAt_append[of h 0 True ys1 "u0 # behind"] unfolding pre' by simp
  then have "fwd h u0 0 = nextAt h 0 behind" using iu by simp
  moreover have "\<forall>a\<in>set behind. 1 \<le> nlevel (h ! a)" using nodes as by simp
  ultimately have f0: "fwd h u0 0 = (case behind of [] \<Rightarrow> None | f # _ \<Rightarrow> Some f)"
    by (simp add: nextAt_level0)
  show ?thesis
    using ds se u0(1) f0 unfolding h_def hdr_def L_def pre_def mL by blast
qed

lemma SkipList_delete_absent:
  fixes sl :: SkipList and sc :: number and mb :: string
  assumes inv: "sl_inv sl as" and sc: "sc \<noteq> NaN"
    and absent: "\<forall>a\<in>set as. nodeKey (heap sl) a \<noteq> (sc, mb)"
  shows "SkipList_delete sl sc mb = Some (False, sl)"
proof -
  define behind where "behind = dropWhile (\<lambda>a. keyLess (nodeKey (heap sl) a) (sc, mb)) as"
  from delete_search[OF inv sc, of mb, folded behind_def]
  obtain update rank u0 where
    ds: "deleteSearch (level sl) (heap sl) sc mb (header sl) (replicate (maxLevel sl) None) = Some update"
    and u0: "update ! 0 = Some u0"
    and f0: "fwd (heap sl) u0 0 = (case behind of [] \<Rightarrow> None | f # _ \<Rightarrow> Some f)"
    by blast
  show ?thesis
  proof (cases behind)
    case Nil
    then show ?thesis using ds u0 f0 by (simp add: SkipList_delete_def)
  next
    case (Cons f bs)
    then have "f \<in> set behind" by simp
    then have fa: "f \<in> set as" unfolding behind_def by (rule set_dropWhileD)
    from inv fa have "score (heap sl ! f) \<noteq> NaN" by (simp add: sl_inv_def)
    moreover have "nodeKey (heap sl) f \<noteq> (sc, mb)" using absent fa by blast
    ultimately have "\<not> num_eq (score (heap sl ! f)) sc \<or> member (heap sl ! f) \<noteq> mb"
      by (auto simp: nodeKey_def num_eq_iff)
    then show ?thesis using ds u0 f0 Cons by (auto simp: SkipList_delete_def)
  qed
qed

lemma SkipList_delete_present:
  fixes sl :: SkipList and sc :: number and mb :: string
  assumes inv: "sl_inv sl as" and sc: "sc \<noteq> NaN"
    and present: "\<exists>a\<in>set as. nodeKey (heap sl) a = (sc, mb)"
  defines "front \<equiv> takeWhile (\<lambda>a. keyLess (nodeKey (heap sl) a) (sc, mb)) as"
  defines "behind \<equiv> dropWhile (\<lambda>a. keyLess (nodeKey (heap sl) a) (sc, mb)) as"
  shows "\<exists>sl'. SkipList_delete sl sc mb = Some (True, sl') \<and> sl_inv sl' (front @ tl behind) \<and>
           behind \<noteq> [] \<and> nodeKey (heap sl) (hd behind) = (sc, mb) \<and>
           (\<forall>a\<in>set as. nodeKey (heap sl') a = nodeKey (heap sl) a)"
proof -
  define h where "h = heap sl"
  define hdr where "hdr = header sl"
  define L where "L = level sl"
  define pre where "pre = hdr # front"
  have as: "as = front @ behind" by (simp add: front_def behind_def)
  from inv have mL: "maxLevel sl = 32" and L1: "1 \<le> L" and L32: "L \<le> 32"
    and dist: "distinct (hdr # as)" and sh: "\<forall>a\<in>set (hdr # as). shaped h a"
    and nh: "nlevel (h ! hdr) = 32"
    and nodes: "\<forall>a\<in>set as. 1 \<le> nlevel (h ! a) \<and> nlevel (h ! a) \<le> L \<and> score (h ! a) \<noteq> NaN"
    and links: "\<forall>i<32. linksAt h i (i < L) (hdr # as)"
    and sorted: "sorted_wrt (\<lambda>a b. keyLess (nodeKey h a) (nodeKey h b)) as"
    and len: "slength sl = int (length as)"
    by (simp_all add: sl_inv_def h_def hdr_def L_def)
  have kf: "\<forall>y\<in>set front. keyLess (nodeKey h y) (sc, mb)"
    unfolding front_def h_def by (auto dest: set_takeWhileD)
  have kb: "\<forall>q\<in>set behind. \<not> keyLess (nodeKey h q) (sc, mb)"
    unfolding behind_def h_def[symmetric] by (rule sorted_split[OF sorted])
  from present obtain a where a: "a \<in> set as" "nodeKey h a = (sc, mb)" by (auto simp: h_def)
  have "a \<notin> set front" using kf a(2) keyLess_irrefl by force
  with a(1) as have ab: "a \<in> set behind" by simp
  then obtain x bs where bh: "behind = x # bs" by (cases behind) auto
  have sob: "sorted_wrt (\<lambda>a b. keyLess (nodeKey h a) (nodeKey h b)) (front @ x # bs)"
    using sorted as bh by simp
  have xa: "x = a"
  proof (rule ccontr)
    assume "x \<noteq> a"
    with ab bh have "a \<in> set bs" by simp
    with sob have "keyLess (nodeKey h x) (nodeKey h a)" by (simp add: sorted_wrt_append)
    with a(2) kb bh show False by simp
  qed
  have kx: "nodeKey h x = (sc, mb)" using xa a(2) by simp
  have chain: "pre @ x # bs = hdr # as" by (simp add: pre_def as bh)
  from delete_search[OF inv sc, of mb, folded behind_def front_def]
  obtain update rank u0 where
    ds: "deleteSearch (level sl) (heap sl) sc mb (header sl) (replicate (maxLevel sl) None) = Some update"
    and se: "searched h L pre update rank"
    and u0: "update ! 0 = Some u0"
    and f0: "fwd (heap sl) u0 0 = Some x"
    unfolding bh by (auto simp: h_def L_def pre_def hdr_def)
  have t1: "num_eq (score (heap sl ! x)) sc" and t2: "member (heap sl ! x) = mb"
    using kx sc by (simp_all add: nodeKey_def h_def num_eq_iff2)
  have dist1: "distinct (pre @ x # bs)" using dist by (simp add: chain)
  have sh1: "\<forall>a\<in>set (pre @ x # bs). shaped h a" using sh by (simp add: chain)
  have lT: "linksAt h j True (pre @ x # bs)" if "j < L" for j
  proof -
    from that L32 have "j < 32" by simp
    with links have "linksAt h j (j < L) (hdr # as)" by blast
    with that show ?thesis by (simp add: chain)
  qed
  have lF: "linksAt h j False (pre @ x # bs)" if "L \<le> j" "j < 32" for j
  proof -
    from links that(2) have "linksAt h j (j < L) (hdr # as)" by blast
    with that(1) show ?thesis by (simp add: chain)
  qed
  have lk: "\<forall>j. 0 \<le> j \<and> j < L \<longrightarrow> linksAt h j True (pre @ x # bs)" using lT by simp
  from unlinkLevels_spec[OF dist1 sh1 se _ sameNodes_refl lk]
  obtain h1 where ul: "unlinkLevels [0..<L] x update h = Some h1" and sn1: "sameNodes h h1"
    and l1: "\<forall>j. 0 \<le> j \<and> j < L \<longrightarrow> linksAt h1 j True (pre @ bs)"
    and f1: "\<forall>y j. j < 0 \<or> L \<le> j \<longrightarrow> fwd h1 y j = fwd h y j \<and> spans (h1 ! y) ! j = spans (h ! y) ! j"
    by auto
  have ul': "unlinkLevels [0..<level sl] x update (heap sl) = Some h1"
    using ul by (simp add: L_def h_def)
  from SkipList_delete_eval[OF ds u0 f0 t1 t2 ul']
  obtain sl' where del: "SkipList_delete sl sc mb = Some (True, sl')"
    and f': "slength sl' = slength sl - 1" "header sl' = header sl" "maxLevel sl' = maxLevel sl"
    and snf: "sameNodes h1 (heap sl')"
    and Ff: "\<forall>y j. fwd (heap sl') y j = fwd h1 y j"
    and Sf: "\<forall>y. spans (heap sl' ! y) = spans (h1 ! y)"
    and lv: "level sl' = trimLevel (heap sl') (header sl) (level sl)"
    by blast
  define hf where "hf = heap sl'"
  define L' where "L' = trimLevel hf hdr L"
  have snf': "sameNodes h hf" unfolding hf_def using sn1 snf by (rule sameNodes_trans)
  have same1: "linksAt hf j sp' xs = linksAt h1 j sp' xs" for j sp' xs
    unfolding hf_def by (rule linksAt_cong[OF snf]) (simp add: Ff Sf)
  have lfT: "linksAt hf j True (pre @ bs)" if "j < L" for j
    using l1 that same1 by simp
  have lfF: "linksAt hf j False (pre @ bs)" if "L \<le> j" "j < 32" for j
  proof -
    have "\<forall>y\<in>set (pre @ x # bs). fwd h1 y j = fwd h y j \<and> spans (h1 ! y) ! j = spans (h ! y) ! j"
      using f1 that(1) by simp
    then have "linksAt h1 j False (pre @ x # bs) = linksAt h j False (pre @ x # bs)"
      by (rule linksAt_cong[OF sn1])
    with lF[OF that] have "linksAt h1 j False (pre @ x # bs)" by simp
    then have a: "linksAt hf j False (pre @ x # bs)" using same1 by simp
    have "x \<in> set as" using as bh by simp
    with nodes have "nlevel (h ! x) \<le> L" by blast
    then have "low hf j x" using that(1) snf' by (simp add: low_def sameNodes_def)
    then show ?thesis using a by (rule linksAt_False_remove_low)
  qed
  have tr: "1 \<le> L'" "L' \<le> L" "\<forall>j. L' \<le> j \<and> j < L \<longrightarrow> fwd hf hdr j = None"
    using trimLevel_spec[OF L1, of hf hdr] by (simp_all add: L'_def)
  have nlf: "\<And>a. nlevel (hf ! a) = nlevel (h ! a)" using snf' by (simp add: sameNodes_def)
  have lvl': "\<forall>a\<in>set (front @ bs). nlevel (hf ! a) \<le> L'"
  proof (cases "L' < L")
    case False
    with tr have "L' = L" by simp
    then show ?thesis using nodes as bh nlf by auto
  next
    case True
    then have "fwd hf hdr L' = None" using tr(3) by simp
    moreover have "linksAt hf L' True (hdr # front @ bs)" using lfT[OF True] by (simp add: pre_def)
    moreover have "L' < nlevel (hf ! hdr)" using nlf nh True L32 by simp
    ultimately have "nextAt hf L' (front @ bs) = None" by simp
    then have "\<forall>y\<in>set (front @ bs). low hf L' y" by (rule nextAt_None)
    then show ?thesis by (simp add: low_def)
  qed
  have keyold: "\<And>a. nodeKey hf a = nodeKey h a"
    using snf' by (simp add: nodeKey_def sameNodes_def)
  let ?R = "\<lambda>a b. keyLess (nodeKey hf a) (nodeKey hf b)"
  have sortf: "sorted_wrt ?R (front @ bs)"
    using sob by (simp add: keyold sorted_wrt_append)
  have "sl_inv sl' (front @ bs)"
    unfolding sl_inv_def hf_def[symmetric] f' mL lv hdr_def[symmetric] L_def[symmetric] L'_def[symmetric]
  proof (intro conjI)
    show "(32::nat) = 32" by simp
    show "1 \<le> L'" by (rule tr(1))
    show "L' \<le> 32" using tr(2) L32 by simp
    show "distinct (hdr # front @ bs)" using dist by (simp add: as bh)
    show "\<forall>a\<in>set (hdr # front @ bs). shaped hf a"
      using sh shaped_sameNodes[OF snf'] by (simp add: as bh)
    show "nlevel (hf ! hdr) = 32" using nh nlf by simp
    show "\<forall>a\<in>set (front @ bs). 1 \<le> nlevel (hf ! a) \<and> nlevel (hf ! a) \<le> L' \<and> score (hf ! a) \<noteq> NaN"
    proof
      fix a
      assume a: "a \<in> set (front @ bs)"
      then have "a \<in> set as" by (auto simp: as bh)
      with nodes have "1 \<le> nlevel (h ! a)" "score (h ! a) \<noteq> NaN" by simp_all
      moreover have "score (hf ! a) = score (h ! a)" using snf' by (simp add: sameNodes_def)
      ultimately show "1 \<le> nlevel (hf ! a) \<and> nlevel (hf ! a) \<le> L' \<and> score (hf ! a) \<noteq> NaN"
        using lvl' a nlf by simp
    qed
    show "\<forall>i<32. linksAt hf i (i < L') (hdr # front @ bs)"
    proof (intro allI impI)
      fix i :: nat
      assume i: "i < 32"
      show "linksAt hf i (i < L') (hdr # front @ bs)"
      proof (cases "i < L")
        case True
        from lfT[OF True] have "linksAt hf i (i < L') (pre @ bs)" by (rule linksAt_True)
        then show ?thesis by (simp add: pre_def)
      next
        case False
        then have "L \<le> i" by simp
        from lfF[OF this i] False tr(2) show ?thesis by (simp add: pre_def)
      qed
    qed
    show "sorted_wrt ?R (front @ bs)" by (rule sortf)
    show "slength sl - 1 = int (length (front @ bs))" using len by (simp add: as bh)
  qed
  moreover have "\<forall>a\<in>set as. nodeKey (heap sl') a = nodeKey (heap sl) a"
    using keyold by (simp add: hf_def h_def)
  ultimately show ?thesis using del bh kx by (simp add: h_def)
qed

subsection \<open>getRank\<close>

text \<open>
  A walk of \<^verbatim>\<open>getRank\<close> at level \<open>i\<close> from \<open>x\<close>, with the nodes \<open>ys\<close> below the key between
  \<open>x\<close> and the node \<open>t\<close> of the key: if level \<open>i\<close> reaches \<open>t\<close> the walk returns its rank,
  otherwise it ends at the last node of \<open>x # ys\<close> that the level reaches.
\<close>

lemma rankWalk_spec:
  assumes "linksAt h i True (x # ys @ t # post)"
    and "i < nlevel (h ! x)"
    and "\<forall>y\<in>set ys. atMostKey h y sc mb \<and> \<not> (num_eq (score (h ! y)) sc \<and> member (h ! y) = mb)"
    and "atMostKey h t sc mb" and "num_eq (score (h ! t)) sc \<and> member (h ! t) = mb"
    and "\<forall>q\<in>set post. \<not> atMostKey h q sc mb"
  shows "(\<not> low h i t \<longrightarrow> rankWalk h i sc mb x r = Some (Inl (r + int (length ys)))) \<and>
         (low h i t \<longrightarrow>
            (\<exists>ys1 x' ys2. x # ys = ys1 @ x' # ys2 \<and> i < nlevel (h ! x') \<and> (\<forall>y\<in>set ys2. low h i y) \<and>
               rankWalk h i sc mb x r = Some (Inr (x', r + int (length ys1)))))"
  using assms(1,2,3)
proof (induction "length ys" arbitrary: ys x r rule: less_induct)
  case less
  from less.prems(1,2) have f: "fwd h x i = nextAt h i (ys @ t # post)"
    and s: "spans (h ! x) ! i = int (distAt h i (ys @ t # post))" by simp_all
  show ?case
  proof (cases "\<forall>y\<in>set ys. low h i y")
    case True
    show ?thesis
    proof (cases "low h i t")
      case False
      have n: "fwd h x i = Some t" using f True False by (simp add: nextAt_all_low nextAt_Cons_high)
      have d: "spans (h ! x) ! i = int (length ys) + 1"
        using s True False by (simp add: distAt_all_low distAt_Cons_high)
      have "rankWalk h i sc mb x r = Some (Inl (r + int (length ys)))"
        using n d assms(4,5) by (subst rankWalk.simps) simp
      with False show ?thesis by simp
    next
      case lt: True
      have n: "fwd h x i = nextAt h i post"
        using f True lt by (simp add: nextAt_all_low nextAt_Cons_low)
      have "rankWalk h i sc mb x r = Some (Inr (x, r))"
      proof (cases "nextAt h i post")
        case None
        then show ?thesis using n by (subst rankWalk.simps) simp
      next
        case (Some q)
        then have "q \<in> set post" using nextAt_mem by blast
        with assms(6) have "\<not> atMostKey h q sc mb" by simp
        then show ?thesis using n Some by (subst rankWalk.simps) simp
      qed
      then have "\<exists>ys1 x' ys2. x # ys = ys1 @ x' # ys2 \<and> i < nlevel (h ! x') \<and>
          (\<forall>y\<in>set ys2. low h i y) \<and> rankWalk h i sc mb x r = Some (Inr (x', r + int (length ys1)))"
        using True less.prems(2) by (intro exI[of _ "[]"] exI[of _ x] exI[of _ ys]) simp
      with lt show ?thesis by simp
    qed
  next
    case False
    define lows where "lows = takeWhile (low h i) ys"
    define rest where "rest = dropWhile (low h i) ys"
    have "rest \<noteq> []" using False by (auto simp: rest_def)
    then obtain q ys' where rq: "rest = q # ys'" by (cases rest) auto
    have "ys = lows @ rest" by (simp add: lows_def rest_def)
    then have ys: "ys = lows @ q # ys'" using rq by simp
    have lowl: "\<forall>y\<in>set lows. low h i y" by (auto simp: lows_def dest: set_takeWhileD)
    have hq: "\<not> low h i q" using rq unfolding rest_def
      by (metis hd_dropWhile list.sel(1) list.distinct(1))
    have n: "fwd h x i = Some q" using f lowl hq unfolding ys
      by (simp add: nextAt_all_low nextAt_Cons_high)
    have d: "spans (h ! x) ! i = int (length lows) + 1" using s lowl hq unfolding ys
      by (simp add: distAt_all_low distAt_Cons_high)
    have lq: "atMostKey h q sc mb" "\<not> (num_eq (score (h ! q)) sc \<and> member (h ! q) = mb)"
      using less.prems(3) ys by simp_all
    have step: "rankWalk h i sc mb x r = rankWalk h i sc mb q (r + (int (length lows) + 1))"
      using n lq d by (subst rankWalk.simps) auto
    have l': "linksAt h i True (q # ys' @ t # post)"
      using less.prems(1) linksAt_append[of h i True "x # lows" "q # ys' @ t # post"] unfolding ys by simp
    have iq: "i < nlevel (h ! q)" using hq by (simp add: low_def)
    have len: "length ys' < length ys" unfolding ys by simp
    have lt': "\<forall>y\<in>set ys'. atMostKey h y sc mb \<and> \<not> (num_eq (score (h ! y)) sc \<and> member (h ! y) = mb)"
      using less.prems(3) unfolding ys by simp
    note ih = less.hyps[OF len l' iq lt', of "r + (int (length lows) + 1)"]
    show ?thesis
    proof (cases "low h i t")
      case False
      with ih have "rankWalk h i sc mb q (r + (int (length lows) + 1)) =
          Some (Inl (r + (int (length lows) + 1) + int (length ys')))" by simp
      then have "rankWalk h i sc mb x r = Some (Inl (r + int (length ys)))"
        using step unfolding ys by simp
      with False show ?thesis by simp
    next
      case True
      with ih obtain zs1 x' zs2 where z: "q # ys' = zs1 @ x' # zs2" "i < nlevel (h ! x')"
        "\<forall>y\<in>set zs2. low h i y"
        "rankWalk h i sc mb q (r + (int (length lows) + 1)) =
           Some (Inr (x', r + (int (length lows) + 1) + int (length zs1)))"
        by blast
      have "x # ys = (x # lows @ zs1) @ x' # zs2" unfolding ys using z(1) by simp
      moreover have "rankWalk h i sc mb x r = Some (Inr (x', r + int (length (x # lows @ zs1))))"
        using step z(4) by simp
      ultimately have "\<exists>ys1 x' ys2. x # ys = ys1 @ x' # ys2 \<and> i < nlevel (h ! x') \<and>
          (\<forall>y\<in>set ys2. low h i y) \<and> rankWalk h i sc mb x r = Some (Inr (x', r + int (length ys1)))"
        using z(2,3) by blast
      with True show ?thesis by simp
    qed
  qed
qed

lemma rankSearch_spec:
  assumes links: "\<forall>i<L. linksAt h i True (pre @ t # post)"
    and lt: "\<forall>y\<in>set (tl pre). atMostKey h y sc mb \<and> \<not> (num_eq (score (h ! y)) sc \<and> member (h ! y) = mb)"
    and tk: "atMostKey h t sc mb" "num_eq (score (h ! t)) sc \<and> member (h ! t) = mb"
    and ge: "\<forall>q\<in>set post. \<not> atMostKey h q sc mb"
    and t1: "1 \<le> nlevel (h ! t)"
    and "1 \<le> n" and "n \<le> L" and "pre = ys1 @ x # ys2" and "n \<le> nlevel (h ! x)"
  shows "rankSearch n h sc mb x (int (length ys1)) = Some (int (length pre) - 1)"
  using assms(7-)
proof (induction n arbitrary: x ys1 ys2)
  case 0
  then show ?case by simp
next
  case (Suc i)
  note pre = Suc.prems(3)
  have iL: "i < L" using Suc.prems(2) by simp
  have l: "linksAt h i True (x # ys2 @ t # post)"
    using links iL linksAt_append[of h i True ys1 "x # ys2 @ t # post"] unfolding pre by simp
  have ix: "i < nlevel (h ! x)" using Suc.prems(4) by simp
  have "set ys2 \<subseteq> set (tl pre)" unfolding pre by (cases ys1) auto
  with lt have lt2: "\<forall>y\<in>set ys2. atMostKey h y sc mb \<and> \<not> (num_eq (score (h ! y)) sc \<and> member (h ! y) = mb)"
    by blast
  note w = rankWalk_spec[OF l ix lt2 tk ge, of "int (length ys1)"]
  show ?case
  proof (cases "low h i t")
    case False
    with w have "rankWalk h i sc mb x (int (length ys1)) = Some (Inl (int (length ys1) + int (length ys2)))"
      by simp
    then show ?thesis unfolding pre by simp
  next
    case True
    with w obtain zs1 x' zs2 where z: "x # ys2 = zs1 @ x' # zs2" "i < nlevel (h ! x')"
      "rankWalk h i sc mb x (int (length ys1)) = Some (Inr (x', int (length ys1) + int (length zs1)))"
      by blast
    have i1: "1 \<le> i" using True t1 by (simp add: low_def)
    have pre': "pre = (ys1 @ zs1) @ x' # zs2" unfolding pre using z(1) by simp
    have "i \<le> nlevel (h ! x')" using z(2) by simp
    from Suc.IH[OF i1 _ pre' this] iL
    have "rankSearch i h sc mb x' (int (length (ys1 @ zs1))) = Some (int (length pre) - 1)" by simp
    then show ?thesis using z(3) by simp
  qed
qed

lemma SkipList_getRank_spec:
  fixes sl :: SkipList
  assumes inv: "sl_inv sl as" and i: "i < length as"
    and key: "nodeKey (heap sl) (as ! i) = (sc, mb)"
  shows "SkipList_getRank sl sc mb = Some (int i)"
proof -
  define h where "h = heap sl"
  define hdr where "hdr = header sl"
  define L where "L = level sl"
  define front where "front = take i as"
  define post where "post = drop (Suc i) as"
  define t where "t = as ! i"
  define pre where "pre = hdr # front"
  have as: "as = front @ t # post" unfolding front_def post_def t_def using i by (rule id_take_nth_drop)
  from inv have L1: "1 \<le> L" and L32: "L \<le> 32"
    and nh: "nlevel (h ! hdr) = 32"
    and nodes: "\<forall>a\<in>set as. 1 \<le> nlevel (h ! a) \<and> nlevel (h ! a) \<le> L \<and> score (h ! a) \<noteq> NaN"
    and links: "\<forall>i<32. linksAt h i (i < L) (hdr # as)"
    and sorted: "sorted_wrt (\<lambda>a b. keyLess (nodeKey h a) (nodeKey h b)) as"
    by (simp_all add: sl_inv_def h_def hdr_def L_def)
  have kt: "nodeKey h t = (sc, mb)" using key by (simp add: h_def t_def)
  have tas: "t \<in> set as" using as by simp
  then have sc: "sc \<noteq> NaN" using nodes kt by (auto simp: nodeKey_def)
  have so: "sorted_wrt (\<lambda>a b. keyLess (nodeKey h a) (nodeKey h b)) (front @ t # post)"
    using sorted as by simp
  have match: "\<And>y. y \<in> set as \<Longrightarrow>
      (num_eq (score (h ! y)) sc \<and> member (h ! y) = mb) = (nodeKey h y = (sc, mb))"
    using nodes by (auto simp: nodeKey_def num_eq_iff)
  have am: "\<And>y. y \<in> set as \<Longrightarrow>
      atMostKey h y sc mb = (keyLess (nodeKey h y) (sc, mb) \<or> nodeKey h y = (sc, mb))"
    using nodes sc by (simp add: atMostKey_iff)
  have lt: "\<forall>y\<in>set (tl pre). atMostKey h y sc mb \<and> \<not> (num_eq (score (h ! y)) sc \<and> member (h ! y) = mb)"
  proof
    fix y
    assume "y \<in> set (tl pre)"
    then have y: "y \<in> set front" by (simp add: pre_def)
    then have ya: "y \<in> set as" using as by simp
    have "keyLess (nodeKey h y) (nodeKey h t)" using so y by (simp add: sorted_wrt_append)
    then have k: "keyLess (nodeKey h y) (sc, mb)" using kt by simp
    then have "nodeKey h y \<noteq> (sc, mb)" using keyLess_irrefl by force
    with k show "atMostKey h y sc mb \<and> \<not> (num_eq (score (h ! y)) sc \<and> member (h ! y) = mb)"
      using am[OF ya] match[OF ya] by simp
  qed
  have tk: "atMostKey h t sc mb" "num_eq (score (h ! t)) sc \<and> member (h ! t) = mb"
    using am[OF tas] match[OF tas] kt by simp_all
  have ge: "\<forall>q\<in>set post. \<not> atMostKey h q sc mb"
  proof
    fix q
    assume q: "q \<in> set post"
    then have qa: "q \<in> set as" using as by simp
    have "keyLess (nodeKey h t) (nodeKey h q)" using so q by (simp add: sorted_wrt_append)
    then have k: "keyLess (sc, mb) (nodeKey h q)" using kt by simp
    then have "\<not> keyLess (nodeKey h q) (sc, mb)" by (rule keyLess_asym)
    moreover have "nodeKey h q \<noteq> (sc, mb)" using k keyLess_irrefl by force
    ultimately show "\<not> atMostKey h q sc mb" using am[OF qa] by simp
  qed
  have ls: "\<forall>j<L. linksAt h j True (pre @ t # post)"
  proof (intro allI impI)
    fix j
    assume j: "j < L"
    then have "j < 32" using L32 by simp
    with links have "linksAt h j (j < L) (hdr # as)" by blast
    with j show "linksAt h j True (pre @ t # post)" by (simp add: pre_def as)
  qed
  have t1: "1 \<le> nlevel (h ! t)" using nodes tas by simp
  have p0: "pre = [] @ hdr # front" by (simp add: pre_def)
  have "L \<le> nlevel (h ! hdr)" using nh L32 by simp
  from rankSearch_spec[OF ls lt tk ge t1 L1 _ p0 this]
  have "rankSearch L h sc mb hdr 0 = Some (int (length pre) - 1)" by simp
  moreover have "length pre = Suc i" using i by (simp add: pre_def front_def)
  ultimately show ?thesis by (simp add: SkipList_getRank_def h_def hdr_def L_def)
qed

subsection \<open>The contents of a skip list\<close>

text \<open>
  The nodes of a list, read along the forward pointers of level 0 from the header, and its
  (member, score) pairs in that order. The walk takes at most as many steps as the heap has
  objects.
\<close>

fun walk0 :: "nat \<Rightarrow> SkipListNode list \<Rightarrow> nat option \<Rightarrow> nat list" where
  "walk0 0 h x = []"
| "walk0 (Suc n) h None = []"
| "walk0 (Suc n) h (Some a) = a # walk0 n h (fwd h a 0)"

definition SkipList_nodes :: "SkipList \<Rightarrow> nat list" where
  "SkipList_nodes sl = walk0 (length (heap sl)) (heap sl) (fwd (heap sl) (header sl) 0)"

definition SkipList_pairs :: "SkipList \<Rightarrow> (string \<times> number) list" where
  "SkipList_pairs sl = map (\<lambda>a. (member (heap sl ! a), score (heap sl ! a))) (SkipList_nodes sl)"

lemma walk0_None [simp]: "walk0 n h None = []"
  by (cases n) simp_all

lemma walk0_links:
  "linksAt h 0 sp (x # rest) \<Longrightarrow> \<forall>a\<in>set (x # rest). 1 \<le> nlevel (h ! a) \<Longrightarrow> length rest \<le> n \<Longrightarrow>
   walk0 n h (fwd h x 0) = rest"
proof (induction rest arbitrary: x n)
  case Nil
  then show ?case by simp
next
  case (Cons y rest)
  from Cons.prems(1,2) have f: "fwd h x 0 = Some y"
    by (simp add: nextAt_def low_def)
  from Cons.prems(3) obtain n' where n: "n = Suc n'" by (cases n) auto
  have "walk0 n' h (fwd h y 0) = rest"
    using Cons.IH[of y n'] Cons.prems n by simp
  then show ?case using f n by simp
qed

lemma distinct_bounded_length:
  fixes xs :: "nat list"
  assumes "distinct xs" and "\<forall>x\<in>set xs. x < n"
  shows "length xs \<le> n"
proof -
  have "set xs \<subseteq> {..<n}" using assms(2) by auto
  then have "card (set xs) \<le> card {..<n}" by (intro card_mono) simp_all
  then show ?thesis using assms(1) by (simp add: distinct_card)
qed

lemma SkipList_nodes_inv:
  assumes "sl_inv sl as"
  shows "SkipList_nodes sl = as"
proof -
  from assms have d: "distinct (header sl # as)"
    and sh: "\<forall>a\<in>set (header sl # as). shaped (heap sl) a"
    and nh: "nlevel (heap sl ! header sl) = 32"
    and nodes: "\<forall>a\<in>set as. 1 \<le> nlevel (heap sl ! a)"
    and links: "\<forall>i<32. linksAt (heap sl) i (i < level sl) (header sl # as)"
    by (simp_all add: sl_inv_def)
  have "length (header sl # as) \<le> length (heap sl)"
    using d sh by (intro distinct_bounded_length) (simp_all add: shaped_def)
  then have len: "length as \<le> length (heap sl)" by simp
  from links have l0: "linksAt (heap sl) 0 (0 < level sl) (header sl # as)" by simp
  have "\<forall>a\<in>set (header sl # as). 1 \<le> nlevel (heap sl ! a)" using nh nodes by simp
  from walk0_links[OF l0 this len] show ?thesis by (simp add: SkipList_nodes_def)
qed

lemma SkipList_pairs_inv:
  "sl_inv sl as \<Longrightarrow> SkipList_pairs sl = map (\<lambda>a. (member (heap sl ! a), score (heap sl ! a))) as"
  by (simp add: SkipList_pairs_def SkipList_nodes_inv)

lemma pairs_key:
  "((mb, sc) \<in> set (map (\<lambda>a. (member (h ! a), score (h ! a))) as)) =
   ((sc, mb) \<in> nodeKey h ` set as)"
  by (auto simp: nodeKey_def image_iff)

lemma SkipList_insert_pairs:
  fixes sl :: SkipList
  assumes inv: "sl_inv sl as" and sc: "sc \<noteq> NaN" and fresh: "(mb, sc) \<notin> set (SkipList_pairs sl)"
  shows "\<exists>nw sl' rnd' as'. SkipList_insert sl sc mb rnd = Some (nw, sl', rnd') \<and> sl_inv sl' as' \<and>
           mset (SkipList_pairs sl') = add_mset (mb, sc) (mset (SkipList_pairs sl))"
proof -
  define front where "front = takeWhile (\<lambda>a. keyLess (nodeKey (heap sl) a) (sc, mb)) as"
  define behind where "behind = dropWhile (\<lambda>a. keyLess (nodeKey (heap sl) a) (sc, mb)) as"
  have as: "as = front @ behind" by (simp add: front_def behind_def)
  have fr: "(sc, mb) \<notin> nodeKey (heap sl) ` set as"
    using fresh unfolding SkipList_pairs_inv[OF inv] pairs_key by simp
  from SkipList_insert_spec[OF inv sc fr, of rnd, folded front_def behind_def]
  obtain sl' rnd' where ins: "SkipList_insert sl sc mb rnd = Some (length (heap sl), sl', rnd')"
    and inv': "sl_inv sl' (front @ length (heap sl) # behind)"
    and old: "\<forall>a\<in>set as. nodeKey (heap sl') a = nodeKey (heap sl) a"
    and new: "nodeKey (heap sl') (length (heap sl)) = (sc, mb)"
    by blast
  have o: "\<And>a. a \<in> set as \<Longrightarrow> (member (heap sl' ! a), score (heap sl' ! a)) =
                                  (member (heap sl ! a), score (heap sl ! a))"
    using old by (simp add: nodeKey_def)
  have n: "(member (heap sl' ! length (heap sl)), score (heap sl' ! length (heap sl))) = (mb, sc)"
    using new by (simp add: nodeKey_def)
  have "mset (SkipList_pairs sl') = add_mset (mb, sc) (mset (SkipList_pairs sl))"
    unfolding SkipList_pairs_inv[OF inv'] SkipList_pairs_inv[OF inv]
    using o n by (simp add: as cong: map_cong)
  with ins inv' show ?thesis by blast
qed

lemma SkipList_delete_pairs_absent:
  fixes sl :: SkipList
  assumes inv: "sl_inv sl as" and sc: "sc \<noteq> NaN" and absent: "(mb, sc) \<notin> set (SkipList_pairs sl)"
  shows "SkipList_delete sl sc mb = Some (False, sl)"
proof -
  have "\<forall>a\<in>set as. nodeKey (heap sl) a \<noteq> (sc, mb)"
    using absent unfolding SkipList_pairs_inv[OF inv] pairs_key by (metis imageI)
  then show ?thesis by (rule SkipList_delete_absent[OF inv sc])
qed

lemma SkipList_delete_pairs_present:
  fixes sl :: SkipList
  assumes inv: "sl_inv sl as" and sc: "sc \<noteq> NaN" and present: "(mb, sc) \<in> set (SkipList_pairs sl)"
  shows "\<exists>sl' as'. SkipList_delete sl sc mb = Some (True, sl') \<and> sl_inv sl' as' \<and>
           mset (SkipList_pairs sl) = add_mset (mb, sc) (mset (SkipList_pairs sl'))"
proof -
  define front where "front = takeWhile (\<lambda>a. keyLess (nodeKey (heap sl) a) (sc, mb)) as"
  define behind where "behind = dropWhile (\<lambda>a. keyLess (nodeKey (heap sl) a) (sc, mb)) as"
  have as: "as = front @ behind" by (simp add: front_def behind_def)
  have pr: "\<exists>a\<in>set as. nodeKey (heap sl) a = (sc, mb)"
    using present unfolding SkipList_pairs_inv[OF inv] pairs_key by auto
  from SkipList_delete_present[OF inv sc pr, folded front_def behind_def]
  obtain sl' where del: "SkipList_delete sl sc mb = Some (True, sl')"
    and inv': "sl_inv sl' (front @ tl behind)" and ne: "behind \<noteq> []"
    and kx: "nodeKey (heap sl) (hd behind) = (sc, mb)"
    and old: "\<forall>a\<in>set as. nodeKey (heap sl') a = nodeKey (heap sl) a"
    by blast
  from ne obtain x bs where bh: "behind = x # bs" by (cases behind) auto
  have o: "\<And>a. a \<in> set as \<Longrightarrow> (member (heap sl' ! a), score (heap sl' ! a)) =
                                  (member (heap sl ! a), score (heap sl ! a))"
    using old by (simp add: nodeKey_def)
  have n: "(member (heap sl ! x), score (heap sl ! x)) = (mb, sc)"
    using kx bh by (simp add: nodeKey_def)
  have "mset (SkipList_pairs sl) = add_mset (mb, sc) (mset (SkipList_pairs sl'))"
    unfolding SkipList_pairs_inv[OF inv'] SkipList_pairs_inv[OF inv]
    using o n by (simp add: as bh cong: map_cong)
  with del inv' show ?thesis by blast
qed

lemma SkipList_pairs_sorted:
  assumes "sl_inv sl as"
  shows "sorted_wrt (\<lambda>p q. keyLess (snd p, fst p) (snd q, fst q)) (SkipList_pairs sl)"
    and "\<forall>p\<in>set (SkipList_pairs sl). snd p \<noteq> NaN"
    and "length (SkipList_pairs sl) = length as"
proof -
  from assms have s: "sorted_wrt (\<lambda>a b. keyLess (nodeKey (heap sl) a) (nodeKey (heap sl) b)) as"
    and n: "\<forall>a\<in>set as. score (heap sl ! a) \<noteq> NaN"
    by (simp_all add: sl_inv_def)
  show "sorted_wrt (\<lambda>p q. keyLess (snd p, fst p) (snd q, fst q)) (SkipList_pairs sl)"
    unfolding SkipList_pairs_inv[OF assms] using s by (simp add: sorted_wrt_map nodeKey_def)
  show "\<forall>p\<in>set (SkipList_pairs sl). snd p \<noteq> NaN"
    unfolding SkipList_pairs_inv[OF assms] using n by simp
  show "length (SkipList_pairs sl) = length as"
    unfolding SkipList_pairs_inv[OF assms] by simp
qed

lemma SkipList_getRank_pairs:
  assumes inv: "sl_inv sl as" and i: "i < length (SkipList_pairs sl)"
  shows "SkipList_getRank sl (snd (SkipList_pairs sl ! i)) (fst (SkipList_pairs sl ! i)) = Some (int i)"
proof -
  have l: "i < length as" using i SkipList_pairs_sorted(3)[OF inv] by simp
  have "nodeKey (heap sl) (as ! i) = (snd (SkipList_pairs sl ! i), fst (SkipList_pairs sl ! i))"
    unfolding SkipList_pairs_inv[OF inv] using l by (simp add: nodeKey_def)
  from SkipList_getRank_spec[OF inv l this] show ?thesis .
qed

lemma sl_inv_new: "sl_inv new_SkipList []"
proof -
  have "\<forall>i<32. linksAt (heap new_SkipList) i (i < level new_SkipList) [header new_SkipList]"
    by (simp add: new_SkipList_def new_SkipListNode_def fwd_def)
  then show ?thesis
    by (simp add: sl_inv_def shaped_def) (simp add: new_SkipList_def new_SkipListNode_def)
qed

section \<open>Properties of the ordered collection\<close>

text \<open>
  The invariant of a collection: its skip list is well formed, no member occurs twice in
  it, and the member index holds exactly the pairs of the skip list.
\<close>

definition zset_inv :: "ZSet \<Rightarrow> bool" where
  "zset_inv z =
     ((\<exists>as. sl_inv (skiplist z) as) \<and> distinct (Map_keys (dict z)) \<and>
      distinct (map fst (SkipList_pairs (skiplist z))) \<and>
      (\<forall>m s. (Map_get (dict z) m = Some s) = ((m, s) \<in> set (SkipList_pairs (skiplist z)))))"

lemma zset_inv_new: "zset_inv new_ZSet"
  using sl_inv_new SkipList_pairs_inv[OF sl_inv_new]
  by (auto simp: zset_inv_def new_ZSet_def Map_keys_def Map_get_def)

lemma distinct_fst_mset:
  assumes "mset ps' = add_mset (m, s) (mset ps)"
  shows "distinct (map fst ps') = (distinct (map fst ps) \<and> m \<notin> fst ` set ps)"
proof -
  have "mset (map fst ps') = mset (map fst ((m, s) # ps))"
    using assms by (metis mset.simps(2) mset_map)
  then have "distinct (map fst ps') = distinct (map fst ((m, s) # ps))"
    by (rule mset_eq_imp_distinct_iff)
  then show ?thesis by auto
qed

lemma set_mset_eq:
  assumes "mset ps' = add_mset p (mset ps)"
  shows "set ps' = insert p (set ps)"
  using assms by (metis set_mset_add_mset_insert set_mset_mset)

lemma ZSet_zadd_spec:
  assumes inv: "zset_inv z" and sc: "sc \<noteq> NaN"
  shows "\<exists>z' rnd'. ZSet_zadd z mb sc rnd = Some (Map_get (dict z) mb = None, z', rnd') \<and> zset_inv z' \<and>
           Map_get (dict z') = (Map_get (dict z))(mb \<mapsto> sc) \<and>
           (Map_get (dict z) mb = Some sc \<longrightarrow> z' = z \<and> rnd' = rnd) \<and>
           mset (SkipList_pairs (skiplist z')) =
             add_mset (mb, sc) (mset (SkipList_pairs (skiplist z)) -
               (case Map_get (dict z) mb of None \<Rightarrow> {#} | Some old \<Rightarrow> {#(mb, old)#}))"
proof -
  define P where "P = SkipList_pairs (skiplist z)"
  from inv obtain as where sl: "sl_inv (skiplist z) as"
    and dk: "distinct (Map_keys (dict z))" and dm: "distinct (map fst P)"
    and rel: "\<And>m s. (Map_get (dict z) m = Some s) = ((m, s) \<in> set P)"
    by (auto simp: zset_inv_def P_def)
  show ?thesis
  proof (cases "Map_get (dict z) mb")
    case None
    then have nomem: "mb \<notin> fst ` set P" using rel by force
    then have "(mb, sc) \<notin> set (SkipList_pairs (skiplist z))" unfolding P_def by force
    from SkipList_insert_pairs[OF sl sc this, of rnd]
    obtain nw sl' rnd' as' where ins: "SkipList_insert (skiplist z) sc mb rnd = Some (nw, sl', rnd')"
      and sl': "sl_inv sl' as'"
      and ms: "mset (SkipList_pairs sl') = add_mset (mb, sc) (mset P)"
      unfolding P_def by blast
    define z' where "z' = \<lparr>dict = Map_set (dict z) mb sc, skiplist = sl'\<rparr>"
    have r: "ZSet_zadd z mb sc rnd = Some (True, z', rnd')"
      using None ins by (simp add: ZSet_zadd_def z'_def)
    have "mb \<notin> set (Map_keys (dict z))" using None by (simp add: Map_get_None_keys)
    then have dk': "distinct (Map_keys (dict z'))" using dk by (simp add: z'_def Map_keys_set)
    have dm': "distinct (map fst (SkipList_pairs (skiplist z')))"
      using distinct_fst_mset[OF ms] dm nomem by (simp add: z'_def)
    have nop: "\<And>s. (mb, s) \<notin> set P" using nomem by force
    have rel': "\<forall>m s. (Map_get (dict z') m = Some s) = ((m, s) \<in> set (SkipList_pairs (skiplist z')))"
      using set_mset_eq[OF ms] rel nop by (auto simp: z'_def Map_get_set)
    have "zset_inv z'" unfolding zset_inv_def using sl' dk' dm' rel' by (auto simp: z'_def)
    moreover have "Map_get (dict z') = (Map_get (dict z))(mb \<mapsto> sc)"
      by (auto simp: z'_def Map_get_set)
    moreover have "mset (SkipList_pairs (skiplist z')) = add_mset (mb, sc) (mset P - {#})"
      using ms by (simp add: z'_def)
    ultimately show ?thesis using r None unfolding P_def by auto
  next
    case (Some old)
    then have po: "(mb, old) \<in> set P" using rel by simp
    then have oldn: "old \<noteq> NaN" using SkipList_pairs_sorted(2)[OF sl] unfolding P_def by force
    show ?thesis
    proof (cases "old = sc")
      case True
      have r: "ZSet_zadd z mb sc rnd = Some (False, z, rnd)"
        using Some True sc by (simp add: ZSet_zadd_def num_eq_iff)
      have "Map_get (dict z) = (Map_get (dict z))(mb \<mapsto> sc)" using Some True by auto
      moreover have "mset P = add_mset (mb, sc) (mset P - {#(mb, sc)#})"
        using po True by simp
      ultimately show ?thesis using r Some True inv unfolding P_def by auto
    next
      case False
      have "(mb, old) \<in> set (SkipList_pairs (skiplist z))" using po by (simp add: P_def)
      from SkipList_delete_pairs_present[OF sl oldn this]
      obtain sl1 as1 where del: "SkipList_delete (skiplist z) old mb = Some (True, sl1)"
        and sl1: "sl_inv sl1 as1"
        and m1: "mset P = add_mset (mb, old) (mset (SkipList_pairs sl1))"
        unfolding P_def by blast
      define P1 where "P1 = SkipList_pairs sl1"
      have d1: "distinct (map fst P1) \<and> mb \<notin> fst ` set P1"
        using distinct_fst_mset[OF m1] dm by (simp add: P1_def)
      then have "(mb, sc) \<notin> set (SkipList_pairs sl1)" unfolding P1_def by force
      from SkipList_insert_pairs[OF sl1 sc this, of rnd]
      obtain nw sl2 rnd' as2 where ins: "SkipList_insert sl1 sc mb rnd = Some (nw, sl2, rnd')"
        and sl2: "sl_inv sl2 as2"
        and m2: "mset (SkipList_pairs sl2) = add_mset (mb, sc) (mset P1)"
        unfolding P1_def by blast
      define z' where "z' = \<lparr>dict = Map_set (dict z) mb sc, skiplist = sl2\<rparr>"
      have r: "ZSet_zadd z mb sc rnd = Some (False, z', rnd')"
        using Some False del ins oldn by (simp add: ZSet_zadd_def z'_def num_eq_iff)
      have "mb \<in> set (Map_keys (dict z))" using Some Map_get_keys[of "dict z" mb] by simp
      then have dk': "distinct (Map_keys (dict z'))" using dk by (simp add: z'_def Map_keys_set)
      have dm': "distinct (map fst (SkipList_pairs (skiplist z')))"
        using distinct_fst_mset[OF m2] d1 by (simp add: z'_def)
      have s1: "set P = insert (mb, old) (set P1)" using set_mset_eq[OF m1] by (simp add: P1_def)
      have s2: "set (SkipList_pairs sl2) = insert (mb, sc) (set P1)" by (rule set_mset_eq[OF m2])
      have rel': "\<forall>m s. (Map_get (dict z') m = Some s) = ((m, s) \<in> set (SkipList_pairs (skiplist z')))"
      proof (intro allI)
        fix m s
        show "(Map_get (dict z') m = Some s) = ((m, s) \<in> set (SkipList_pairs (skiplist z')))"
        proof (cases "m = mb")
          case True
          then show ?thesis using d1 s2 by (force simp: z'_def Map_get_set)
        next
          case False
          then show ?thesis using rel[of m s] s1 s2 by (simp add: z'_def Map_get_set)
        qed
      qed
      have "zset_inv z'" unfolding zset_inv_def using sl2 dk' dm' rel' by (auto simp: z'_def)
      moreover have "Map_get (dict z') = (Map_get (dict z))(mb \<mapsto> sc)"
        by (auto simp: z'_def Map_get_set)
      moreover have "mset (SkipList_pairs (skiplist z')) = add_mset (mb, sc) (mset P - {#(mb, old)#})"
        using m2 m1 by (simp add: z'_def P1_def)
      ultimately show ?thesis using r Some False unfolding P_def by auto
    qed
  qed
qed

lemma ZSet_zrem_spec:
  assumes inv: "zset_inv z"
  shows "\<exists>z'. ZSet_zrem z mb = Some (Map_get (dict z) mb \<noteq> None, z') \<and> zset_inv z' \<and>
           Map_get (dict z') = (Map_get (dict z))(mb := None) \<and>
           mset (SkipList_pairs (skiplist z')) =
             mset (SkipList_pairs (skiplist z)) -
               (case Map_get (dict z) mb of None \<Rightarrow> {#} | Some old \<Rightarrow> {#(mb, old)#})"
proof -
  define P where "P = SkipList_pairs (skiplist z)"
  from inv obtain as where sl: "sl_inv (skiplist z) as"
    and dk: "distinct (Map_keys (dict z))" and dm: "distinct (map fst P)"
    and rel: "\<And>m s. (Map_get (dict z) m = Some s) = ((m, s) \<in> set P)"
    by (auto simp: zset_inv_def P_def)
  show ?thesis
  proof (cases "Map_get (dict z) mb")
    case None
    then have "ZSet_zrem z mb = Some (False, z)" by (simp add: ZSet_zrem_def)
    moreover have "Map_get (dict z) = (Map_get (dict z))(mb := None)" using None by auto
    ultimately show ?thesis using None inv by auto
  next
    case (Some old)
    then have po: "(mb, old) \<in> set P" using rel by simp
    then have oldn: "old \<noteq> NaN" using SkipList_pairs_sorted(2)[OF sl] unfolding P_def by force
    have "(mb, old) \<in> set (SkipList_pairs (skiplist z))" using po by (simp add: P_def)
    from SkipList_delete_pairs_present[OF sl oldn this]
    obtain sl1 as1 where del: "SkipList_delete (skiplist z) old mb = Some (True, sl1)"
      and sl1: "sl_inv sl1 as1"
      and m1: "mset P = add_mset (mb, old) (mset (SkipList_pairs sl1))"
      unfolding P_def by blast
    define z' where "z' = \<lparr>dict = Map_delete (dict z) mb, skiplist = sl1\<rparr>"
    have r: "ZSet_zrem z mb = Some (True, z')"
      using Some del by (simp add: ZSet_zrem_def z'_def)
    have d1: "distinct (map fst (SkipList_pairs sl1)) \<and> mb \<notin> fst ` set (SkipList_pairs sl1)"
      using distinct_fst_mset[OF m1] dm by simp
    have dk': "distinct (Map_keys (dict z'))" using dk by (simp add: z'_def Map_keys_delete)
    have s1: "set P = insert (mb, old) (set (SkipList_pairs sl1))" by (rule set_mset_eq[OF m1])
    have rel': "\<forall>m s. (Map_get (dict z') m = Some s) = ((m, s) \<in> set (SkipList_pairs (skiplist z')))"
    proof (intro allI)
      fix m s
      show "(Map_get (dict z') m = Some s) = ((m, s) \<in> set (SkipList_pairs (skiplist z')))"
      proof (cases "m = mb")
        case True
        then show ?thesis using d1 by (force simp: z'_def Map_get_delete)
      next
        case False
        then show ?thesis using rel[of m s] s1 by (simp add: z'_def Map_get_delete)
      qed
    qed
    have "zset_inv z'" unfolding zset_inv_def using sl1 dk' d1 rel' by (auto simp: z'_def)
    moreover have "Map_get (dict z') = (Map_get (dict z))(mb := None)"
      by (auto simp: z'_def Map_get_delete)
    moreover have "mset (SkipList_pairs (skiplist z')) = mset P - {#(mb, old)#}"
      using m1 by (simp add: z'_def)
    ultimately show ?thesis using r Some unfolding P_def by auto
  qed
qed

text \<open>
  The collections that calls of \<^verbatim>\<open>zadd\<close> with scores other than NaN and calls of \<^verbatim>\<open>zrem\<close>
  produce from a new collection, for any random draws.
\<close>

inductive zset_reachable :: "ZSet \<Rightarrow> bool" where
  zr_new: "zset_reachable new_ZSet"
| zr_zadd: "zset_reachable z \<Longrightarrow> sc \<noteq> NaN \<Longrightarrow> ZSet_zadd z mb sc rnd = Some (b, z', rnd') \<Longrightarrow>
            zset_reachable z'"
| zr_zrem: "zset_reachable z \<Longrightarrow> ZSet_zrem z mb = Some (b, z') \<Longrightarrow> zset_reachable z'"

lemma zset_reachable_inv: "zset_reachable z \<Longrightarrow> zset_inv z"
proof (induction rule: zset_reachable.induct)
  case zr_new
  show ?case by (rule zset_inv_new)
next
  case (zr_zadd z sc mb rnd b z' rnd')
  from ZSet_zadd_spec[OF zr_zadd.IH zr_zadd.hyps(2), of mb rnd] zr_zadd.hyps(3)
  show ?case by auto
next
  case (zr_zrem z mb b z')
  from ZSet_zrem_spec[OF zr_zrem.IH, of mb] zr_zrem.hyps(2)
  show ?case by auto
qed

subsection \<open>The member index and the skip list hold the same pairs\<close>

lemma Map_entries_get:
  assumes "distinct (Map_keys m)"
  shows "((k, v) \<in> set (Map_entries m)) = (Map_get m k = Some v)"
proof
  assume "(k, v) \<in> set (Map_entries m)"
  with assms show "Map_get m k = Some v" by (rule Map_get_distinct)
next
  assume "Map_get m k = Some v"
  then show "(k, v) \<in> set (Map_entries m)" unfolding Map_get_def by (rule map_of_SomeD)
qed

lemma zset_inv_mset:
  assumes "zset_inv z"
  shows "mset (SkipList_pairs (skiplist z)) = mset (Map_entries (dict z))"
proof -
  from assms have dk: "distinct (Map_keys (dict z))"
    and dm: "distinct (map fst (SkipList_pairs (skiplist z)))"
    and rel: "\<And>m s. (Map_get (dict z) m = Some s) = ((m, s) \<in> set (SkipList_pairs (skiplist z)))"
    by (auto simp: zset_inv_def)
  have d1: "distinct (SkipList_pairs (skiplist z))" using dm by (simp add: distinct_map)
  have d2: "distinct (Map_entries (dict z))" using dk unfolding Map_keys_def by (simp add: distinct_map)
  have "set (SkipList_pairs (skiplist z)) = set (Map_entries (dict z))"
    using Map_entries_get[OF dk] rel by auto
  with d1 d2 show ?thesis by (simp add: set_eq_iff_mset_eq_distinct)
qed

lemma mset_single_list: "mset xs = {#x#} \<Longrightarrow> xs = [x]"
  by (cases xs) auto

subsection \<open>zadd on a key of the cache\<close>

lemma Cache_zadd_created:
  assumes inv: "cache_inv c" and p: "writePrefix c now key = Some c1"
    and n: "lookup2 (store c1) key = None" and sc: "sc \<noteq> NaN"
  shows "\<exists>c' e' z'. Cache_zadd c now key sc mb = Some (Inr 1, c') \<and>
           lookup2 (store c') key = Some e' \<and> etype e' = TZSet \<and> evalue e' = ZSetVal z' \<and>
           zset_reachable z' \<and> SkipList_pairs (skiplist z') = [(mb, sc)] \<and>
           Map_entries (dict z') = [(mb, sc)]"
proof -
  note k = writePrefix_kept[OF inv p]
  then have i1: "dict_inv (store c1)" by (simp add: cache_inv_def)
  note g = dict_get_spec[OF i1, of key]
  have e0: "Map_get (dict new_ZSet) mb = None" by (simp add: new_ZSet_def Map_get_def)
  from ZSet_zadd_spec[OF zset_inv_new sc, of mb "random c1"] e0
  obtain z' rnd' where za: "ZSet_zadd new_ZSet mb sc (random c1) = Some (True, z', rnd')"
    and zi: "zset_inv z'"
    and ms: "mset (SkipList_pairs (skiplist z')) = add_mset (mb, sc) (mset (SkipList_pairs (skiplist new_ZSet)) - {#})"
    by auto
  have "SkipList_pairs (skiplist new_ZSet) = []"
    using SkipList_pairs_inv[OF sl_inv_new] by (simp add: new_ZSet_def)
  with ms have m1: "mset (SkipList_pairs (skiplist z')) = {#(mb, sc)#}" by simp
  then have p1: "SkipList_pairs (skiplist z') = [(mb, sc)]" by (rule mset_single_list)
  have "mset (Map_entries (dict z')) = {#(mb, sc)#}" using zset_inv_mset[OF zi] m1 by simp
  then have p2: "Map_entries (dict z') = [(mb, sc)]" by (rule mset_single_list)
  have zr: "zset_reachable z'" by (rule zr_zadd[OF zr_new sc za])
  define entry0 where "entry0 = \<lparr>etype = TZSet, evalue = ZSetVal z', encoding = None, memoryUsed = None\<rparr>"
  define entry where "entry = entry0\<lparr>memoryUsed := Some (calculateMemoryUsed key entry0)\<rparr>"
  from p have ev: "evictIfNeeded (snd (checkExpired (bumpOperations c) now key)) = Some c1"
    by (simp add: writePrefix_def)
  have f: "fst (dict_get (store c1) key) = None" using g(1) n by simp
  obtain st1 where dg: "dict_get (store c1) key = (None, st1)"
    using f by (cases "dict_get (store c1) key") auto
  have ist: "dict_inv st1" "lookup2 st1 = lookup2 (store c1)" using g dg by simp_all
  obtain u rnd2 where t: "touch (usage c1) now key rnd' = (u, rnd2)"
    by (cases "touch (usage c1) now key rnd'")
  define c' where "c' = c1\<lparr>currentMemoryUsed := currentMemoryUsed c1 + calculateMemoryUsed key entry0,
                             store := dict_set st1 key entry, usage := u, random := rnd2\<rparr>"
  have r: "Cache_zadd c now key sc mb = Some (Inr 1, c')"
    unfolding Cache_zadd_def ev option.case dg prod.case za Let_def
    by (simp add: t c'_def entry_def entry0_def)
  have "lookup2 (store c') key = Some entry"
    using dict_set_spec(2)[OF ist(1), of key entry] by (simp add: c'_def)
  moreover have "etype entry = TZSet" "evalue entry = ZSetVal z'"
    by (simp_all add: entry_def entry0_def)
  ultimately show ?thesis using r zr p1 p2 by blast
qed

lemma Cache_zadd_member:
  assumes inv: "cache_inv c" and p: "writePrefix c now key = Some c1"
    and e: "lookup2 (store c1) key = Some e" and ty: "etype e = TZSet" and v: "evalue e = ZSetVal z"
    and za: "ZSet_zadd z mb sc (random c1) = Some (added, z', rnd')"
  shows "\<exists>c' e'. Cache_zadd c now key sc mb = Some (Inr (if added then 1 else 0), c') \<and>
           lookup2 (store c') key = Some e' \<and> etype e' = TZSet \<and> evalue e' = ZSetVal z'"
proof -
  note k = writePrefix_kept[OF inv p]
  then have i1: "dict_inv (store c1)" by (simp add: cache_inv_def)
  note g = dict_get_spec[OF i1, of key]
  from p have ev: "evictIfNeeded (snd (checkExpired (bumpOperations c) now key)) = Some c1"
    by (simp add: writePrefix_def)
  have f: "fst (dict_get (store c1) key) = Some e" using g(1) e by simp
  obtain st1 where dg: "dict_get (store c1) key = (Some e, st1)"
    using f by (cases "dict_get (store c1) key") auto
  have ist: "dict_inv st1" "lookup2 st1 = lookup2 (store c1)" using g dg by simp_all
  obtain u rnd2 where t: "touch (usage c1) now key rnd' = (u, rnd2)"
    by (cases "touch (usage c1) now key rnd'")
  define delta where "delta = (if added then estimateMemberSize mb else 0)"
  define entry' where "entry' = (if added
                                  then e\<lparr>evalue := ZSetVal z',
                                         memoryUsed := Some ((case memoryUsed e of
                                            None \<Rightarrow> 0 | Some m \<Rightarrow> m) + delta)\<rparr>
                                  else e\<lparr>evalue := ZSetVal z'\<rparr>)"
  define c' where "c' = c1\<lparr>currentMemoryUsed := currentMemoryUsed c1 + delta,
                             store := mutateEntry st1 key (\<lambda>_. entry'), usage := u, random := rnd2\<rparr>"
  have r: "Cache_zadd c now key sc mb = Some (Inr (if added then 1 else 0), c')"
    unfolding Cache_zadd_def ev option.case dg prod.case Let_def
    using ty v za t by (simp add: c'_def entry'_def delta_def)
  have "lookup2 (store c') key = Some entry'"
    using mutateEntry_spec(2)[OF ist(1), of key "\<lambda>_. entry'"] ist(2) e by (simp add: c'_def)
  moreover have "etype entry' = TZSet" "evalue entry' = ZSetVal z'"
    using ty by (simp_all add: entry'_def)
  ultimately show ?thesis using r by blast
qed

subsection \<open>Ranks\<close>

lemma zset_inv_members:
  assumes "zset_inv z"
  shows "mset (map fst (SkipList_pairs (skiplist z))) = mset (Map_keys (dict z))"
    and "length (SkipList_pairs (skiplist z)) = ZSet_zcard z"
proof -
  note m = zset_inv_mset[OF assms]
  from arg_cong[OF m, of "image_mset fst"]
  show "mset (map fst (SkipList_pairs (skiplist z))) = mset (Map_keys (dict z))"
    by (simp add: Map_keys_def)
  from arg_cong[OF m, of size]
  show "length (SkipList_pairs (skiplist z)) = ZSet_zcard z"
    by (simp add: ZSet_zcard_def Map_size_keys Map_keys_def)
qed

lemma ZSet_zrank_pairs:
  assumes "zset_inv z" and "i < length (SkipList_pairs (skiplist z))"
  shows "ZSet_zrank z (fst (SkipList_pairs (skiplist z) ! i)) = Some (Some (int i))"
proof -
  from assms(1) obtain as where sl: "sl_inv (skiplist z) as"
    and rel: "\<And>m s. (Map_get (dict z) m = Some s) = ((m, s) \<in> set (SkipList_pairs (skiplist z)))"
    by (auto simp: zset_inv_def)
  let ?p = "SkipList_pairs (skiplist z) ! i"
  have "(fst ?p, snd ?p) \<in> set (SkipList_pairs (skiplist z))" using assms(2) by simp
  then have g: "Map_get (dict z) (fst ?p) = Some (snd ?p)" by (simp only: rel)
  show ?thesis
    using SkipList_getRank_pairs[OF sl assms(2)] by (simp add: ZSet_zrank_def g)
qed

lemma ZSet_zrank_absent: "Map_get (dict z) m = None \<Longrightarrow> ZSet_zrank z m = Some None"
  by (simp add: ZSet_zrank_def)

lemma ZSet_zrank_map:
  assumes "zset_inv z"
  shows "map (ZSet_zrank z) (map fst (SkipList_pairs (skiplist z))) =
         map (\<lambda>i. Some (Some (int i))) [0..<ZSet_zcard z]"
proof (rule nth_equalityI)
  show "length (map (ZSet_zrank z) (map fst (SkipList_pairs (skiplist z)))) =
        length (map (\<lambda>i. Some (Some (int i))) [0..<ZSet_zcard z])"
    using zset_inv_members(2)[OF assms] by simp
next
  fix i assume "i < length (map (ZSet_zrank z) (map fst (SkipList_pairs (skiplist z))))"
  then have i: "i < length (SkipList_pairs (skiplist z))" by simp
  then have "i < ZSet_zcard z" using zset_inv_members(2)[OF assms] by simp
  with i ZSet_zrank_pairs[OF assms i]
  show "map (ZSet_zrank z) (map fst (SkipList_pairs (skiplist z))) ! i =
        map (\<lambda>i. Some (Some (int i))) [0..<ZSet_zcard z] ! i"
    by simp
qed

lemma ZSet_zrank_permutation:
  assumes "zset_inv z"
  shows "mset (map (ZSet_zrank z) (Map_keys (dict z))) =
         mset (map (\<lambda>i. Some (Some (int i))) [0..<ZSet_zcard z])"
proof -
  have "mset (map (ZSet_zrank z) (Map_keys (dict z))) =
        image_mset (ZSet_zrank z) (mset (map fst (SkipList_pairs (skiplist z))))"
    by (simp only: mset_map zset_inv_members(1)[OF assms, simplified mset_map])
  also have "\<dots> = mset (map (ZSet_zrank z) (map fst (SkipList_pairs (skiplist z))))"
    by (simp only: mset_map)
  finally show ?thesis by (simp only: ZSet_zrank_map[OF assms])
qed

lemma zset_pairs_sorted:
  assumes "zset_inv z"
  shows "sorted_wrt (\<lambda>p q. keyLess (snd p, fst p) (snd q, fst q)) (SkipList_pairs (skiplist z))"
    and "\<forall>p\<in>set (SkipList_pairs (skiplist z)). snd p \<noteq> NaN"
proof -
  from assms obtain as where sl: "sl_inv (skiplist z) as" by (auto simp: zset_inv_def)
  from SkipList_pairs_sorted(1,2)[OF sl]
  show "sorted_wrt (\<lambda>p q. keyLess (snd p, fst p) (snd q, fst q)) (SkipList_pairs (skiplist z))"
    and "\<forall>p\<in>set (SkipList_pairs (skiplist z)). snd p \<noteq> NaN" by simp_all
qed

lemma Map_keys_get_set: "set (Map_keys m) = {k. Map_get m k \<noteq> None}"
  using Map_get_keys[of m] by auto

subsection \<open>The ordered collection with numbers as scores\<close>

text \<open>
  zadd with a score that is a number (any score but NaN). In a reachable state of the cache
  let the score be a number. The steps of zadd before the entry is read (expiration check, then
  eviction) return at once when the cache is within budget, and if they do not return,
  neither does zadd. When they return and the key then has no entry, zadd returns 1 and
  stores an ordered collection whose only pair is the new one. When they return and the key
  holds an ordered collection built by zadd calls with numbers as scores and by zrem calls,
  zadd returns 1 exactly when the member had no score, and 0 otherwise; afterwards the member
  has the new score and every other member its old one, so the member set is the old one
  with the member added; if the member already had this score the collection is unchanged;
  and the pairs of the skip list are the old ones without the old pair of the member, if it
  had one, and with the new pair.
\<close>

lemma zadd_adds_or_updates:
  assumes "reachable c" and "sc \<noteq> NaN"
  shows
    "(currentMemoryUsed (afterExpiry c now key) \<le> maxmemory c \<longrightarrow>
        writePrefix c now key = Some (afterExpiry c now key)) \<and>
     (writePrefix c now key = None \<longrightarrow> Cache_zadd c now key sc mb = None) \<and>
     (\<forall>c1. writePrefix c now key = Some c1 \<longrightarrow>
        (lookup2 (store c1) key = None \<longrightarrow>
           (\<exists>c' e' z'. Cache_zadd c now key sc mb = Some (Inr 1, c') \<and>
              lookup2 (store c') key = Some e' \<and> etype e' = TZSet \<and> evalue e' = ZSetVal z' \<and>
              zset_reachable z' \<and> SkipList_pairs (skiplist z') = [(mb, sc)] \<and>
              Map_entries (dict z') = [(mb, sc)])) \<and>
        (\<forall>e z. lookup2 (store c1) key = Some e \<and> etype e = TZSet \<and> evalue e = ZSetVal z \<and>
               zset_reachable z \<longrightarrow>
           (\<exists>c' e' z'.
              Cache_zadd c now key sc mb =
                Some (Inr (if ZSet_zscore z mb = None then 1 else 0), c') \<and>
              lookup2 (store c') key = Some e' \<and> etype e' = TZSet \<and> evalue e' = ZSetVal z' \<and>
              zset_reachable z' \<and>
              ZSet_zscore z' = (ZSet_zscore z)(mb \<mapsto> sc) \<and>
              set (Map_keys (dict z')) = insert mb (set (Map_keys (dict z))) \<and>
              (ZSet_zscore z mb = Some sc \<longrightarrow> z' = z) \<and>
              mset (SkipList_pairs (skiplist z')) =
                add_mset (mb, sc) (mset (SkipList_pairs (skiplist z)) -
                  (case ZSet_zscore z mb of None \<Rightarrow> {#} | Some old \<Rightarrow> {#(mb, old)#})))))"
proof (intro conjI allI impI)
  note inv = reachable_inv[OF assms(1)]
  show "writePrefix c now key = Some (afterExpiry c now key)"
    if "currentMemoryUsed (afterExpiry c now key) \<le> maxmemory c"
    using inv that by (rule writePrefix_within)
  show "Cache_zadd c now key sc mb = None" if "writePrefix c now key = None"
    using that by (rule writes_none(1))
  show "\<exists>c' e' z'. Cache_zadd c now key sc mb = Some (Inr 1, c') \<and>
           lookup2 (store c') key = Some e' \<and> etype e' = TZSet \<and> evalue e' = ZSetVal z' \<and>
           zset_reachable z' \<and> SkipList_pairs (skiplist z') = [(mb, sc)] \<and>
           Map_entries (dict z') = [(mb, sc)]"
    if "writePrefix c now key = Some c1" "lookup2 (store c1) key = None" for c1
    using Cache_zadd_created[OF inv that assms(2)] .
  show "\<exists>c' e' z'.
           Cache_zadd c now key sc mb = Some (Inr (if ZSet_zscore z mb = None then 1 else 0), c') \<and>
           lookup2 (store c') key = Some e' \<and> etype e' = TZSet \<and> evalue e' = ZSetVal z' \<and>
           zset_reachable z' \<and>
           ZSet_zscore z' = (ZSet_zscore z)(mb \<mapsto> sc) \<and>
           set (Map_keys (dict z')) = insert mb (set (Map_keys (dict z))) \<and>
           (ZSet_zscore z mb = Some sc \<longrightarrow> z' = z) \<and>
           mset (SkipList_pairs (skiplist z')) =
             add_mset (mb, sc) (mset (SkipList_pairs (skiplist z)) -
               (case ZSet_zscore z mb of None \<Rightarrow> {#} | Some old \<Rightarrow> {#(mb, old)#}))"
    if p: "writePrefix c now key = Some c1"
      and h: "lookup2 (store c1) key = Some e \<and> etype e = TZSet \<and> evalue e = ZSetVal z \<and>
            zset_reachable z" for c1 e z
  proof -
    from h have e: "lookup2 (store c1) key = Some e" and ty: "etype e = TZSet"
      and v: "evalue e = ZSetVal z" and zr: "zset_reachable z" by simp_all
    note zi = zset_reachable_inv[OF zr]
    from ZSet_zadd_spec[OF zi assms(2), of mb "random c1"]
    obtain z' rnd' where za: "ZSet_zadd z mb sc (random c1) = Some (Map_get (dict z) mb = None, z', rnd')"
      and g: "Map_get (dict z') = (Map_get (dict z))(mb \<mapsto> sc)"
      and same: "Map_get (dict z) mb = Some sc \<longrightarrow> z' = z"
      and ms: "mset (SkipList_pairs (skiplist z')) =
             add_mset (mb, sc) (mset (SkipList_pairs (skiplist z)) -
               (case Map_get (dict z) mb of None \<Rightarrow> {#} | Some old \<Rightarrow> {#(mb, old)#}))"
      by auto
    have zr': "zset_reachable z'" by (rule zr_zadd[OF zr assms(2) za])
    from Cache_zadd_member[OF inv p e ty v za]
    obtain c' e' where r: "Cache_zadd c now key sc mb =
        Some (Inr (if Map_get (dict z) mb = None then 1 else 0), c')"
      and l: "lookup2 (store c') key = Some e'" and ty': "etype e' = TZSet"
      and v': "evalue e' = ZSetVal z'"
      by auto
    have zs: "ZSet_zscore z' = (ZSet_zscore z)(mb \<mapsto> sc)"
      by (rule ext) (simp add: ZSet_zscore_def g)
    have ks: "set (Map_keys (dict z')) = insert mb (set (Map_keys (dict z)))"
      unfolding Map_keys_get_set g by auto
    show ?thesis
      using r l ty' v' zr' zs ks same ms by (auto simp: ZSet_zscore_def)
  qed
qed

text \<open>
  The member index and the skip list agree. On every ordered collection built from the
  empty one by zadd calls with numbers as scores and by zrem calls, each such call returns,
  the member index and the skip list hold the same (member, score) pairs, a pair being in
  the skip list exactly when the index gives the member that score, and no member appears
  twice in the skip list or in the index.
\<close>

lemma index_matches_skip_list:
  assumes "zset_reachable z"
  shows
    "mset (SkipList_pairs (skiplist z)) = mset (Map_entries (dict z)) \<and>
     (\<forall>m s. (ZSet_zscore z m = Some s) = ((m, s) \<in> set (SkipList_pairs (skiplist z)))) \<and>
     distinct (map fst (SkipList_pairs (skiplist z))) \<and>
     distinct (Map_keys (dict z)) \<and>
     (sc \<noteq> NaN \<longrightarrow> (\<exists>b z' rnd'. ZSet_zadd z mb sc rnd = Some (b, z', rnd') \<and> zset_reachable z')) \<and>
     (\<exists>b z'. ZSet_zrem z mb = Some (b, z') \<and> zset_reachable z')"
proof -
  note zi = zset_reachable_inv[OF assms]
  have a: "sc \<noteq> NaN \<longrightarrow> (\<exists>b z' rnd'. ZSet_zadd z mb sc rnd = Some (b, z', rnd') \<and> zset_reachable z')"
  proof
    assume sc: "sc \<noteq> NaN"
    from ZSet_zadd_spec[OF zi sc, of mb rnd] obtain z' rnd' where
      za: "ZSet_zadd z mb sc rnd = Some (Map_get (dict z) mb = None, z', rnd')" by auto
    from zr_zadd[OF assms sc za] za
    show "\<exists>b z' rnd'. ZSet_zadd z mb sc rnd = Some (b, z', rnd') \<and> zset_reachable z'" by blast
  qed
  have r: "\<exists>b z'. ZSet_zrem z mb = Some (b, z') \<and> zset_reachable z'"
  proof -
    from ZSet_zrem_spec[OF zi, of mb] obtain z' where
      zr: "ZSet_zrem z mb = Some (Map_get (dict z) mb \<noteq> None, z')" by auto
    from zr_zrem[OF assms zr] zr show ?thesis by blast
  qed
  from zi have "(\<forall>m s. (ZSet_zscore z m = Some s) = ((m, s) \<in> set (SkipList_pairs (skiplist z)))) \<and>
     distinct (map fst (SkipList_pairs (skiplist z))) \<and> distinct (Map_keys (dict z))"
    by (simp add: zset_inv_def ZSet_zscore_def)
  with zset_inv_mset[OF zi] a r show ?thesis by blast
qed

text \<open>
  Ranks. On every ordered collection built from the
  empty one by zadd calls with numbers as scores and by zrem calls, the pairs of the skip
  list are in strictly ascending order of (score, member), there are as many as the
  collection has members, their members are the members of the collection, and zrank
  returns for the member of the i-th pair, counted from 0, the rank i. So the ranks of the N
  members are the numbers 0 to N - 1, each once, and a string that is no member has no rank.
\<close>

lemma zrank_is_sorted_index:
  assumes "zset_reachable z"
  shows
    "sorted_wrt (\<lambda>p q. keyLess (snd p, fst p) (snd q, fst q)) (SkipList_pairs (skiplist z)) \<and>
     length (SkipList_pairs (skiplist z)) = ZSet_zcard z \<and>
     mset (map fst (SkipList_pairs (skiplist z))) = mset (Map_keys (dict z)) \<and>
     (\<forall>i<ZSet_zcard z.
        ZSet_zrank z (fst (SkipList_pairs (skiplist z) ! i)) = Some (Some (int i)) \<and>
        ZSet_zscore z (fst (SkipList_pairs (skiplist z) ! i)) = Some (snd (SkipList_pairs (skiplist z) ! i))) \<and>
     mset (map (ZSet_zrank z) (Map_keys (dict z))) =
       mset (map (\<lambda>i. Some (Some (int i))) [0..<ZSet_zcard z]) \<and>
     (\<forall>m. m \<notin> set (Map_keys (dict z)) \<longrightarrow> ZSet_zrank z m = Some None)"
proof -
  note zi = zset_reachable_inv[OF assms]
  note mem = zset_inv_members[OF zi]
  have rk: "\<forall>i<ZSet_zcard z.
        ZSet_zrank z (fst (SkipList_pairs (skiplist z) ! i)) = Some (Some (int i)) \<and>
        ZSet_zscore z (fst (SkipList_pairs (skiplist z) ! i)) = Some (snd (SkipList_pairs (skiplist z) ! i))"
  proof (intro allI impI)
    fix i assume "i < ZSet_zcard z"
    then have i: "i < length (SkipList_pairs (skiplist z))" using mem(2) by simp
    let ?p = "SkipList_pairs (skiplist z) ! i"
    have "(fst ?p, snd ?p) \<in> set (SkipList_pairs (skiplist z))" using i by simp
    with zi have "ZSet_zscore z (fst ?p) = Some (snd ?p)"
      by (simp add: zset_inv_def ZSet_zscore_def)
    with ZSet_zrank_pairs[OF zi i]
    show "ZSet_zrank z (fst ?p) = Some (Some (int i)) \<and> ZSet_zscore z (fst ?p) = Some (snd ?p)"
      by simp
  qed
  have ab: "\<forall>m. m \<notin> set (Map_keys (dict z)) \<longrightarrow> ZSet_zrank z m = Some None"
    using ZSet_zrank_absent[of z] by (simp add: Map_get_None_keys)
  from zset_pairs_sorted(1)[OF zi] mem(2) mem(1) rk ZSet_zrank_permutation[OF zi] ab
  show ?thesis
    apply -
    apply (rule conjI, assumption)+
    apply assumption
    done
qed

subsection \<open>Example runs\<close>

text \<open>Random draws that are all 1/2: every new node of a skip list gets level 1.\<close>

definition half :: random_source where
  "half = (\<lambda>n. 1 / 2)"

text \<open>The collection after \<^verbatim>\<open>zadd("a", 1)\<close>, \<^verbatim>\<open>zadd("b", 2)\<close>, \<^verbatim>\<open>zadd("c", 3)\<close> and
  \<^verbatim>\<open>zadd("b", 4)\<close> on a new ZSet.\<close>

definition zs1 :: ZSet where
  "zs1 = fst (snd (the (ZSet_zadd new_ZSet ''a'' (Fin 1) half)))"

definition zs2 :: ZSet where
  "zs2 = fst (snd (the (ZSet_zadd zs1 ''b'' (Fin 2) half)))"

definition zs3 :: ZSet where
  "zs3 = fst (snd (the (ZSet_zadd zs2 ''c'' (Fin 3) half)))"

definition zs4 :: ZSet where
  "zs4 = fst (snd (the (ZSet_zadd zs3 ''b'' (Fin 4) half)))"

lemma zs_steps:
  "\<not> Option.is_none (ZSet_zadd new_ZSet ''a'' (Fin 1) half)"
  "\<not> Option.is_none (ZSet_zadd zs1 ''b'' (Fin 2) half)"
  "\<not> Option.is_none (ZSet_zadd zs2 ''c'' (Fin 3) half)"
  "\<not> Option.is_none (ZSet_zadd zs3 ''b'' (Fin 4) half)"
  unfolding zs1_def zs2_def zs3_def half_def by code_simp+

lemma zadd_step:
  assumes "zset_reachable z" and "sc \<noteq> NaN" and "\<not> Option.is_none (ZSet_zadd z mb sc rnd)"
  shows "zset_reachable (fst (snd (the (ZSet_zadd z mb sc rnd))))"
proof -
  from assms(3) obtain b z' rnd' where "ZSet_zadd z mb sc rnd = Some (b, z', rnd')"
    by (cases "ZSet_zadd z mb sc rnd") (auto simp: Option.is_none_def)
  with zr_zadd[OF assms(1,2) this] show ?thesis by simp
qed

lemma zs4_reachable: "zset_reachable zs4"
proof -
  have 1: "zset_reachable zs1" unfolding zs1_def by (rule zadd_step[OF zr_new _ zs_steps(1)]) simp
  have 2: "zset_reachable zs2" unfolding zs2_def by (rule zadd_step[OF 1 _ zs_steps(2)]) simp
  have 3: "zset_reachable zs3" unfolding zs3_def by (rule zadd_step[OF 2 _ zs_steps(3)]) simp
  show ?thesis unfolding zs4_def by (rule zadd_step[OF 3 _ zs_steps(4)]) simp
qed

lemma zs4_pairs:
  "SkipList_pairs (skiplist zs4) = [(''a'', Fin 1), (''c'', Fin 3), (''b'', Fin 4)]"
  "Map_entries (dict zs4) = [(''a'', Fin 1), (''b'', Fin 4), (''c'', Fin 3)]"
  "ZSet_zcard zs4 = 3"
  unfolding zs4_def zs3_def zs2_def zs1_def half_def by code_simp+

lemma index_matches_skip_list_example:
  "zset_reachable zs4 \<and>
   SkipList_pairs (skiplist zs4) = [(''a'', Fin 1), (''c'', Fin 3), (''b'', Fin 4)] \<and>
   Map_entries (dict zs4) = [(''a'', Fin 1), (''b'', Fin 4), (''c'', Fin 3)] \<and>
   mset (SkipList_pairs (skiplist zs4)) = mset (Map_entries (dict zs4)) \<and>
   distinct (map fst (SkipList_pairs (skiplist zs4))) \<and>
   ZSet_zscore zs4 ''b'' = Some (Fin 4) \<and>
   (\<exists>b z'. ZSet_zrem zs4 ''b'' = Some (b, z') \<and> zset_reachable z')"
proof -
  note T = index_matches_skip_list[OF zs4_reachable, where mb="''b''"]
  have "(''b'', Fin 4) \<in> set (SkipList_pairs (skiplist zs4))" by (simp add: zs4_pairs(1))
  with T have "ZSet_zscore zs4 ''b'' = Some (Fin 4)" by blast
  with T zs4_reachable zs4_pairs(1,2) show ?thesis by blast
qed

lemma zrank_is_sorted_index_example:
  "zset_reachable zs4 \<and> ZSet_zcard zs4 = 3 \<and>
   SkipList_pairs (skiplist zs4) = [(''a'', Fin 1), (''c'', Fin 3), (''b'', Fin 4)] \<and>
   ZSet_zrank zs4 ''a'' = Some (Some 0) \<and> ZSet_zrank zs4 ''c'' = Some (Some 1) \<and>
   ZSet_zrank zs4 ''b'' = Some (Some 2) \<and> ZSet_zrank zs4 ''d'' = Some None"
proof -
  note T = zrank_is_sorted_index[OF zs4_reachable]
  from T have r: "\<forall>i<ZSet_zcard zs4.
      ZSet_zrank zs4 (fst (SkipList_pairs (skiplist zs4) ! i)) = Some (Some (int i))" by blast
  from r[THEN spec, of 0] have a: "ZSet_zrank zs4 ''a'' = Some (Some 0)"
    by (simp add: zs4_pairs)
  from r[THEN spec, of 1] have c: "ZSet_zrank zs4 ''c'' = Some (Some 1)"
    by (simp add: zs4_pairs)
  from r[THEN spec, of 2] have b: "ZSet_zrank zs4 ''b'' = Some (Some 2)"
    by (simp add: zs4_pairs)
  from T have m: "mset (map fst (SkipList_pairs (skiplist zs4))) = mset (Map_keys (dict zs4))"
    by blast
  have "''d'' \<notin> set (map fst (SkipList_pairs (skiplist zs4)))" by (simp add: zs4_pairs(1))
  then have "''d'' \<notin> set (Map_keys (dict zs4))" using mset_eq_setD[OF m] by simp
  with T have d: "ZSet_zrank zs4 ''d'' = Some None" by blast
  from zs4_reachable zs4_pairs(3,1) a c b d show ?thesis by blast
qed

text \<open>The cache after \<^verbatim>\<open>zadd("z", 1, "a")\<close> on a new cache with default options.\<close>

definition zc0 :: Cache where
  "zc0 = new_Cache default_options half"

definition zc1 :: Cache where
  "zc1 = snd (the (Cache_zadd zc0 1000 ''z'' (Fin 1) ''a''))"

lemma zc_steps:
  "\<not> Option.is_none (writePrefix zc0 1000 ''z'')"
  "Option.is_none (lookup2 (store (the (writePrefix zc0 1000 ''z''))) ''z'')"
  "\<not> Option.is_none (writePrefix zc1 1001 ''z'')"
  "\<not> Option.is_none (lookup2 (store (the (writePrefix zc1 1001 ''z''))) ''z'')"
  unfolding zc1_def zc0_def half_def by code_simp+

lemma zadd_adds_or_updates_example:
  "reachable zc0 \<and> Fin 1 \<noteq> NaN \<and> writePrefix zc0 1000 ''z'' \<noteq> None \<and>
   lookup2 (store (the (writePrefix zc0 1000 ''z''))) ''z'' = None \<and>
   (\<exists>c'. Cache_zadd zc0 1000 ''z'' (Fin 1) ''a'' = Some (Inr 1, c')) \<and>
   reachable zc1 \<and> Fin 5 \<noteq> NaN \<and> writePrefix zc1 1001 ''z'' \<noteq> None \<and>
   (\<exists>c' e' z'. Cache_zadd zc1 1001 ''z'' (Fin 5) ''a'' = Some (Inr 0, c') \<and>
      lookup2 (store c') ''z'' = Some e' \<and> evalue e' = ZSetVal z' \<and>
      ZSet_zscore z' ''a'' = Some (Fin 5) \<and> SkipList_pairs (skiplist z') = [(''a'', Fin 5)])"
proof -
  have r0: "reachable zc0" unfolding zc0_def by (rule r_new)
  obtain p0 where p0: "writePrefix zc0 1000 ''z'' = Some p0"
    using zc_steps(1) by (cases "writePrefix zc0 1000 ''z''") (auto simp: Option.is_none_def)
  have n0: "lookup2 (store p0) ''z'' = None"
    using zc_steps(2) p0 by (simp add: Option.is_none_def)
  have s1: "Fin 1 \<noteq> NaN" and s5: "Fin 5 \<noteq> NaN" by simp_all
  note T0 = zadd_adds_or_updates[OF r0 s1, where now=1000 and key="''z''" and mb="''a''"]
  from T0[THEN conjunct2, THEN conjunct2, THEN spec, THEN mp, OF p0, THEN conjunct1, THEN mp, OF n0]
  obtain c' e z where za: "Cache_zadd zc0 1000 ''z'' (Fin 1) ''a'' = Some (Inr 1, c')"
    and le: "lookup2 (store c') ''z'' = Some e" and ty: "etype e = TZSet"
    and ev: "evalue e = ZSetVal z" and zr: "zset_reachable z"
    and ps: "SkipList_pairs (skiplist z) = [(''a'', Fin 1)]"
    and es: "Map_entries (dict z) = [(''a'', Fin 1)]"
    by blast
  from za have c': "c' = zc1" by (simp add: zc1_def)
  have r1: "reachable zc1" using r_zadd[OF r0 za] c' by simp
  obtain p1 where p1: "writePrefix zc1 1001 ''z'' = Some p1"
    using zc_steps(3) by (cases "writePrefix zc1 1001 ''z''") (auto simp: Option.is_none_def)
  have "lookup2 (store p1) ''z'' \<noteq> None"
    using zc_steps(4) p1 by (simp add: Option.is_none_def)
  with writePrefix_kept(2)[OF reachable_inv[OF r1] p1] le c'
  have l1: "lookup2 (store p1) ''z'' = Some e" by (auto simp: kept_or_gone_def)
  have sc: "ZSet_zscore z ''a'' = Some (Fin 1)" by (simp add: ZSet_zscore_def Map_get_def es)
  note T1 = zadd_adds_or_updates[OF r1 s5, where now=1001 and key="''z''" and mb="''a''"]
  from T1[THEN conjunct2, THEN conjunct2, THEN spec, THEN mp, OF p1, THEN conjunct2,
          THEN spec, THEN spec, THEN mp, OF conjI[OF l1 conjI[OF ty conjI[OF ev zr]]]]
  obtain c'' e'' z'' where zb: "Cache_zadd zc1 1001 ''z'' (Fin 5) ''a'' =
        Some (Inr (if ZSet_zscore z ''a'' = None then 1 else 0), c'')"
    and le': "lookup2 (store c'') ''z'' = Some e''" and ev': "evalue e'' = ZSetVal z''"
    and zs: "ZSet_zscore z'' = (ZSet_zscore z)(''a'' \<mapsto> Fin 5)"
    and ms: "mset (SkipList_pairs (skiplist z'')) =
                add_mset (''a'', Fin 5) (mset (SkipList_pairs (skiplist z)) -
                  (case ZSet_zscore z ''a'' of None \<Rightarrow> {#} | Some old \<Rightarrow> {#(''a'', old)#}))"
    by blast
  from zb sc have zb': "Cache_zadd zc1 1001 ''z'' (Fin 5) ''a'' = Some (Inr 0, c'')" by simp
  from zs have zs': "ZSet_zscore z'' ''a'' = Some (Fin 5)" by simp
  from ms sc ps have "mset (SkipList_pairs (skiplist z'')) = {#(''a'', Fin 5)#}" by simp
  then have ps': "SkipList_pairs (skiplist z'') = [(''a'', Fin 5)]" by (rule mset_single_list)
  from r0 s1 p0 n0 za r1 s5 p1 zb' le' ev' zs' ps' show ?thesis by auto
qed

subsection \<open>Claims on the ordered collection\<close>

text \<open>
  NaN is a value of the score type, and the public \<^verbatim>\<open>zadd\<close> passes the score it is given to
  the collection unchecked. \<open>nan_cache\<close> is a new cache after \<^verbatim>\<open>zadd("z", NaN, "m")\<close>;
  \<open>stored_pairs\<close> and \<open>stored_index\<close> read the skip list and the member index of the
  collection a key holds.
\<close>

definition nan_cache :: Cache where
  "nan_cache = snd (the (Cache_zadd (new_Cache default_options half) 1000 ''z'' NaN ''m''))"

definition stored_pairs :: "Cache \<Rightarrow> string \<Rightarrow> (string \<times> number) list" where
  "stored_pairs c key =
     (case lookup2 (store c) key of
        Some e \<Rightarrow> (case evalue e of ZSetVal z \<Rightarrow> SkipList_pairs (skiplist z) | _ \<Rightarrow> [])
      | None \<Rightarrow> [])"

definition stored_index :: "Cache \<Rightarrow> string \<Rightarrow> (string \<times> number) list" where
  "stored_index c key =
     (case lookup2 (store c) key of
        Some e \<Rightarrow> (case evalue e of ZSetVal z \<Rightarrow> Map_entries (dict z) | _ \<Rightarrow> [])
      | None \<Rightarrow> [])"

lemma nan_cache_step:
  "\<not> Option.is_none (Cache_zadd (new_Cache default_options half) 1000 ''z'' NaN ''m'')"
  unfolding half_def by code_simp

lemma nan_cache_reachable: "reachable nan_cache"
  using nan_cache_step r_zadd[OF r_new, of default_options half 1000 "''z''" NaN "''m''"]
  by (cases "Cache_zadd (new_Cache default_options half) 1000 ''z'' NaN ''m''")
     (auto simp: nan_cache_def Option.is_none_def)

text \<open>
  Claim C5 fails on the code. The claim: zadd on a member already present returns 0 and
  leaves the member set unchanged; with the same score it is a no-op, and with a different
  score the old pair is removed from the skip list and the new pair inserted. In
  \<open>nan_cache\<close> the member \<open>m\<close> is present with the score NaN. \<^verbatim>\<open>zadd("z", 5, "m")\<close> returns 0
  and sets the score of \<open>m\<close> to 5 in the index, but the old pair is not removed from the skip
  list, which then holds \<open>m\<close> twice. \<^verbatim>\<open>zadd("z", NaN, "m")\<close>, the same score, also returns 0
  and is no no-op: it inserts a second pair. The test \<^verbatim>\<open>existing === score\<close> and the
  comparisons of the skip list are all false on NaN, so the old pair is never found.
\<close>

theorem zadd_nan_keeps_old_pair:
  "reachable nan_cache \<and>
   stored_pairs nan_cache ''z'' = [(''m'', NaN)] \<and>
   stored_index nan_cache ''z'' = [(''m'', NaN)] \<and>
   \<not> Option.is_none (Cache_zadd nan_cache 1001 ''z'' (Fin 5) ''m'') \<and>
   fst (the (Cache_zadd nan_cache 1001 ''z'' (Fin 5) ''m'')) = Inr 0 \<and>
   stored_pairs (snd (the (Cache_zadd nan_cache 1001 ''z'' (Fin 5) ''m''))) ''z'' =
     [(''m'', Fin 5), (''m'', NaN)] \<and>
   stored_index (snd (the (Cache_zadd nan_cache 1001 ''z'' (Fin 5) ''m''))) ''z'' = [(''m'', Fin 5)] \<and>
   \<not> Option.is_none (Cache_zadd nan_cache 1001 ''z'' NaN ''m'') \<and>
   fst (the (Cache_zadd nan_cache 1001 ''z'' NaN ''m'')) = Inr 0 \<and>
   stored_pairs (snd (the (Cache_zadd nan_cache 1001 ''z'' NaN ''m''))) ''z'' =
     [(''m'', NaN), (''m'', NaN)]"
proof -
  have "stored_pairs nan_cache ''z'' = [(''m'', NaN)] \<and>
   stored_index nan_cache ''z'' = [(''m'', NaN)] \<and>
   \<not> Option.is_none (Cache_zadd nan_cache 1001 ''z'' (Fin 5) ''m'') \<and>
   fst (the (Cache_zadd nan_cache 1001 ''z'' (Fin 5) ''m'')) = Inr 0 \<and>
   stored_pairs (snd (the (Cache_zadd nan_cache 1001 ''z'' (Fin 5) ''m''))) ''z'' =
     [(''m'', Fin 5), (''m'', NaN)] \<and>
   stored_index (snd (the (Cache_zadd nan_cache 1001 ''z'' (Fin 5) ''m''))) ''z'' = [(''m'', Fin 5)]"
    unfolding nan_cache_def half_def by code_simp
  moreover have "\<not> Option.is_none (Cache_zadd nan_cache 1001 ''z'' NaN ''m'') \<and>
   fst (the (Cache_zadd nan_cache 1001 ''z'' NaN ''m'')) = Inr 0 \<and>
   stored_pairs (snd (the (Cache_zadd nan_cache 1001 ''z'' NaN ''m''))) ''z'' =
     [(''m'', NaN), (''m'', NaN)]"
    unfolding nan_cache_def half_def by code_simp
  ultimately show ?thesis using nan_cache_reachable by blast
qed

text \<open>
  Claim C6 fails on the code. The claim: in every ordered collection reached by zadd and
  zrem calls the member index and the skip list hold the same (member, score) pairs, and no
  member is twice in the skip list. After \<^verbatim>\<open>zadd("z", NaN, "m")\<close> twice, the member \<open>m\<close> is
  twice in the skip list and once in the index. After \<^verbatim>\<open>zadd("z", NaN, "m")\<close> and
  \<^verbatim>\<open>zrem("z", "m")\<close>, which returns 1, the index is empty and the skip list still holds the
  pair of \<open>m\<close>.
\<close>

theorem zadd_nan_twice_duplicates_member:
  "reachable nan_cache \<and>
   \<not> Option.is_none (Cache_zadd nan_cache 1001 ''z'' NaN ''m'') \<and>
   reachable (snd (the (Cache_zadd nan_cache 1001 ''z'' NaN ''m''))) \<and>
   stored_pairs (snd (the (Cache_zadd nan_cache 1001 ''z'' NaN ''m''))) ''z'' =
     [(''m'', NaN), (''m'', NaN)] \<and>
   stored_index (snd (the (Cache_zadd nan_cache 1001 ''z'' NaN ''m''))) ''z'' = [(''m'', NaN)] \<and>
   \<not> Option.is_none (Cache_zrem nan_cache 1001 ''z'' ''m'') \<and>
   reachable (snd (the (Cache_zrem nan_cache 1001 ''z'' ''m''))) \<and>
   fst (the (Cache_zrem nan_cache 1001 ''z'' ''m'')) = Inr 1 \<and>
   stored_pairs (snd (the (Cache_zrem nan_cache 1001 ''z'' ''m''))) ''z'' = [(''m'', NaN)] \<and>
   stored_index (snd (the (Cache_zrem nan_cache 1001 ''z'' ''m''))) ''z'' = []"
proof -
  have a: "\<not> Option.is_none (Cache_zadd nan_cache 1001 ''z'' NaN ''m'') \<and>
   stored_pairs (snd (the (Cache_zadd nan_cache 1001 ''z'' NaN ''m''))) ''z'' =
     [(''m'', NaN), (''m'', NaN)] \<and>
   stored_index (snd (the (Cache_zadd nan_cache 1001 ''z'' NaN ''m''))) ''z'' = [(''m'', NaN)]"
    unfolding nan_cache_def half_def by code_simp
  have b: "\<not> Option.is_none (Cache_zrem nan_cache 1001 ''z'' ''m'') \<and>
   fst (the (Cache_zrem nan_cache 1001 ''z'' ''m'')) = Inr 1 \<and>
   stored_pairs (snd (the (Cache_zrem nan_cache 1001 ''z'' ''m''))) ''z'' = [(''m'', NaN)] \<and>
   stored_index (snd (the (Cache_zrem nan_cache 1001 ''z'' ''m''))) ''z'' = []"
    unfolding nan_cache_def half_def by code_simp
  have ra: "reachable (snd (the (Cache_zadd nan_cache 1001 ''z'' NaN ''m'')))"
    using a r_zadd[OF nan_cache_reachable, of 1001 "''z''" NaN "''m''"]
    by (cases "Cache_zadd nan_cache 1001 ''z'' NaN ''m''") (auto simp: Option.is_none_def)
  have rb: "reachable (snd (the (Cache_zrem nan_cache 1001 ''z'' ''m'')))"
    using b r_zrem[OF nan_cache_reachable, of 1001 "''z''" "''m''"]
    by (cases "Cache_zrem nan_cache 1001 ''z'' ''m''") (auto simp: Option.is_none_def)
  from a b ra rb nan_cache_reachable show ?thesis by blast
qed

text \<open>
  Claim C7 fails on the code. The claim: in an ordered collection of size N, zrank returns
  for each member its index in (score, member) order, so the ranks are the numbers 0 to
  N - 1. The collection of \<open>nan_cache\<close> has one member, \<open>m\<close>, and \<^verbatim>\<open>zrank("z", "m")\<close> returns
  -1, which is not in {0}: the rank walk never steps onto a node whose score is NaN.
\<close>

theorem zrank_nan_member:
  "reachable nan_cache \<and>
   stored_index nan_cache ''z'' = [(''m'', NaN)] \<and>
   stored_pairs nan_cache ''z'' = [(''m'', NaN)] \<and>
   \<not> Option.is_none (Cache_zrank nan_cache 1001 ''z'' ''m'') \<and>
   fst (the (Cache_zrank nan_cache 1001 ''z'' ''m'')) = Inr (Some (- 1))"
proof -
  have "stored_index nan_cache ''z'' = [(''m'', NaN)] \<and>
   stored_pairs nan_cache ''z'' = [(''m'', NaN)] \<and>
   \<not> Option.is_none (Cache_zrank nan_cache 1001 ''z'' ''m'') \<and>
   fst (the (Cache_zrank nan_cache 1001 ''z'' ''m'')) = Inr (Some (- 1))"
    unfolding nan_cache_def half_def by code_simp
  with nan_cache_reachable show ?thesis by blast
qed

end
